(* ===== verification/Prelude.thy ===== *)
theory Prelude
  imports Main "HOL-Library.Word" "HOL-Library.Monad_Syntax" "HOL-Library.Multiset"
begin

unbundle bit_operations_syntax

text \<open>
  Shared vocabulary of the development: the machine types of the C++ sources, the ways in
  which C code can go wrong, byte arrays with checked access, the C string functions the
  sources call, and two interfaces (locales) for transition systems: invariants of reachable
  states, and simulations between a detailed and an abstract system.
\<close>

section \<open>Collections of facts\<close>

named_theorems heap_simps \<open>unfolding of the heap accessors\<close>
named_theorems queue_simps \<open>unfolding of queue operations\<close>
named_theorems mem_simps \<open>rewriting of byte-array operations\<close>

section \<open>Machine types\<close>

type_synonym byte = "8 word"  \<comment> \<open>\<^verbatim>\<open>char\<close>, signed on the platform: read as an int by \<open>scast\<close>\<close>
type_synonym c_int = "32 word"  \<comment> \<open>\<^verbatim>\<open>int\<close>, read by \<open>sint\<close>\<close>
type_synonym c_uint = "32 word"  \<comment> \<open>\<^verbatim>\<open>unsigned int\<close>, read by \<open>uint\<close>\<close>

text \<open>
  What can go wrong. Each value is a branch on which the C program has undefined behaviour
  or stops: a dereference of \<^verbatim>\<open>NULL\<close> or of freed memory, an access outside an array, an erase through an
  end iterator, a failed \<^verbatim>\<open>assert\<close>, a call of \<^verbatim>\<open>exit\<close>, an exception nobody catches, and a
  conversion specification in a message that is used as a format string.
\<close>

datatype c_fault =
  Null_deref | Use_after_free | Out_of_bounds | Bad_iterator | Assert_failed | Exited | Thrown | Bad_format

type_synonym 'a result = "c_fault + 'a"

definition res_bind :: "'a result \<Rightarrow> ('a \<Rightarrow> 'b result) \<Rightarrow> 'b result" where
  "res_bind m f = (case m of Inl e \<Rightarrow> Inl e | Inr x \<Rightarrow> f x)"

lemma res_bind_simps [simp]:
  "res_bind (Inl e) f = Inl e"
  "res_bind (Inr x) f = f x"
  by (simp_all add: res_bind_def)

lemma res_bind_Inr_iff:
  "res_bind m f = Inr y \<longleftrightarrow> (\<exists>x. m = Inr x \<and> f x = Inr y)"
  by (cases m) auto

lemma res_bind_cong [fundef_cong]:
  "m = m' \<Longrightarrow> (\<And>x. m' = Inr x \<Longrightarrow> f x = f' x) \<Longrightarrow> res_bind m f = res_bind m' f'"
  by (cases m') auto

section \<open>Byte arrays\<close>

definition rd :: "byte list \<Rightarrow> nat \<Rightarrow> byte result" where
  "rd a i = (if i < length a then Inr (a ! i) else Inl Out_of_bounds)"

definition wr :: "byte list \<Rightarrow> nat \<Rightarrow> byte \<Rightarrow> byte list result" where
  "wr a i b = (if i < length a then Inr (a[i := b]) else Inl Out_of_bounds)"

text \<open>\<open>mem_write dst off bs\<close> overwrites \<open>dst\<close> from offset \<open>off\<close> with the bytes \<open>bs\<close>.\<close>

definition mem_write :: "byte list \<Rightarrow> nat \<Rightarrow> byte list \<Rightarrow> byte list result" where
  "mem_write dst off bs =
     (if off + length bs \<le> length dst
      then Inr (take off dst @ bs @ drop (off + length bs) dst)
      else Inl Out_of_bounds)"

text \<open>\<^verbatim>\<open>memcpy(dst + off, src + soff, n)\<close> and \<^verbatim>\<open>memcmp(a + off, lit, strlen(lit)) == 0\<close>.\<close>

definition c_memcpy :: "byte list \<Rightarrow> nat \<Rightarrow> byte list \<Rightarrow> nat \<Rightarrow> nat \<Rightarrow> byte list result" where
  "c_memcpy dst off src soff n =
     (if soff + n \<le> length src then mem_write dst off (take n (drop soff src))
      else Inl Out_of_bounds)"

fun c_memeq :: "byte list \<Rightarrow> nat \<Rightarrow> byte list \<Rightarrow> bool result" where
  "c_memeq a off [] = Inr True"
| "c_memeq a off (b # bs) =
     res_bind (rd a off) (\<lambda>x. if x = b then c_memeq a (Suc off) bs else Inr False)"

text \<open>
  A C string is what precedes the first zero byte. \<open>c_strlen\<close> faults when the array holds
  no terminator at or after the offset.
\<close>

definition c_str :: "byte list \<Rightarrow> byte list" where
  "c_str a = takeWhile (\<lambda>b. b \<noteq> 0) a"

definition c_strlen :: "byte list \<Rightarrow> nat result" where
  "c_strlen a = (if 0 \<in> set a then Inr (length (c_str a)) else Inl Out_of_bounds)"

lemma length_mem_write [mem_simps]:
  "mem_write dst off bs = Inr dst' \<Longrightarrow> length dst' = length dst"
  by (auto simp: mem_write_def split: if_splits)

lemma mem_write_ok_iff:
  "(\<exists>dst'. mem_write dst off bs = Inr dst') \<longleftrightarrow> off + length bs \<le> length dst"
  by (simp add: mem_write_def)

lemma mem_write_fault_iff:
  "mem_write dst off bs = Inl e \<longleftrightarrow> \<not> off + length bs \<le> length dst \<and> e = Out_of_bounds"
  by (auto simp: mem_write_def)

lemma c_str_no_nul [mem_simps]: "0 \<notin> set bs \<Longrightarrow> c_str (bs @ 0 # rest) = bs"
  by (induction bs) (auto simp: c_str_def)

lemma c_str_all_no_nul: "0 \<notin> set bs \<Longrightarrow> c_str bs = bs"
  by (auto simp: c_str_def takeWhile_eq_all_conv)

lemma nul_notin_c_str [simp]: "0 \<notin> set (c_str a)"
  by (auto simp: c_str_def dest: set_takeWhileD)

lemma length_c_str_le: "length (c_str a) \<le> length a"
  by (simp add: c_str_def length_takeWhile_le)

lemma c_str_replicate_nul [mem_simps]: "c_str (bs @ replicate n 0) = c_str bs"
  by (induction bs) (auto simp: c_str_def takeWhile_replicate)

text \<open>The bytes of a string literal.\<close>

definition bytes_of :: "string \<Rightarrow> byte list" where
  "bytes_of s = map (\<lambda>c. of_nat (of_char c)) s"

lemma length_bytes_of [simp]: "length (bytes_of s) = length s"
  by (simp add: bytes_of_def)

section \<open>Decimal numbers\<close>

text \<open>\<^verbatim>\<open>std::to_string\<close> of an unsigned number.\<close>

function to_string :: "nat \<Rightarrow> byte list" where
  "to_string n = (if n < 10 then [0x30 + of_nat n] else to_string (n div 10) @ [0x30 + of_nat (n mod 10)])"
  by auto
termination by (relation "measure id") auto

declare to_string.simps [simp del]

definition is_digit :: "byte \<Rightarrow> bool" where
  "is_digit b \<longleftrightarrow> 0x30 \<le> b \<and> b \<le> 0x39"

definition is_space :: "byte \<Rightarrow> bool" where
  "is_space b \<longleftrightarrow> b = 0x20 \<or> (0x09 \<le> b \<and> b \<le> 0x0D)"

definition digits_value :: "byte list \<Rightarrow> nat" where
  "digits_value ds = foldl (\<lambda>a d. 10 * a + unat (d - 0x30)) 0 ds"

text \<open>
  \<^verbatim>\<open>atoi\<close>: white space, a sign, digits; the value saturates at the range of a 64-bit \<^verbatim>\<open>long\<close> and is then
  cut to an \<^verbatim>\<open>int\<close>.
\<close>

definition atoi :: "byte list \<Rightarrow> c_int" where
  "atoi s =
     (let s = dropWhile is_space (c_str s);
          neg = (s \<noteq> [] \<and> hd s = 0x2D);
          s = (if s \<noteq> [] \<and> (hd s = 0x2D \<or> hd s = 0x2B) then tl s else s);
          v = int (digits_value (takeWhile is_digit s));
          v = (if neg then max (- (2 ^ 63)) (- v) else min (2 ^ 63 - 1) v)
      in word_of_int v)"

lemma digit_of_nat:
  assumes "k < 10"
  shows "is_digit (0x30 + of_nat k)" and "unat (of_nat k :: byte) = k"
proof -
  have "k = 0 \<or> k = 1 \<or> k = 2 \<or> k = 3 \<or> k = 4 \<or> k = 5 \<or> k = 6 \<or> k = 7 \<or> k = 8 \<or> k = 9"
    using assms by arith
  then show "is_digit (0x30 + of_nat k)" and "unat (of_nat k :: byte) = k"
    by (auto simp: is_digit_def)
qed

lemma to_string_digits: "list_all is_digit (to_string n)" "to_string n \<noteq> []"
proof (induction n rule: to_string.induct)
  case (1 n)
  { case 1 then show ?case using "1.IH" by (subst to_string.simps) (auto simp: digit_of_nat) }
  { case 2 then show ?case by (subst to_string.simps) auto }
qed

lemma digits_value_to_string [simp]: "digits_value (to_string n) = n"
proof (induction n rule: to_string.induct)
  case (1 n)
  then show ?case
    by (subst to_string.simps) (auto simp: digits_value_def digit_of_nat)
qed

lemma atoi_to_string: "n < 2 ^ 31 \<Longrightarrow> atoi (to_string n @ 0 # x) = of_nat n"
proof -
  obtain d ds where d: "to_string n = d # ds" using to_string_digits(2) by (cases "to_string n") auto
  have all: "\<forall>b \<in> set (to_string n). is_digit b" using to_string_digits(1) by (simp add: list_all_iff)
  then have "0 \<notin> set (to_string n)" by (auto simp: is_digit_def)
  then have c: "c_str (to_string n @ 0 # x) = to_string n" by (rule c_str_no_nul)
  have "is_digit d" using all d by simp
  then have nd: "\<not> is_space d" "d \<noteq> 0x2D" "d \<noteq> 0x2B"
    using order_trans [of "0x30" d "0x0D"] by (auto simp: is_digit_def is_space_def)
  have t: "takeWhile is_digit (to_string n) = to_string n"
    using all by (simp add: takeWhile_eq_all_conv)
  assume "n < 2 ^ 31"
  then show ?thesis
    unfolding atoi_def c using nd t digits_value_to_string [of n] unfolding d by (simp add: Let_def)
qed

section \<open>Transition systems\<close>

inductive reach :: "('s \<Rightarrow> bool) \<Rightarrow> ('s \<Rightarrow> 's \<Rightarrow> bool) \<Rightarrow> 's \<Rightarrow> bool"
  for init :: "'s \<Rightarrow> bool" and step :: "'s \<Rightarrow> 's \<Rightarrow> bool" where
  reach_init: "init s \<Longrightarrow> reach init step s"
| reach_step: "reach init step s \<Longrightarrow> step s t \<Longrightarrow> reach init step t"

text \<open>An inductive invariant holds in every reachable state.\<close>

locale invariant_system =
  fixes init :: "'s \<Rightarrow> bool"
    and step :: "'s \<Rightarrow> 's \<Rightarrow> bool"
    and inv :: "'s \<Rightarrow> bool"
  assumes inv_init: "init s \<Longrightarrow> inv s"
    and inv_step: "inv s \<Longrightarrow> step s t \<Longrightarrow> inv t"
begin

lemma reach_inv: "reach init step s \<Longrightarrow> inv s"
  by (induction rule: reach.induct) (auto intro: inv_init inv_step)

end

text \<open>
  A functional refinement with stuttering: every step of the detailed system is a step of the
  abstract one or leaves the abstract state unchanged, as long as the invariant holds.
\<close>

locale refinement_system = invariant_system +
  fixes ainit :: "'a \<Rightarrow> bool"
    and astep :: "'a \<Rightarrow> 'a \<Rightarrow> bool"
    and abs :: "'b \<Rightarrow> 'a"
  assumes abs_init: "init s \<Longrightarrow> ainit (abs s)"
    and abs_step: "inv s \<Longrightarrow> step s t \<Longrightarrow> abs t = abs s \<or> astep (abs s) (abs t)"
begin

lemma reach_abs: "reach init step s \<Longrightarrow> reach ainit astep (abs s)"
proof (induction rule: reach.induct)
  case (reach_init s)
  then show ?case by (intro reach.reach_init abs_init)
next
  case (reach_step s t)
  then have "inv s" by (intro reach_inv)
  with reach_step have "abs t = abs s \<or> astep (abs s) (abs t)" by (intro abs_step)
  with reach_step.IH show ?case by (auto intro: reach.reach_step)
qed

end

end
