(* ===== verification/Util_Tools.thy ===== *)
theory Util_Tools
  imports Prelude
begin

text \<open>
  \<^verbatim>\<open>utiltools.cpp\<close>: the string hash that produces the keys of the cache tree, and the
  unfinished \<^verbatim>\<open>split_string\<close>. The hash is kept on 32-bit words with sign-extended characters,
  as the C++ computes it, and is compared with the polynomial its comment announces.
\<close>

section \<open>Definitions\<close>

text \<open>
  The loop \<^verbatim>\<open>while (len--) hash = *str++ + (hash << 6) + (hash << 16) - hash\<close>. The pointer is
  the remaining part of the array; running past its end is the fault. A negative \<open>len\<close> never
  reaches 0 by counting down within an array, which the same equation expresses.
\<close>

fun hash_loop :: "byte list \<Rightarrow> c_int \<Rightarrow> c_uint \<Rightarrow> c_uint result" where
  "hash_loop [] len h = (if len = 0 then Inr h else Inl Out_of_bounds)"
| "hash_loop (c # str) len h =
     (if len = 0 then Inr h
      else hash_loop str (len - 1) (scast c + push_bit 6 h + push_bit 16 h - h))"

definition hash :: "byte list \<Rightarrow> c_int \<Rightarrow> c_uint result" where
  "hash str len = res_bind (hash_loop str len 0) (\<lambda>h. Inr (h AND 0x7FFFFFFF))"

text \<open>
  The free function \<^verbatim>\<open>split_string\<close>: the loop body neither moves \<open>t_src\<close> nor appends to the
  list, so the loop is left only if it is never entered. Pointers are indices into the array;
  the read \<^verbatim>\<open>*t_src\<close> faults outside it.
\<close>

partial_function (option) split_loop ::
    "byte list \<Rightarrow> nat \<Rightarrow> nat \<Rightarrow> byte \<Rightarrow> nat list \<Rightarrow> nat list result option" where
  "split_loop a t_src tail token out =
     (if t_src \<noteq> tail
      then (case rd a t_src of
              Inl e \<Rightarrow> Some (Inl e)
            | Inr c \<Rightarrow> if c = token then split_loop a t_src tail token out
                       else split_loop a t_src tail token out)
      else Some (Inr out))"

definition split_string :: "byte list \<Rightarrow> nat \<Rightarrow> nat \<Rightarrow> byte \<Rightarrow> nat list result option" where
  "split_string a src tail token = split_loop a src tail token []"

text \<open>The polynomial the source's comment gives: \<^verbatim>\<open>hash = 65599*hash + (*str++)\<close>.\<close>

definition sdbm :: "byte list \<Rightarrow> c_uint" where
  "sdbm bs = foldl (\<lambda>h c. 65599 * h + scast c) 0 bs"

section \<open>The hash\<close>

lemma hash_round: "scast c + push_bit 6 h + push_bit 16 h - h = 65599 * h + (scast c :: c_uint)"
  by (simp add: push_bit_eq_mult algebra_simps)

lemma hash_loop_prefix:
  "n \<le> length str \<Longrightarrow> n < 2 ^ 32 \<Longrightarrow>
   hash_loop str (word_of_nat n) h = Inr (foldl (\<lambda>h c. 65599 * h + scast c) h (take n str))"
proof (induction str arbitrary: n h)
  case Nil
  then show ?case by simp
next
  case (Cons c str)
  show ?case
  proof (cases n)
    case 0
    then show ?thesis by simp
  next
    case (Suc m)
    have nz: "(word_of_nat n :: c_int) \<noteq> 0"
      using Suc Cons.prems(2) by (simp add: word_of_nat_eq_0_iff nat_dvd_not_less del: of_nat_Suc)
    have "word_of_nat n - 1 = (word_of_nat m :: c_int)" using Suc by simp
    then show ?thesis
      using Cons.IH [of m] Cons.prems Suc nz by (simp add: hash_round)
  qed
qed

lemma hash_loop_overrun:
  "hash_loop str len h = Inl e \<longleftrightarrow> length str < unat len \<and> e = Out_of_bounds"
proof (induction str arbitrary: len h)
  case Nil
  then show ?case by (auto simp: unat_gt_0)
next
  case (Cons c str)
  show ?case
  proof (cases "len = 0")
    case False
    then have "unat (len - 1) = unat len - 1" by (simp add: unat_minus_one)
    moreover have "unat len > 0" using False by (simp add: unat_gt_0)
    ultimately show ?thesis using False Cons.IH by auto
  qed simp
qed

lemma mask31_nonneg: "0 \<le>s (h AND 0x7FFFFFFF :: c_uint)"
proof -
  have "\<not> bit (h AND 0x7FFFFFFF) 31"
    by (simp add: bit_and_iff)
  then show ?thesis
    using bit_last_iff [of "h AND 0x7FFFFFFF"] by (simp add: word_sle_eq)
qed

text \<open>
  C6: for a length within the array, \<^verbatim>\<open>utiltool::hash\<close> is the polynomial of the source's
  comment, \<open>65599 * hash + c\<close> over the first \<open>n\<close> (sign-extended) characters modulo \<open>2 ^ 32\<close>,
  with the top bit cleared.
\<close>

theorem hash_is_sdbm:
  assumes "n \<le> length str" and "n < 2 ^ 31"
  shows "hash str (word_of_nat n) = Inr (sdbm (take n str) AND 0x7FFFFFFF)"
  using hash_loop_prefix [of n str 0] assms by (simp add: hash_def sdbm_def)

theorem hash_is_sdbm_witness:
  "hash [115, 104, 200] (word_of_nat 3) = Inr (sdbm [115, 104, 200] AND 0x7FFFFFFF)"
  using hash_is_sdbm [of 3 "[115, 104, 200]"] by simp

text \<open>
  \<^verbatim>\<open>utiltool::hash\<close> either returns a key that is non-negative as a C int, or reads past the
  array; the latter exactly when the length, read as unsigned, exceeds the array, so that every
  negative length overruns an array of fewer than \<open>2 ^ 31\<close> bytes.
\<close>

theorem hash_total_nonneg:
  "case hash str len of
     Inr k \<Rightarrow> 0 \<le>s k \<and> unat len \<le> length str
   | Inl e \<Rightarrow> e = Out_of_bounds \<and> length str < unat len"
proof (cases "hash_loop str len 0")
  case (Inl e)
  then show ?thesis
    using hash_loop_overrun [of str len 0 e] by (simp add: hash_def)
next
  case (Inr h)
  then have "\<not> length str < unat len"
    using hash_loop_overrun [of str len 0 Out_of_bounds] by auto
  with Inr show ?thesis by (simp add: hash_def mask31_nonneg)
qed

section \<open>The splitter\<close>

lemma split_loop_result:
  assumes "split_loop a t_src tail token out = Some res"
  shows "t_src = tail \<and> res = Inr out \<or> t_src \<noteq> tail \<and> (\<exists>e. rd a t_src = Inl e \<and> res = Inl e)"
proof (rule split_loop.raw_induct [where
      P = "\<lambda>a t_src tail token out res. t_src = tail \<and> res = Inr out \<or>
             t_src \<noteq> tail \<and> (\<exists>e. rd a t_src = Inl e \<and> res = Inl e)", OF _ assms])
qed (fastforce split: if_splits sum.splits)

text \<open>
  \<^verbatim>\<open>split_string\<close> never splits: it returns a list only if it is called with
  \<^verbatim>\<open>src == tail\<close>, and then the empty list; from any other start inside the array the loop
  runs forever.
\<close>

theorem split_string_diverges:
  "split_string a src tail token =
     (if src = tail then Some (Inr []) else if src < length a then None else Some (Inl Out_of_bounds))"
proof (cases "src = tail")
  case True
  then show ?thesis by (simp add: split_string_def split_loop.simps)
next
  case False
  show ?thesis
  proof (cases "src < length a")
    case True
    then have "rd a src = Inr (a ! src)" by (simp add: rd_def)
    then have "split_loop a src tail token [] \<noteq> Some res" for res
      using split_loop_result [of a src tail token "[]" res] False by auto
    then have "split_loop a src tail token [] = None" by auto
    then show ?thesis using True False by (simp add: split_string_def)
  next
    case out: False
    then show ?thesis
      using False by (simp add: split_string_def split_loop.simps rd_def)
  qed
qed

end
