(* ===== verification/Splay_Spec.thy ===== *)
theory Splay_Spec
  imports Prelude "HOL-Library.Tree"
begin

text \<open>
  The functional side of the splay tree of \<^verbatim>\<open>splaytree.c\<close>: top-down splaying, insertion and
  deletion on trees whose nodes carry the address, the key and the data of a C node. The keys
  are C ints and are compared by the difference of the macro \<^verbatim>\<open>compare\<close>, which overflows for keys that are
  more than \<^verbatim>\<open>INT_MAX\<close> apart. It cannot overflow for non-negative keys, like those of \<^verbatim>\<open>utiltool::hash\<close>. These
  functions are what the pointer program of \<open>Splay_Heap\<close> is shown to implement; here they are
  shown to implement a finite map.
\<close>

section \<open>Definitions\<close>

text \<open>
  \<^verbatim>\<open>#define compare(i,j) ((i)-(j))\<close>. Where the difference does not fit an \<^verbatim>\<open>int\<close> the C program is undefined; the
  value here is the wrapped one, that of the machine's subtraction.
\<close>

definition compare :: "c_int \<Rightarrow> c_int \<Rightarrow> c_int" where
  "compare i j = i - j"

type_synonym ('p, 'd) cell = "'p \<times> c_int \<times> 'd"
type_synonym ('p, 'd) stree = "('p, 'd) cell tree"
type_synonym ('p, 'd) frames = "(('p, 'd) cell \<times> ('p, 'd) stree) list"

definition ckey :: "('p, 'd) cell \<Rightarrow> c_int" where
  "ckey c = fst (snd c)"

definition skey :: "('p, 'd) cell \<Rightarrow> int" where
  "skey c = sint (ckey c)"

text \<open>
  The descent. \<open>ls\<close> holds the nodes linked to the left tree, oldest first, each with its left
  subtree; \<open>rs\<close> those linked to the right tree, each with its right subtree.
\<close>

fun td :: "c_int \<Rightarrow> ('p, 'd) stree \<Rightarrow> ('p, 'd) frames \<Rightarrow> ('p, 'd) frames
           \<Rightarrow> ('p, 'd) stree \<times> ('p, 'd) frames \<times> ('p, 'd) frames" where
  "td i Leaf ls rs = (Leaf, ls, rs)"
| "td i (Node l c r) ls rs =
     (if compare i (ckey c) <s 0 then
        (case l of
           Leaf \<Rightarrow> (Node l c r, ls, rs)
         | Node ll b lr \<Rightarrow>
             if compare i (ckey b) <s 0 then
               (if ll = Leaf then (Node ll b (Node lr c r), ls, rs)
                else td i ll ls (rs @ [(b, Node lr c r)]))
             else td i l ls (rs @ [(c, r)]))
      else if 0 <s compare i (ckey c) then
        (case r of
           Leaf \<Rightarrow> (Node l c r, ls, rs)
         | Node rl b rr \<Rightarrow>
             if 0 <s compare i (ckey b) then
               (if rr = Leaf then (Node (Node l c rl) b rr, ls, rs)
                else td i rr (ls @ [(b, Node l c rl)]) rs)
             else td i r (ls @ [(c, l)]) rs)
      else (Node l c r, ls, rs))"

definition build_left :: "('p, 'd) frames \<Rightarrow> ('p, 'd) stree \<Rightarrow> ('p, 'd) stree" where
  "build_left ls x = foldr (\<lambda>(c, l) y. Node l c y) ls x"

definition build_right :: "('p, 'd) frames \<Rightarrow> ('p, 'd) stree \<Rightarrow> ('p, 'd) stree" where
  "build_right rs x = foldr (\<lambda>(c, r) y. Node y c r) rs x"

definition splay :: "c_int \<Rightarrow> ('p, 'd) stree \<Rightarrow> ('p, 'd) stree" where
  "splay i t = (case td i t [] [] of
      (Leaf, ls, rs) \<Rightarrow> Leaf
    | (Node l c r, ls, rs) \<Rightarrow> Node (build_left ls l) c (build_right rs r))"

definition s_insert :: "('p, 'd) stree \<Rightarrow> c_int \<Rightarrow> 'd \<Rightarrow> 'p \<Rightarrow> ('p, 'd) stree" where
  "s_insert t i d p = (case splay i t of
      Leaf \<Rightarrow> Node Leaf (p, i, d) Leaf
    | Node l c r \<Rightarrow>
        if compare i (ckey c) = 0 then Node l c r
        else if compare i (ckey c) <s 0 then Node l (p, i, d) (Node Leaf c r)
        else Node (Node l c Leaf) (p, i, d) r)"

definition s_delete :: "('p, 'd) stree \<Rightarrow> c_int \<Rightarrow> ('p, 'd) stree" where
  "s_delete t i = (case splay i t of
      Leaf \<Rightarrow> Leaf
    | Node l c r \<Rightarrow>
        if compare i (ckey c) = 0 then
          (case splay i l of Leaf \<Rightarrow> r | Node xl x xr \<Rightarrow> Node xl x r)
        else Node l c r)"

text \<open>The finite map a tree stands for, and the well-formedness of a tree.\<close>

definition to_map :: "('p, 'd) stree \<Rightarrow> c_int \<Rightarrow> 'd option" where
  "to_map t = map_of (map snd (inorder t))"

definition wf_stree :: "('p, 'd) stree \<Rightarrow> bool" where
  "wf_stree t \<longleftrightarrow> (\<forall>c \<in> set_tree t. 0 \<le>s ckey c) \<and> sorted_wrt (<) (map skey (inorder t))"

section \<open>Comparison of keys\<close>

lemma ckey_simp [simp]: "ckey (p, k, d) = k"
  by (simp add: ckey_def)

lemma skey_simp [simp]: "skey (p, k, d) = sint k"
  by (simp add: skey_def)

lemma compare_eq_0 [simp]: "compare i j = 0 \<longleftrightarrow> i = j"
  by (simp add: compare_def)

lemma sint_diff_nonneg:
  assumes "0 \<le>s (i :: c_int)" and "0 \<le>s j"
  shows "sint (i - j) = sint i - sint j"
proof -
  have "- (2 ^ 31) \<le> sint i - sint j" "sint i - sint j < 2 ^ 31"
    using assms sint_lt [of i] sint_lt [of j] by (simp_all add: word_sle_eq)
  then have "signed_take_bit 31 (sint i - sint j) = sint i - sint j"
    by (intro signed_take_bit_int_eq_self) simp_all
  then show ?thesis by (simp add: sint_word_ariths)
qed

lemma compare_less_iff:
  "0 \<le>s i \<Longrightarrow> 0 \<le>s ckey c \<Longrightarrow> compare i (ckey c) <s 0 \<longleftrightarrow> sint i < skey c"
  by (simp add: compare_def word_sless_alt sint_diff_nonneg skey_def)

lemma compare_greater_iff:
  "0 \<le>s i \<Longrightarrow> 0 \<le>s ckey c \<Longrightarrow> 0 <s compare i (ckey c) \<longleftrightarrow> skey c < sint i"
  by (simp add: compare_def word_sless_alt sint_diff_nonneg skey_def)

lemma skey_eq_iff: "skey c = sint i \<longleftrightarrow> ckey c = i"
  by (auto simp: skey_def intro: signed_word_eqI)

section \<open>Shape of the descent\<close>

lemma build_simps [simp]:
  "build_left [] x = x"
  "build_left ((c, l) # ls) x = Node l c (build_left ls x)"
  "build_left (ls @ [(c, l)]) x = build_left ls (Node l c x)"
  "build_right [] x = x"
  "build_right ((c, r) # rs) x = Node (build_right rs x) c r"
  "build_right (rs @ [(c, r)]) x = build_right rs (Node x c r)"
  by (simp_all add: build_left_def build_right_def)

lemma inorder_build_left:
  "inorder (build_left ls x) = concat (map (\<lambda>(c, l). inorder l @ [c]) ls) @ inorder x"
  by (induction ls) auto

lemma inorder_build_right:
  "inorder (build_right rs x) = inorder x @ concat (map (\<lambda>(c, r). c # inorder r) (rev rs))"
  by (induction rs) auto

lemmas inorder_build = inorder_build_left inorder_build_right

declare td.simps(2) [simp del]

lemma td_stop:
  "(compare i (ckey c) <s 0 \<Longrightarrow> l = Leaf) \<Longrightarrow>
   (0 <s compare i (ckey c) \<Longrightarrow> \<not> compare i (ckey c) <s 0 \<Longrightarrow> r = Leaf) \<Longrightarrow>
   td i (Node l c r) ls rs = (Node l c r, ls, rs)"
  by (simp add: td.simps(2))

text \<open>
  The descent is a sequence of four elementary moves, the rotations and links of the C loop:
  what these moves keep, the whole descent keeps.
\<close>

lemma td_moves:
  assumes "td i t ls rs = (t', ls', rs')" and "P t ls rs"
    and rotate_right: "\<And>ll b lr c r ls rs. compare i (ckey c) <s 0 \<Longrightarrow> compare i (ckey b) <s 0 \<Longrightarrow>
          P (Node (Node ll b lr) c r) ls rs \<Longrightarrow> P (Node ll b (Node lr c r)) ls rs"
    and link_right: "\<And>l c r ls rs. compare i (ckey c) <s 0 \<Longrightarrow> l \<noteq> Leaf \<Longrightarrow>
          P (Node l c r) ls rs \<Longrightarrow> P l ls (rs @ [(c, r)])"
    and rotate_left: "\<And>l c rl b rr ls rs. 0 <s compare i (ckey c) \<Longrightarrow> 0 <s compare i (ckey b) \<Longrightarrow>
          P (Node l c (Node rl b rr)) ls rs \<Longrightarrow> P (Node (Node l c rl) b rr) ls rs"
    and link_left: "\<And>l c r ls rs. 0 <s compare i (ckey c) \<Longrightarrow> r \<noteq> Leaf \<Longrightarrow>
          P (Node l c r) ls rs \<Longrightarrow> P r (ls @ [(c, l)]) rs"
  shows "P t' ls' rs'"
  using assms(1,2)
proof (induction t arbitrary: ls rs rule: measure_induct_rule [of size])
  case (less t)
  show ?case
  proof (cases t)
    case Leaf
    with less.prems show ?thesis by simp
  next
    case (Node l c r)
    note IH = less.IH [unfolded Node] and prems = less.prems [unfolded Node td.simps(2) [of i l c r ls rs]]
    consider "compare i (ckey c) <s 0" "l \<noteq> Leaf" | "0 <s compare i (ckey c)" "r \<noteq> Leaf"
        "\<not> compare i (ckey c) <s 0"
      | "td i (Node l c r) ls rs = (Node l c r, ls, rs)"
      using td_stop by blast
    then show ?thesis
    proof cases
      case 1
      then obtain ll b lr where l: "l = Node ll b lr" by (cases l) auto
      have "P l ls (rs @ [(c, r)])" using link_right 1 prems(2) by blast
      moreover have "compare i (ckey b) <s 0 \<Longrightarrow> P (Node ll b (Node lr c r)) ls rs"
        using rotate_right 1 prems(2) l by blast
      ultimately show ?thesis
        using prems(1) 1 link_right [of b ll "Node lr c r" ls rs] IH [of ll] IH [of l]
        by (auto simp: l split: if_splits)
    next
      case 2
      then obtain rl b rr where r: "r = Node rl b rr" by (cases r) auto
      have "P r (ls @ [(c, l)]) rs" using link_left 2 prems(2) by blast
      moreover have "0 <s compare i (ckey b) \<Longrightarrow> P (Node (Node l c rl) b rr) ls rs"
        using rotate_left 2 prems(2) r by blast
      ultimately show ?thesis
        using prems(1) 2 link_left [of b rr "Node l c rl" ls rs] IH [of rr] IH [of r]
        by (auto simp: r split: if_splits)
    next
      case 3
      with less.prems Node show ?thesis by simp
    qed
  qed
qed

lemma inorder_td:
  assumes "td i t ls rs = (t', ls', rs')"
  shows "inorder (build_left ls' t') @ inorder (build_right rs' Leaf) =
         inorder (build_left ls t) @ inorder (build_right rs Leaf)"
  by (rule td_moves [OF assms, where P = "\<lambda>t1 ls1 rs1.
        inorder (build_left ls1 t1) @ inorder (build_right rs1 Leaf) =
        inorder (build_left ls t) @ inorder (build_right rs Leaf)"])
    (simp_all add: inorder_build)

text \<open>Where the descent ends: at the key, or where the next step would leave the tree.\<close>

definition at_end :: "c_int \<Rightarrow> ('p, 'd) stree \<Rightarrow> bool" where
  "at_end i t = (case t of Leaf \<Rightarrow> True | Node l c r \<Rightarrow>
     (compare i (ckey c) <s 0 \<longrightarrow> l = Leaf) \<and>
     (\<not> compare i (ckey c) <s 0 \<longrightarrow> 0 <s compare i (ckey c) \<longrightarrow> r = Leaf))"

lemma td_final: "td i t ls rs = (t', ls', rs') \<Longrightarrow> at_end i t'"
proof (induction t arbitrary: ls rs rule: measure_induct_rule [of size])
  case (less t)
  show ?case
  proof (cases t)
    case Leaf
    with less.prems show ?thesis by (simp add: at_end_def)
  next
    case (Node l c r)
    have IH: "td i u ls rs = (t', ls', rs') \<Longrightarrow> size u < size l + size r + 1 \<Longrightarrow> at_end i t'"
      for u ls rs using less.IH [of u] Node by simp
    show ?thesis
      using less.prems unfolding Node td.simps(2) [of i l c r ls rs]
      by (auto split: if_splits tree.splits simp: at_end_def [of i "Node _ _ _"]
          word_sless_alt elim!: IH)
  qed
qed

lemma td_nonLeaf: "td i t ls rs = (t', ls', rs') \<Longrightarrow> t' = Leaf \<longleftrightarrow> t = Leaf"
  by (erule td_moves [where P = "\<lambda>t1 _ _. t1 = Leaf \<longleftrightarrow> t = Leaf"]) auto

lemma splay_eq:
  assumes "td i t [] [] = (Node l c r, ls, rs)"
  shows "splay i t = Node (build_left ls l) c (build_right rs r)"
  using assms by (simp add: splay_def)

lemma splay_Leaf [simp]: "splay i Leaf = Leaf"
  by (simp add: splay_def)

lemma splay_Leaf_iff [simp]: "splay i t = Leaf \<longleftrightarrow> t = Leaf"
  using td_nonLeaf [of i t "[]" "[]"]
  by (auto simp: splay_def split: prod.splits tree.splits)

lemma inorder_splay [simp]: "inorder (splay i t) = inorder t"
proof -
  obtain t' ls rs where td: "td i t [] [] = (t', ls, rs)" by (cases "td i t [] []") auto
  show ?thesis
    using td inorder_td [OF td] td_nonLeaf [OF td]
    by (cases t') (auto simp: splay_def inorder_build)
qed

lemma splay_facts [simp]:
  "set_tree (splay i t) = set_tree t" "size (splay i t) = size t"
  by (metis inorder_splay set_inorder) (metis inorder_splay length_inorder)

section \<open>The search order\<close>

abbreviation below :: "c_int \<Rightarrow> ('p, 'd) stree \<Rightarrow> bool" where
  "below i t \<equiv> \<forall>c \<in> set_tree t. skey c < sint i"

abbreviation above :: "c_int \<Rightarrow> ('p, 'd) stree \<Rightarrow> bool" where
  "above i t \<equiv> \<forall>c \<in> set_tree t. sint i < skey c"

lemma wf_stree_Node:
  "wf_stree (Node l c r) \<longleftrightarrow> wf_stree l \<and> wf_stree r \<and> 0 \<le>s ckey c \<and>
     below (ckey c) l \<and> above (ckey c) r"
  by (auto simp: wf_stree_def sorted_wrt_append skey_def intro: less_trans)

lemma wf_stree_Leaf [simp]: "wf_stree Leaf"
  by (simp add: wf_stree_def)

lemma wf_stree_inorder: "inorder t = inorder u \<Longrightarrow> wf_stree t \<longleftrightarrow> wf_stree u"
  by (metis wf_stree_def set_inorder)

lemma wf_splay [simp]: "wf_stree (splay i t) \<longleftrightarrow> wf_stree t"
  by (rule wf_stree_inorder) simp

lemma to_map_splay [simp]: "to_map (splay i t) = to_map t"
  by (simp add: to_map_def)

text \<open>
  The descent keeps the linked nodes on their side of the searched key.
\<close>

abbreviation lbelow :: "c_int \<Rightarrow> ('p, 'd) frames \<Rightarrow> bool" where
  "lbelow i ls \<equiv> \<forall>(c, l) \<in> set ls. skey c < sint i \<and> below i l"

abbreviation rabove :: "c_int \<Rightarrow> ('p, 'd) frames \<Rightarrow> bool" where
  "rabove i rs \<equiv> \<forall>(c, r) \<in> set rs. sint i < skey c \<and> above i r"

lemma set_tree_build_left:
  "set_tree (build_left ls x) = (\<Union>(c, l) \<in> set ls. insert c (set_tree l)) \<union> set_tree x"
  by (induction ls) auto

lemma set_tree_build_right:
  "set_tree (build_right rs x) = (\<Union>(c, r) \<in> set rs. insert c (set_tree r)) \<union> set_tree x"
  by (induction rs) auto

lemma below_trans: "below k t \<Longrightarrow> sint k < sint i \<Longrightarrow> below i t"
  by (auto intro: less_trans)

lemma above_trans: "above k t \<Longrightarrow> sint i < sint k \<Longrightarrow> above i t"
  by (auto intro: less_trans)

lemma td_order:
  assumes "td i t [] [] = (t', ls, rs)" and "wf_stree t" and i: "0 \<le>s i"
  shows "wf_stree t' \<and> lbelow i ls \<and> rabove i rs"
proof (rule td_moves [OF assms(1), where P = "\<lambda>t1 ls1 rs1. wf_stree t1 \<and> lbelow i ls1 \<and> rabove i rs1"])
  show "wf_stree t \<and> lbelow i [] \<and> rabove i []" using assms(2) by simp
next
  fix b c and ll lr r :: "('a, 'b) stree" and ls :: "('a, 'b) frames" and rs :: "('a, 'b) frames"
  assume "wf_stree (Node (Node ll b lr) c r) \<and> lbelow i ls \<and> rabove i rs"
  then show "wf_stree (Node ll b (Node lr c r)) \<and> lbelow i ls \<and> rabove i rs"
    using wf_stree_inorder [of "Node (Node ll b lr) c r" "Node ll b (Node lr c r)"] by simp
next
  fix c and l r :: "('a, 'b) stree" and ls :: "('a, 'b) frames" and rs :: "('a, 'b) frames"
  assume "compare i (ckey c) <s 0" "wf_stree (Node l c r) \<and> lbelow i ls \<and> rabove i rs"
  then show "wf_stree l \<and> lbelow i ls \<and> rabove i (rs @ [(c, r)])"
    using above_trans [of r "ckey c" i] i
    by (simp add: wf_stree_Node compare_less_iff skey_def)
next
  fix c b and l rl rr :: "('a, 'b) stree" and ls :: "('a, 'b) frames" and rs :: "('a, 'b) frames"
  assume "wf_stree (Node l c (Node rl b rr)) \<and> lbelow i ls \<and> rabove i rs"
  then show "wf_stree (Node (Node l c rl) b rr) \<and> lbelow i ls \<and> rabove i rs"
    using wf_stree_inorder [of "Node l c (Node rl b rr)" "Node (Node l c rl) b rr"] by simp
next
  fix c and l r :: "('a, 'b) stree" and ls :: "('a, 'b) frames" and rs :: "('a, 'b) frames"
  assume "0 <s compare i (ckey c)" "wf_stree (Node l c r) \<and> lbelow i ls \<and> rabove i rs"
  then show "wf_stree r \<and> lbelow i (ls @ [(c, l)]) \<and> rabove i rs"
    using below_trans [of l "ckey c" i] i
    by (simp add: wf_stree_Node compare_greater_iff skey_def)
qed

text \<open>After splaying for a key, the two subtrees of the root lie on either side of that key.\<close>

lemma splay_sides:
  assumes "splay i t = Node L c R" and wf: "wf_stree t" and i: "0 \<le>s i"
  shows "below i L \<and> above i R"
proof -
  obtain t' ls rs where td: "td i t [] [] = (t', ls, rs)" by (cases "td i t [] []") auto
  then obtain l r where t': "t' = Node l c r" and L: "L = build_left ls l" and R: "R = build_right rs r"
    using assms(1) by (auto simp: splay_def split: tree.splits)
  have ord: "wf_stree t'" "lbelow i ls" "rabove i rs" using td_order [OF td wf i] by auto
  have "at_end i t'" using td by (rule td_final)
  then have "below i l \<and> above i r"
    using ord(1) i below_trans [of l "ckey c" i] above_trans [of r "ckey c" i]
    unfolding t' at_end_def wf_stree_Node
    by (cases "sint i" "sint (ckey c)" rule: linorder_cases)
      (auto simp: compare_less_iff compare_greater_iff skey_def)
  then show ?thesis
    using ord by (auto simp: L R set_tree_build_left set_tree_build_right)
qed

section \<open>The tree as a finite map\<close>

lemma to_map_iff:
  assumes "wf_stree t"
  shows "to_map t k = Some d \<longleftrightarrow> (\<exists>p. (p, k, d) \<in> set_tree t)"
proof -
  have "distinct (map skey (inorder t))"
    using assms strict_sorted_iff [of "map skey (inorder t)"] by (simp add: wf_stree_def)
  moreover have "map skey (inorder t) = map sint (map fst (map snd (inorder t)))"
    by (simp add: skey_def ckey_def comp_def)
  ultimately have "distinct (map fst (map snd (inorder t)))"
    by (metis distinct_map)
  then show ?thesis
    by (simp add: to_map_def map_of_eq_Some_iff image_iff del: map_map) (metis snd_conv surj_pair)
qed

lemma to_map_None_iff: "to_map t k = None \<longleftrightarrow> (\<forall>c \<in> set_tree t. ckey c \<noteq> k)"
  by (auto simp: to_map_def map_of_eq_None_iff ckey_def)

lemma to_map_eqI:
  assumes "wf_stree t" and "\<And>k d. m k = Some d \<longleftrightarrow> (\<exists>p. (p, k, d) \<in> set_tree t)"
  shows "to_map t = m"
proof
  fix k
  have "to_map t k = Some d \<longleftrightarrow> m k = Some d" for d
    using to_map_iff [OF assms(1)] assms(2) by simp
  then show "to_map t k = m k" by (metis option.exhaust)
qed

lemma splay_root_iff:
  assumes "splay i t = Node l c r" and "wf_stree t" and "0 \<le>s i"
  shows "ckey c = i \<longleftrightarrow> to_map t i \<noteq> None"
  using splay_sides [OF assms] splay_facts(1) [of i t]
  by (auto simp: assms(1) to_map_None_iff skey_eq_iff skey_def)

lemma wf_splayD:
  assumes "splay i t = Node l c r" and "wf_stree t"
  shows "wf_stree (Node l c r)"
  using wf_splay [of i t] assms by simp

lemma set_tree_splayD: "splay i t = Node l c r \<Longrightarrow> set_tree t = insert c (set_tree l \<union> set_tree r)"
  using splay_facts(1) [of i t] by auto

lemma wf_s_insert:
  assumes wf: "wf_stree t" and i: "0 \<le>s i"
  shows "wf_stree (s_insert t i d p)"
proof (cases "splay i t")
  case Leaf
  then show ?thesis using i by (simp add: s_insert_def wf_stree_Node)
next
  case (Node l c r)
  note wfs = wf_splayD [OF Node wf] and sides = splay_sides [OF Node wf i]
  have c: "0 \<le>s ckey c" using wfs by (simp add: wf_stree_Node)
  consider "ckey c = i" | "ckey c \<noteq> i" "sint i < skey c" | "ckey c \<noteq> i" "skey c < sint i"
    using skey_eq_iff [of c i] by linarith
  then show ?thesis
    using Node wfs sides i c
    by cases (simp_all add: s_insert_def wf_stree_Node compare_less_iff skey_def)
qed

lemma set_tree_s_insert:
  assumes wf: "wf_stree t" and i: "0 \<le>s i"
  shows "set_tree (s_insert t i d p) =
    (if to_map t i = None then insert (p, i, d) (set_tree t) else set_tree t)"
proof (cases "splay i t")
  case Leaf
  then show ?thesis by (simp add: s_insert_def to_map_None_iff)
next
  case (Node l c r)
  show ?thesis
  proof (cases "ckey c = i")
    case True
    then have "to_map t i \<noteq> None" using splay_root_iff [OF Node wf i] by simp
    then show ?thesis
      using Node True set_tree_splayD [OF Node] by (simp add: s_insert_def del: not_None_eq)
  next
    case False
    then have "to_map t i = None" using splay_root_iff [OF Node wf i] by simp
    then show ?thesis
      using Node False set_tree_splayD [OF Node] by (auto simp: s_insert_def)
  qed
qed

lemma to_map_s_insert:
  assumes wf: "wf_stree t" and i: "0 \<le>s i"
  shows "to_map (s_insert t i d p) = (if to_map t i = None then (to_map t)(i \<mapsto> d) else to_map t)"
  using to_map_None_iff [of t i]
  by (intro to_map_eqI wf_s_insert wf i)
    (auto simp: set_tree_s_insert [OF wf i] to_map_iff [OF wf] ckey_def)

lemma s_delete_found:
  assumes wf: "wf_stree t" and i: "0 \<le>s i" and sp: "splay i t = Node l c r" and "ckey c = i"
  shows "wf_stree (s_delete t i) \<and> set_tree (s_delete t i) = set_tree l \<union> set_tree r"
proof -
  note wfs = wf_splayD [OF sp wf]
  show ?thesis
  proof (cases "splay i l")
    case Leaf
    then show ?thesis using sp assms(4) wfs by (simp add: s_delete_def wf_stree_Node)
  next
    case (Node xl x xr)
    have l: "wf_stree l" "below i l" "wf_stree r" "above i r"
      using wfs assms(4) by (auto simp: wf_stree_Node)
    have xs: "set_tree l = insert x (set_tree xl \<union> set_tree xr)"
      using Node by (rule set_tree_splayD)
    have "xr = Leaf"
      using splay_sides [OF Node l(1) i] xs l(2) by (cases xr) auto
    moreover have "above (ckey x) r"
      using l(2,4) xs by (auto simp: skey_def intro: less_trans)
    ultimately show ?thesis
      using sp assms(4) Node xs l wf_splayD [OF Node l(1)] by (simp add: s_delete_def wf_stree_Node)
  qed
qed

lemma s_delete_map:
  assumes wf: "wf_stree t" and i: "0 \<le>s i"
  shows "wf_stree (s_delete t i) \<and> to_map (s_delete t i) = (to_map t)(i := None)"
proof (cases "\<exists>l c r. splay i t = Node l c r \<and> ckey c = i")
  case True
  then obtain l c r where sp: "splay i t = Node l c r" and c: "ckey c = i" by blast
  have "wf_stree (s_delete t i)" and set: "set_tree (s_delete t i) = set_tree l \<union> set_tree r"
    using s_delete_found [OF wf i sp c] by auto
  moreover have "to_map (s_delete t i) = (to_map t)(i := None)"
  proof (rule to_map_eqI [OF calculation(1)])
    fix k d
    have "(p, i, d) \<notin> set_tree l \<union> set_tree r" for p d
      using splay_sides [OF sp wf i] by (force simp: skey_def ckey_def)
    then show "((to_map t)(i := None)) k = Some d \<longleftrightarrow> (\<exists>p. (p, k, d) \<in> set_tree (s_delete t i))"
      using c by (auto simp: set to_map_iff [OF wf] set_tree_splayD [OF sp] ckey_def)
  qed
  ultimately show ?thesis by simp
next
  case False
  then have "s_delete t i = splay i t"
    by (cases "splay i t") (auto simp: s_delete_def)
  moreover have "to_map t i = None"
    using False splay_root_iff [OF _ wf i] by (cases "splay i t") (auto simp: to_map_def)
  ultimately show ?thesis using wf by (simp add: fun_upd_idem)
qed

section \<open>Interface: a keyed store in which the first insertion wins\<close>

text \<open>
  Operations of a client: \<open>Put k d p\<close> inserts, \<open>p\<close> being what the allocator hands out for the
  node, \<open>Drop k\<close> deletes. \<open>map_op\<close> is the abstract specification.
\<close>

datatype ('k, 'd, 'p) store_op = Put 'k 'd 'p | Drop 'k

primrec op_key :: "('k, 'd, 'p) store_op \<Rightarrow> 'k" where
  "op_key (Put k d p) = k"
| "op_key (Drop k) = k"

primrec op_addrs :: "('k, 'd, 'p) store_op \<Rightarrow> 'p list" where
  "op_addrs (Put k d p) = [p]"
| "op_addrs (Drop k) = []"

primrec map_op :: "('k \<rightharpoonup> 'd) \<Rightarrow> ('k, 'd, 'p) store_op \<Rightarrow> ('k \<rightharpoonup> 'd)" where
  "map_op M (Put k d p) = (if M k = None then M(k \<mapsto> d) else M)"
| "map_op M (Drop k) = M(k := None)"

locale keyed_store =
  fixes empty :: 's
    and insert :: "'s \<Rightarrow> 'k \<Rightarrow> 'd \<Rightarrow> 'p \<Rightarrow> 's"
    and delete :: "'s \<Rightarrow> 'k \<Rightarrow> 's"
    and lookup :: "'s \<Rightarrow> 'k \<Rightarrow> 'd option"
    and invar :: "'s \<Rightarrow> bool"
    and key_ok :: "'k \<Rightarrow> bool"
  assumes invar_empty: "invar empty"
    and lookup_empty: "lookup empty = Map.empty"
    and invar_insert: "invar s \<Longrightarrow> key_ok k \<Longrightarrow> invar (insert s k d p)"
    and lookup_insert: "invar s \<Longrightarrow> key_ok k \<Longrightarrow>
          lookup (insert s k d p) = (if lookup s k = None then (lookup s)(k \<mapsto> d) else lookup s)"
    and invar_delete: "invar s \<Longrightarrow> key_ok k \<Longrightarrow> invar (delete s k)"
    and lookup_delete: "invar s \<Longrightarrow> key_ok k \<Longrightarrow> lookup (delete s k) = (lookup s)(k := None)"
begin

primrec apply_op :: "'s \<Rightarrow> ('k, 'd, 'p) store_op \<Rightarrow> 's" where
  "apply_op s (Put k d p) = insert s k d p"
| "apply_op s (Drop k) = delete s k"

lemma apply_op_correct:
  assumes "invar s" and "key_ok (op_key op)"
  shows "invar (apply_op s op)" "lookup (apply_op s op) = map_op (lookup s) op"
  using assms by (cases op; simp add: invar_insert lookup_insert invar_delete lookup_delete)+

lemma lookup_run:
  assumes "invar s" and "\<forall>op \<in> set ops. key_ok (op_key op)"
  shows "invar (foldl apply_op s ops) \<and> lookup (foldl apply_op s ops) = foldl map_op (lookup s) ops"
  using assms by (induction ops arbitrary: s) (auto simp: apply_op_correct)

lemma delete_inserted:
  assumes "invar s" and "key_ok k" and "lookup s k = None"
  shows "lookup (delete (insert s k d p) k) = lookup s"
  using assms by (simp add: lookup_delete lookup_insert invar_insert fun_upd_idem)

end

text \<open>The functional splay tree provides the interface for keys that are non-negative ints.\<close>

interpretation spl: keyed_store Leaf s_insert s_delete to_map wf_stree "\<lambda>k. 0 \<le>s k"
proof unfold_locales
  show "to_map Leaf = Map.empty" by (simp add: to_map_def)
qed (auto simp: wf_s_insert to_map_s_insert s_delete_map)

end
