(* ===== verification/Splay_Heap.thy ===== *)
theory Splay_Heap
  imports Splay_Spec
begin

text \<open>
  The splay tree of \<^verbatim>\<open>splaytree.c\<close> as the pointer program it is. The heap maps addresses to
  nodes; the stack variable \<^verbatim>\<open>N\<close> of \<^verbatim>\<open>splaytree_splay\<close> has an address of its own, because the
  code takes it. Every access is checked, so \<open>None\<close> is an invalid dereference, a failed
  \<^verbatim>\<open>assert\<close> or a loop that does not end. The theorems say that on a heap that holds a tree the
  code returns, and leaves the tree that the functions of \<open>Splay_Spec\<close> compute, with every size
  field right and nothing else of the heap changed.
\<close>

section \<open>Nodes and heaps\<close>

datatype addr = Null | Local_N | Mem nat

record 'd tree_node =
  n_left :: addr
  n_right :: addr
  n_key :: c_int
  n_size :: c_int
  n_data :: 'd

type_synonym 'd heap = "addr \<Rightarrow> 'd tree_node option"

definition load :: "'d heap \<Rightarrow> addr \<Rightarrow> 'd tree_node option" where
  "load h p = (if p = Null then None else h p)"

definition set_left :: "'d heap \<Rightarrow> addr \<Rightarrow> addr \<Rightarrow> 'd heap option" where
  "set_left h p v = do { n \<leftarrow> load h p; Some (h(p \<mapsto> n\<lparr>n_left := v\<rparr>)) }"

definition set_right :: "'d heap \<Rightarrow> addr \<Rightarrow> addr \<Rightarrow> 'd heap option" where
  "set_right h p v = do { n \<leftarrow> load h p; Some (h(p \<mapsto> n\<lparr>n_right := v\<rparr>)) }"

definition set_size :: "'d heap \<Rightarrow> addr \<Rightarrow> c_int \<Rightarrow> 'd heap option" where
  "set_size h p v = do { n \<leftarrow> load h p; Some (h(p \<mapsto> n\<lparr>n_size := v\<rparr>)) }"

text \<open>\<^verbatim>\<open>#define splaytree_size(x) (((x)==NULL) ? 0 : ((x)->size))\<close>\<close>

definition node_size :: "'d heap \<Rightarrow> addr \<Rightarrow> c_int option" where
  "node_size h p = (if p = Null then Some 0 else do { n \<leftarrow> load h p; Some (n_size n) })"

section \<open>The code of splaytree\_splay\<close>

text \<open>The state of the loop: heap, \<^verbatim>\<open>t\<close>, \<^verbatim>\<open>l\<close>, \<^verbatim>\<open>r\<close>, \<^verbatim>\<open>l_size\<close>, \<^verbatim>\<open>r_size\<close>.\<close>

type_synonym 'd loop_state = "'d heap \<times> addr \<times> addr \<times> addr \<times> c_int \<times> c_int"

definition resize :: "'d heap \<Rightarrow> addr \<Rightarrow> 'd heap option" where
  "resize h t = do {
     nt \<leftarrow> load h t;
     sl \<leftarrow> node_size h (n_left nt);
     sr \<leftarrow> node_size h (n_right nt);
     set_size h t (sl + sr + 1) }"

definition rotate_right :: "'d heap \<Rightarrow> addr \<Rightarrow> ('d heap \<times> addr) option" where
  "rotate_right h t = do {
     nt \<leftarrow> load h t;
     let y = n_left nt;
     ny \<leftarrow> load h y;
     h \<leftarrow> set_left h t (n_right ny);
     h \<leftarrow> set_right h y t;
     h \<leftarrow> resize h t;
     Some (h, y) }"

definition rotate_left :: "'d heap \<Rightarrow> addr \<Rightarrow> ('d heap \<times> addr) option" where
  "rotate_left h t = do {
     nt \<leftarrow> load h t;
     let y = n_right nt;
     ny \<leftarrow> load h y;
     h \<leftarrow> set_right h t (n_left ny);
     h \<leftarrow> set_left h y t;
     h \<leftarrow> resize h t;
     Some (h, y) }"

definition link_right :: "'d loop_state \<Rightarrow> 'd loop_state option" where
  "link_right s = (case s of (h, t, l, r, l_size, r_size) \<Rightarrow> do {
     h \<leftarrow> set_left h r t;
     nt \<leftarrow> load h t;
     sr \<leftarrow> node_size h (n_right nt);
     Some (h, n_left nt, l, t, l_size, r_size + (1 + sr)) })"

definition link_left :: "'d loop_state \<Rightarrow> 'd loop_state option" where
  "link_left s = (case s of (h, t, l, r, l_size, r_size) \<Rightarrow> do {
     h \<leftarrow> set_right h l t;
     nt \<leftarrow> load h t;
     sl \<leftarrow> node_size h (n_left nt);
     Some (h, n_right nt, t, r, l_size + (1 + sl), r_size) })"

text \<open>The body of the loop: the state at its end and whether the loop goes on, \<open>False\<close> for a \<^verbatim>\<open>break\<close>.\<close>

definition splay_iter :: "c_int \<Rightarrow> 'd loop_state \<Rightarrow> ('d loop_state \<times> bool) option" where
  "splay_iter i s = (case s of (h, t, l, r, l_size, r_size) \<Rightarrow> do {
     nt \<leftarrow> load h t;
     if compare i (n_key nt) <s 0 then
       if n_left nt = Null then Some (s, False)
       else do {
         ny \<leftarrow> load h (n_left nt);
         if compare i (n_key ny) <s 0 then do {
           (h, t) \<leftarrow> rotate_right h t;
           nt \<leftarrow> load h t;
           if n_left nt = Null then Some ((h, t, l, r, l_size, r_size), False)
           else do { s \<leftarrow> link_right (h, t, l, r, l_size, r_size); Some (s, True) } }
         else do { s \<leftarrow> link_right s; Some (s, True) } }
     else if 0 <s compare i (n_key nt) then
       if n_right nt = Null then Some (s, False)
       else do {
         ny \<leftarrow> load h (n_right nt);
         if 0 <s compare i (n_key ny) then do {
           (h, t) \<leftarrow> rotate_left h t;
           nt \<leftarrow> load h t;
           if n_right nt = Null then Some ((h, t, l, r, l_size, r_size), False)
           else do { s \<leftarrow> link_left (h, t, l, r, l_size, r_size); Some (s, True) } }
         else do { s \<leftarrow> link_left s; Some (s, True) } }
     else Some (s, False) })"

partial_function (option) splay_loop :: "c_int \<Rightarrow> 'd loop_state \<Rightarrow> 'd loop_state option" where
  "splay_loop i s = do { (s, go_on) \<leftarrow> splay_iter i s; if go_on then splay_loop i s else Some s }"

text \<open>The two loops that correct the size fields along the spines just built.\<close>

partial_function (option) fix_left_sizes :: "'d heap \<Rightarrow> addr \<Rightarrow> c_int \<Rightarrow> 'd heap option" where
  "fix_left_sizes h y l_size =
     (if y = Null then Some h
      else do {
        h \<leftarrow> set_size h y l_size;
        ny \<leftarrow> load h y;
        s \<leftarrow> node_size h (n_left ny);
        fix_left_sizes h (n_right ny) (l_size - (1 + s)) })"

partial_function (option) fix_right_sizes :: "'d heap \<Rightarrow> addr \<Rightarrow> c_int \<Rightarrow> 'd heap option" where
  "fix_right_sizes h y r_size =
     (if y = Null then Some h
      else do {
        h \<leftarrow> set_size h y r_size;
        ny \<leftarrow> load h y;
        s \<leftarrow> node_size h (n_right ny);
        fix_right_sizes h (n_left ny) (r_size - (1 + s)) })"

text \<open>
  The whole function. \<open>g\<close> is the indeterminate content of the stack slot of \<^verbatim>\<open>N\<close>; the slot
  is gone when the function returns.
\<close>

definition splay_finish :: "'d loop_state \<Rightarrow> ('d heap \<times> addr) option" where
  "splay_finish s = (case s of (h, t, l, r, l_size, r_size) \<Rightarrow> do {
     nt \<leftarrow> load h t;
     sl \<leftarrow> node_size h (n_left nt);
     sr \<leftarrow> node_size h (n_right nt);
     let l_size = l_size + sl;
     let r_size = r_size + sr;
     h \<leftarrow> set_size h t (l_size + r_size + 1);
     h \<leftarrow> set_left h r Null;
     h \<leftarrow> set_right h l Null;
     nN \<leftarrow> load h Local_N;
     h \<leftarrow> fix_left_sizes h (n_right nN) l_size;
     nN \<leftarrow> load h Local_N;
     h \<leftarrow> fix_right_sizes h (n_left nN) r_size;
     nt \<leftarrow> load h t;
     h \<leftarrow> set_right h l (n_left nt);
     nt \<leftarrow> load h t;
     h \<leftarrow> set_left h r (n_right nt);
     nN \<leftarrow> load h Local_N;
     h \<leftarrow> set_left h t (n_right nN);
     nN \<leftarrow> load h Local_N;
     h \<leftarrow> set_right h t (n_left nN);
     Some (h(Local_N := None), t) })"

definition splaytree_splay ::
    "'d tree_node \<Rightarrow> 'd heap \<Rightarrow> addr \<Rightarrow> c_int \<Rightarrow> ('d heap \<times> addr) option" where
  "splaytree_splay g h t i =
     (if t = Null then Some (h, t)
      else do {
        s \<leftarrow> splay_loop i
          (h(Local_N \<mapsto> g\<lparr>n_left := Null, n_right := Null\<rparr>), t, Local_N, Local_N, 0, 0);
        splay_finish s })"

section \<open>The code of splaytree\_insert and splaytree\_delete\<close>

definition set_key :: "'d heap \<Rightarrow> addr \<Rightarrow> c_int \<Rightarrow> 'd heap option" where
  "set_key h p v = do { n \<leftarrow> load h p; Some (h(p \<mapsto> n\<lparr>n_key := v\<rparr>)) }"

definition set_data :: "'d heap \<Rightarrow> addr \<Rightarrow> 'd \<Rightarrow> 'd heap option" where
  "set_data h p v = do { n \<leftarrow> load h p; Some (h(p \<mapsto> n\<lparr>n_data := v\<rparr>)) }"

definition free_node :: "'d heap \<Rightarrow> addr \<Rightarrow> 'd heap option" where
  "free_node h p = do { n \<leftarrow> load h p; Some (h(p := None)) }"

text \<open>
  \<open>m\<close> is what \<^verbatim>\<open>malloc\<close> returns for the new node, \<open>Null\<close> when memory is exhausted
  (\<^verbatim>\<open>assert(_new)\<close> then stops the program), and \<open>g\<close> the indeterminate content of that memory.
\<close>

definition splaytree_insert ::
    "'d tree_node \<Rightarrow> 'd heap \<Rightarrow> addr \<Rightarrow> c_int \<Rightarrow> 'd \<Rightarrow> addr \<Rightarrow> ('d heap \<times> addr) option" where
  "splaytree_insert g h t i dat m = do {
     (h, t, found) \<leftarrow>
       (if t \<noteq> Null
        then do {
          (h, t) \<leftarrow> splaytree_splay g h t i;
          nt \<leftarrow> load h t;
          Some (h, t, compare i (n_key nt) = 0) }
        else Some (h, t, False));
     if found then Some (h, t)
     else if m = Null then None
     else do {
       let h = h(m \<mapsto> g);
       h \<leftarrow> (if t = Null
            then do { h \<leftarrow> set_right h m Null; set_left h m Null }
            else do {
              nt \<leftarrow> load h t;
              if compare i (n_key nt) <s 0 then do {
                h \<leftarrow> set_left h m (n_left nt);
                h \<leftarrow> set_right h m t;
                h \<leftarrow> set_left h t Null;
                nt \<leftarrow> load h t;
                sr \<leftarrow> node_size h (n_right nt);
                set_size h t (1 + sr) }
              else do {
                h \<leftarrow> set_right h m (n_right nt);
                h \<leftarrow> set_left h m t;
                h \<leftarrow> set_right h t Null;
                nt \<leftarrow> load h t;
                sl \<leftarrow> node_size h (n_left nt);
                set_size h t (1 + sl) } });
       h \<leftarrow> set_key h m i;
       h \<leftarrow> set_data h m dat;
       nm \<leftarrow> load h m;
       sl \<leftarrow> node_size h (n_left nm);
       sr \<leftarrow> node_size h (n_right nm);
       h \<leftarrow> set_size h m (1 + sl + sr);
       Some (h, m) } }"

definition splaytree_delete ::
    "'d tree_node \<Rightarrow> 'd heap \<Rightarrow> addr \<Rightarrow> c_int \<Rightarrow> ('d heap \<times> addr) option" where
  "splaytree_delete g h t i =
     (if t = Null then Some (h, Null)
      else do {
        nt \<leftarrow> load h t;
        let tsize = n_size nt;
        (h, t) \<leftarrow> splaytree_splay g h t i;
        nt \<leftarrow> load h t;
        if compare i (n_key nt) = 0 then do {
          (h, x) \<leftarrow>
            (if n_left nt = Null then Some (h, n_right nt)
             else do {
               (h, x) \<leftarrow> splaytree_splay g h (n_left nt) i;
               nt \<leftarrow> load h t;
               h \<leftarrow> set_right h x (n_right nt);
               Some (h, x) });
          h \<leftarrow> free_node h t;
          h \<leftarrow> (if x \<noteq> Null then set_size h x (tsize - 1) else Some h);
          Some (h, x) }
        else Some (h, t) })"

section \<open>Trees in the heap\<close>

fun root :: "(addr, 'd) stree \<Rightarrow> addr" where
  "root Leaf = Null"
| "root (Node l c r) = fst c"

fun tree_at :: "'d heap \<Rightarrow> (addr, 'd) stree \<Rightarrow> bool" where
  "tree_at h Leaf = True"
| "tree_at h (Node l (p, k, d) r) =
     (h p = Some \<lparr>n_left = root l, n_right = root r, n_key = k,
                  n_size = word_of_nat (size l + size r + 1), n_data = d\<rparr>
      \<and> tree_at h l \<and> tree_at h r)"

definition taddrs :: "(addr, 'd) stree \<Rightarrow> addr list" where
  "taddrs t = map fst (inorder t)"

text \<open>A heap holds a tree: its nodes are there, at distinct addresses of dynamic memory.\<close>

definition separate :: "addr list \<Rightarrow> bool" where
  "separate as \<longleftrightarrow> distinct as \<and> Null \<notin> set as \<and> Local_N \<notin> set as"

definition holds_tree :: "'d heap \<Rightarrow> (addr, 'd) stree \<Rightarrow> bool" where
  "holds_tree h t \<longleftrightarrow> tree_at h t \<and> separate (taddrs t)"

lemmas heap_op_defs [heap_simps] =
  load_def set_left_def set_right_def set_size_def set_key_def set_data_def free_node_def

lemma taddrs_simps [simp]:
  "taddrs Leaf = []"
  "taddrs (Node l c r) = taddrs l @ fst c # taddrs r"
  by (simp_all add: taddrs_def)

lemma root_in_taddrs: "t \<noteq> Leaf \<Longrightarrow> root t \<in> set (taddrs t)"
  by (cases t) auto

lemma root_Null_iff: "Null \<notin> set (taddrs t) \<Longrightarrow> root t = Null \<longleftrightarrow> t = Leaf"
  using root_in_taddrs by (cases t) auto

lemma tree_at_cong:
  "(\<And>a. a \<in> set (taddrs t) \<Longrightarrow> h' a = h a) \<Longrightarrow> tree_at h' t = tree_at h t"
proof (induction t)
  case (Node l c r)
  obtain p k d where "c = (p, k, d)" by (cases c)
  with Node show ?case by simp
qed simp

lemma tree_at_upd [simp]: "p \<notin> set (taddrs t) \<Longrightarrow> tree_at (h(p := y)) t = tree_at h t"
  by (rule tree_at_cong) auto

lemma node_size_tree:
  "tree_at h t \<Longrightarrow> Null \<notin> set (taddrs t) \<Longrightarrow> node_size h (root t) = Some (word_of_nat (size t))"
  by (cases "(h, t)" rule: tree_at.cases) (auto simp: node_size_def load_def)

section \<open>The spines under construction\<close>

text \<open>
  The left and the right tree under construction are mirror images. With \<open>d = True\<close> the
  following is about the left tree, whose open end is at the right, with \<open>d = False\<close> about the
  right tree: \<open>far\<close> is the pointer along the spine, \<open>near\<close> the finished subtree.
\<close>

definition far :: "bool \<Rightarrow> 'd tree_node \<Rightarrow> addr" where
  "far d n = (if d then n_right n else n_left n)"

definition near :: "bool \<Rightarrow> 'd tree_node \<Rightarrow> addr" where
  "near d n = (if d then n_left n else n_right n)"

definition upd_far :: "bool \<Rightarrow> 'd tree_node \<Rightarrow> addr \<Rightarrow> 'd tree_node" where
  "upd_far d n v = (if d then n\<lparr>n_right := v\<rparr> else n\<lparr>n_left := v\<rparr>)"

definition set_far :: "bool \<Rightarrow> 'd heap \<Rightarrow> addr \<Rightarrow> addr \<Rightarrow> 'd heap option" where
  "set_far d h p v = (if d then set_right h p v else set_left h p v)"

definition tnode :: "bool \<Rightarrow> ('p, 'd) stree \<Rightarrow> ('p, 'd) cell \<Rightarrow> ('p, 'd) stree \<Rightarrow> ('p, 'd) stree" where
  "tnode d x c y = (if d then Node x c y else Node y c x)"

definition build :: "bool \<Rightarrow> ('p, 'd) frames \<Rightarrow> ('p, 'd) stree \<Rightarrow> ('p, 'd) stree" where
  "build d fs x = (if d then build_left fs x else build_right fs x)"

definition faddrs :: "(addr, 'd) frames \<Rightarrow> addr list" where
  "faddrs fs = concat (map (\<lambda>(c, t). fst c # taddrs t) fs)"

definition fsize :: "('p, 'd) frames \<Rightarrow> nat" where
  "fsize fs = sum_list (map (\<lambda>(c, t). Suc (size t)) fs)"

definition cptr :: "(addr, 'd) frames \<Rightarrow> addr" where
  "cptr fs = (if fs = [] then Local_N else fst (fst (last fs)))"

text \<open>
  \<open>seg d h q fs e z\<close>: from pointer \<open>q\<close> the frames \<open>fs\<close> follow one another, up to the pointer
  \<open>e\<close>. With \<open>z = Some n\<close> the size fields are also right for a spine that is continued by a
  tree of \<open>n\<close> nodes.
\<close>

fun seg :: "bool \<Rightarrow> 'd heap \<Rightarrow> addr \<Rightarrow> (addr, 'd) frames \<Rightarrow> addr \<Rightarrow> nat option \<Rightarrow> bool" where
  "seg d h q [] e z = (q = e)"
| "seg d h q (((p, k, dat), t) # fs) e z =
     (q = p \<and> tree_at h t \<and>
      (\<exists>m. h p = Some m \<and> near d m = root t \<and> n_key m = k \<and> n_data m = dat \<and>
           (\<forall>n. z = Some n \<longrightarrow> n_size m = word_of_nat (Suc (size t) + fsize fs + n)) \<and>
           seg d h (far d m) fs e z))"

definition chain :: "bool \<Rightarrow> 'd heap \<Rightarrow> (addr, 'd) frames \<Rightarrow> addr \<Rightarrow> nat option \<Rightarrow> bool" where
  "chain d h fs e z \<longleftrightarrow> (\<exists>n0. h Local_N = Some n0 \<and> seg d h (far d n0) fs e z)"

lemma dir_simps [simp]:
  "far d (upd_far d n v) = v" "near d (upd_far d n v) = near d n"
  "far d (upd_far (\<not> d) n v) = far d n"
  "n_key (upd_far d n v) = n_key n" "n_size (upd_far d n v) = n_size n"
  "n_data (upd_far d n v) = n_data n"
  "far d (n\<lparr>n_size := z\<rparr>) = far d n" "near d (n\<lparr>n_size := z\<rparr>) = near d n"
  "near (\<not> d) n = far d n" "far (\<not> d) n = near d n"
  by (auto simp: far_def near_def upd_far_def)

lemma far_near_cases:
  "n_left n = (if d then near d n else far d n)" "n_right n = (if d then far d n else near d n)"
  by (auto simp: far_def near_def)

lemma faddrs_simps [simp]:
  "faddrs [] = []" "faddrs ((c, t) # fs) = fst c # taddrs t @ faddrs fs"
  "faddrs (fs @ gs) = faddrs fs @ faddrs gs"
  by (simp_all add: faddrs_def)

lemma fsize_simps [simp]:
  "fsize [] = 0" "fsize ((c, t) # fs) = Suc (size t) + fsize fs" "fsize (fs @ gs) = fsize fs + fsize gs"
  by (simp_all add: fsize_def)

lemma cptr_simps [simp]: "cptr [] = Local_N" "cptr (fs @ [(c, t)]) = fst c"
  "fs \<noteq> [] \<Longrightarrow> cptr (f # fs) = cptr fs" "cptr [(c, t)] = fst c"
  by (simp_all add: cptr_def)

lemma cptr_in: "fs \<noteq> [] \<Longrightarrow> cptr fs \<in> set (faddrs fs)"
  by (induction fs rule: rev_induct) auto

lemma cptr_place: "fs = [] \<and> cptr fs = Local_N \<or> cptr fs \<in> set (faddrs fs)"
  using cptr_in [of fs] by (cases "fs = []") auto

lemma cptr_not_Null: "separate (faddrs fs) \<Longrightarrow> cptr fs \<noteq> Null"
  using cptr_in [of fs] by (cases "fs = []") (auto simp: separate_def)

lemma seg_cong:
  "(\<And>a. a \<in> set (faddrs fs) \<Longrightarrow> h' a = h a) \<Longrightarrow> seg d h' q fs e z = seg d h q fs e z"
proof (induction fs arbitrary: q)
  case (Cons f fs)
  obtain p k dat t where f: "f = ((p, k, dat), t)" by (metis surj_pair)
  have "tree_at h' t = tree_at h t" using Cons.prems f by (intro tree_at_cong) simp
  with Cons f show ?case by simp
qed simp

lemma seg_upd [simp]: "p \<notin> set (faddrs fs) \<Longrightarrow> seg d (h(p := y)) q fs e z = seg d h q fs e z"
  by (rule seg_cong) auto

lemma set_far_Some:
  "h p = Some m \<Longrightarrow> p \<noteq> Null \<Longrightarrow> set_far d h p v = Some (h(p \<mapsto> upd_far d m v))"
  by (simp add: set_far_def upd_far_def heap_simps)

lemma seg_set_last:
  assumes "fs \<noteq> []" and "separate (faddrs fs)" and "seg d h q fs e z"
  shows "\<exists>m. h (cptr fs) = Some m \<and> seg d (h(cptr fs \<mapsto> upd_far d m x)) q fs x z"
  using assms
proof (induction fs arbitrary: q)
  case (Cons f fs)
  obtain p k dat t where f: "f = ((p, k, dat), t)" by (metis surj_pair)
  show ?case
  proof (cases "fs = []")
    case True
    moreover have "p \<notin> set (taddrs t)" using Cons.prems(2) f by (auto simp: separate_def)
    ultimately show ?thesis
      using Cons.prems f by (clarsimp simp del: fun_upd_apply) (simp add: fun_upd_same)
  next
    case False
    let ?h = "\<lambda>m. h(cptr fs \<mapsto> upd_far d m x)"
    have sep: "separate (faddrs fs)" "cptr fs \<noteq> p" "cptr fs \<notin> set (taddrs t)"
      using Cons.prems(2) cptr_in [OF False] f by (auto simp: separate_def)
    obtain m0 where m0: "h p = Some m0" "seg d h (far d m0) fs e z"
      using Cons.prems(3) f by auto
    obtain m where m: "h (cptr fs) = Some m" "seg d (?h m) (far d m0) fs x z"
      using Cons.IH [OF False sep(1) m0(2)] by blast
    have "tree_at (?h m) t = tree_at h t" using sep by (intro tree_at_cong) auto
    then show ?thesis
      using Cons.prems(3) f m m0 sep(2) False
      by (clarsimp simp del: fun_upd_apply) (simp add: fun_upd_other)
  qed
qed simp

lemma chain_set_far:
  assumes "chain d h fs e z" and "separate (faddrs fs)"
  shows "\<exists>m. h (cptr fs) = Some m \<and> set_far d h (cptr fs) x = Some (h(cptr fs \<mapsto> upd_far d m x)) \<and>
             chain d (h(cptr fs \<mapsto> upd_far d m x)) fs x z"
proof (cases "fs = []")
  case True
  then show ?thesis using assms by (auto simp: chain_def set_far_Some)
next
  case False
  obtain n0 where n0: "h Local_N = Some n0" "seg d h (far d n0) fs e z"
    using assms(1) by (auto simp: chain_def)
  have "cptr fs \<noteq> Null" "cptr fs \<noteq> Local_N"
    using cptr_in [OF False] assms(2) by (auto simp: separate_def)
  then show ?thesis
    using seg_set_last [OF False assms(2) n0(2), of x] n0(1) by (auto simp: chain_def set_far_Some)
qed

lemma chain_frame:
  assumes "chain d h fs e z" and "\<And>a. a \<in> set (faddrs fs) \<Longrightarrow> h' a = h a"
    and "\<And>n. h Local_N = Some n \<Longrightarrow> \<exists>n'. h' Local_N = Some n' \<and> far d n' = far d n"
  shows "chain d h' fs e z"
  using assms seg_cong [of fs h' h d _ e z] by (force simp: chain_def)

lemma chain_other:
  assumes "chain d h gs e z" and "h (cptr fs) = Some m"
    and "separate (faddrs gs)" and "set (faddrs fs) \<inter> set (faddrs gs) = {}"
    and "fs \<noteq> [] \<longrightarrow> cptr fs \<noteq> Local_N"
  shows "chain d (h(cptr fs \<mapsto> upd_far (\<not> d) m x)) gs e z"
proof (rule chain_frame [OF assms(1)])
  show "(h(cptr fs \<mapsto> upd_far (\<not> d) m x)) a = h a" if "a \<in> set (faddrs gs)" for a
    using that assms(3,4) cptr_in [of fs] by (cases "fs = []") (auto simp: separate_def)
  show "\<exists>n'. (h(cptr fs \<mapsto> upd_far (\<not> d) m x)) Local_N = Some n' \<and> far d n' = far d n"
    if "h Local_N = Some n" for n
    using that assms(2,5) by (cases "fs = []") auto
qed

section \<open>Rotations and links\<close>

lemma separate_mset: "mset as = mset bs \<Longrightarrow> separate as \<longleftrightarrow> separate bs"
  by (metis separate_def mset_eq_imp_distinct_iff mset_eq_setD)

lemma separate_append [simp]:
  "separate (as @ bs) \<longleftrightarrow> separate as \<and> separate bs \<and> set as \<inter> set bs = {}"
  by (auto simp: separate_def)

lemma separate_Cons [simp]:
  "separate (a # as) \<longleftrightarrow> a \<noteq> Null \<and> a \<noteq> Local_N \<and> a \<notin> set as \<and> separate as"
  by (auto simp: separate_def)

lemma separate_Nil [simp]: "separate []"
  by (simp add: separate_def)

lemma separate_Null: "separate as \<Longrightarrow> Null \<notin> set as"
  by (simp add: separate_def)

lemma tree_at_Node:
  "tree_at h (Node l c r) \<longleftrightarrow>
     h (fst c) = Some \<lparr>n_left = root l, n_right = root r, n_key = ckey c,
                       n_size = word_of_nat (size l + size r + 1), n_data = snd (snd c)\<rparr>
     \<and> tree_at h l \<and> tree_at h r"
  by (cases c) simp

lemma node_size_upd [simp]:
  "tree_at h t \<Longrightarrow> separate (taddrs t) \<Longrightarrow> p \<notin> set (taddrs t) \<Longrightarrow>
   node_size (h(p := y)) (root t) = node_size h (root t)"
  by (simp add: node_size_tree separate_Null)

text \<open>
  While the loop runs, the size field of the current root may be stale: a rotation corrects
  only the node that moves down.
\<close>

definition root_at :: "'d heap \<Rightarrow> (addr, 'd) stree \<Rightarrow> c_int \<Rightarrow> bool" where
  "root_at h t z = (case t of Leaf \<Rightarrow> False | Node l c r \<Rightarrow>
     tree_at h l \<and> tree_at h r \<and>
     h (fst c) = Some \<lparr>n_left = root l, n_right = root r, n_key = ckey c,
                        n_size = z, n_data = snd (snd c)\<rparr>)"

definition top_at :: "'d heap \<Rightarrow> (addr, 'd) stree \<Rightarrow> bool" where
  "top_at h t \<longleftrightarrow> (\<exists>z. root_at h t z)"

lemmas top_at_unfold = top_at_def root_at_def

lemma tree_node_ex:
  "\<exists>z. m = \<lparr>n_left = n_left m, n_right = n_right m, n_key = n_key m, n_size = z, n_data = n_data m\<rparr>"
  by (rule exI [of _ "n_size m"]) simp

lemma tree_at_top: "tree_at h t \<Longrightarrow> t \<noteq> Leaf \<Longrightarrow> top_at h t"
  by (cases t) (auto simp: top_at_unfold tree_at_Node)

lemma top_at_tnode:
  "top_at h (tnode d x c y) \<longleftrightarrow> tree_at h x \<and> tree_at h y \<and>
     (\<exists>m. h (fst c) = Some m \<and> near d m = root x \<and> far d m = root y \<and> n_key m = ckey c \<and>
          n_data m = snd (snd c))"
proof -
  have "(\<exists>z. v = Some \<lparr>n_left = a, n_right = b, n_key = k, n_size = z, n_data = e\<rparr>) \<longleftrightarrow>
        (\<exists>m. v = Some m \<and> n_left m = a \<and> n_right m = b \<and> n_key m = k \<and> n_data m = e)"
    for v and a b and k and e :: 'a
    by (auto intro: tree_node_ex)
  then show ?thesis
    by (cases d) (auto simp: top_at_unfold tnode_def near_def far_def)
qed

lemma root_at_cong:
  assumes "\<And>a. a \<in> set (taddrs t) \<Longrightarrow> h' a = h a"
  shows "root_at h' t z = root_at h t z"
proof (cases t)
  case (Node l c r)
  then have "tree_at h' l = tree_at h l" "tree_at h' r = tree_at h r" "h' (fst c) = h (fst c)"
    using assms by (auto intro!: tree_at_cong)
  with Node show ?thesis by (simp add: root_at_def)
qed (simp add: root_at_def)

lemma root_at_upd [simp]: "p \<notin> set (taddrs t) \<Longrightarrow> root_at (h(p := y)) t z = root_at h t z"
  by (rule root_at_cong) auto

lemma top_at_upd [simp]: "p \<notin> set (taddrs t) \<Longrightarrow> top_at (h(p := y)) t = top_at h t"
  by (simp add: top_at_def)

lemma tnode_simps [simp]:
  "set (taddrs (tnode d x c y)) = insert (fst c) (set (taddrs x) \<union> set (taddrs y))"
  "mset (taddrs (tnode d x c y)) = add_mset (fst c) (mset (taddrs x) + mset (taddrs y))"
  "size (tnode d x c y) = Suc (size x + size y)" "root (tnode d x c y) = fst c"
  "tnode d x c y \<noteq> Leaf" "tnode d x c y = tnode d x' c' y' \<longleftrightarrow> x = x' \<and> c = c' \<and> y = y'"
  "separate (taddrs (tnode d x c y)) \<longleftrightarrow>
     fst c \<noteq> Null \<and> fst c \<noteq> Local_N \<and> fst c \<notin> set (taddrs x) \<and> fst c \<notin> set (taddrs y) \<and>
     separate (taddrs x) \<and> separate (taddrs y) \<and> set (taddrs x) \<inter> set (taddrs y) = {}"
  by (auto simp: tnode_def)

definition rotate :: "bool \<Rightarrow> 'd heap \<Rightarrow> addr \<Rightarrow> ('d heap \<times> addr) option" where
  "rotate d h t = (if d then rotate_left h t else rotate_right h t)"

definition link :: "bool \<Rightarrow> 'd loop_state \<Rightarrow> 'd loop_state option" where
  "link d s = (if d then link_left s else link_right s)"

lemma rotate_ok:
  assumes "top_at h (tnode d x c (tnode d y b z))" and "separate (taddrs (tnode d x c (tnode d y b z)))"
  shows "\<exists>h'. rotate d h (fst c) = Some (h', fst b) \<and> top_at h' (tnode d (tnode d x c y) b z) \<and>
              (\<forall>a. a \<noteq> fst c \<and> a \<noteq> fst b \<longrightarrow> h' a = h a)"
proof -
  have sizes: "node_size h (root x) = Some (word_of_nat (size x))"
    "node_size h (root y) = Some (word_of_nat (size y))"
    "node_size h (root z) = Some (word_of_nat (size z))"
    using assms by (auto intro!: node_size_tree simp: top_at_unfold tnode_def tree_at_Node separate_Null
        split: if_splits)
  show ?thesis
    using assms sizes
    by (cases d) (auto simp: rotate_def rotate_left_def rotate_right_def resize_def heap_simps
        top_at_unfold tnode_def tree_at_Node Let_def algebra_simps)
qed

lemma seg_append: "seg d h q (fs @ gs) e None \<longleftrightarrow> (\<exists>x. seg d h q fs x None \<and> seg d h x gs e None)"
proof (induction fs arbitrary: q)
  case (Cons f fs)
  obtain p k dat t where "f = ((p, k, dat), t)" by (metis surj_pair)
  with Cons show ?case by auto
qed simp

lemma chain_snoc:
  assumes "chain d h fs (fst c) None" and "tree_at h x" and "h (fst c) = Some m"
    and "near d m = root x" and "n_key m = ckey c" and "n_data m = snd (snd c)"
  shows "chain d h (fs @ [(c, x)]) (far d m) None"
  using assms by (cases c) (auto simp: chain_def seg_append)

section \<open>The loop follows the descent\<close>

text \<open>
  \<open>as\<close> lists the addresses of the tree, \<open>h0\<close> is the heap at the start: outside \<open>as\<close> and the
  stack slot nothing changes.
\<close>

definition linv :: "addr list \<Rightarrow> 'd heap \<Rightarrow> 'd loop_state \<Rightarrow> (addr, 'd) stree \<Rightarrow>
    (addr, 'd) frames \<Rightarrow> (addr, 'd) frames \<Rightarrow> bool" where
  "linv as h0 s t ls rs \<longleftrightarrow> (case s of (h, p, l, r, l_size, r_size) \<Rightarrow>
     p = root t \<and> l = cptr ls \<and> r = cptr rs \<and>
     l_size = word_of_nat (fsize ls) \<and> r_size = word_of_nat (fsize rs) \<and>
     top_at h t \<and> (\<exists>e. chain True h ls e None) \<and> (\<exists>e. chain False h rs e None) \<and>
     mset (faddrs ls @ taddrs t @ faddrs rs) = mset as \<and>
     (\<forall>a. a \<notin> set as \<longrightarrow> a \<noteq> Local_N \<longrightarrow> h a = h0 a))"

lemma linv_separate:
  assumes "linv as h0 s t ls rs" and "separate as"
  shows "separate (faddrs ls @ taddrs t @ faddrs rs)" "set (faddrs ls @ taddrs t @ faddrs rs) = set as"
proof -
  have "mset (faddrs ls @ taddrs t @ faddrs rs) = mset as"
    using assms(1) unfolding linv_def by (cases s) simp
  then show "separate (faddrs ls @ taddrs t @ faddrs rs)"
    "set (faddrs ls @ taddrs t @ faddrs rs) = set as"
    using assms(2) separate_mset mset_eq_setD by blast+
qed

lemma rotate_linv:
  assumes inv: "linv as h0 (h, p, l, r, l_size, r_size) (tnode d x c (tnode d y b z)) ls rs"
    and sep: "separate as"
  shows "\<exists>h'. rotate d h p = Some (h', fst b) \<and>
    linv as h0 (h', fst b, l, r, l_size, r_size) (tnode d (tnode d x c y) b z) ls rs"
proof -
  let ?t = "tnode d x c (tnode d y b z)"
  note S = linv_separate [OF inv sep]
  have top: "top_at h ?t" and p: "p = fst c" using inv by (auto simp: linv_def)
  obtain h' where h': "rotate d h (fst c) = Some (h', fst b)" "top_at h' (tnode d (tnode d x c y) b z)"
      "\<And>a. a \<noteq> fst c \<Longrightarrow> a \<noteq> fst b \<Longrightarrow> h' a = h a"
    using rotate_ok [OF top] S(1) by auto
  have eq: "h' a = h a" if "a \<notin> set (taddrs ?t)" for a using that h'(3) by simp
  have loc: "Local_N \<notin> set (taddrs ?t)" using S(1) by (simp add: separate_def)
  have chains: "chain d' h' fs e None" if "chain d' h fs e None" "set (faddrs fs) \<inter> set (taddrs ?t) = {}"
    for d' fs e
    by (rule chain_frame [OF that(1)]) (use that eq loc in \<open>auto simp: disjoint_iff\<close>)
  obtain e1 e2 where "chain True h ls e1 None" "chain False h rs e2 None"
    using inv by (auto simp: linv_def)
  then have "chain True h' ls e1 None" "chain False h' rs e2 None"
    using chains [of True ls e1] chains [of False rs e2] S(1) by (auto simp: disjoint_iff)
  moreover have "h' a = h0 a" if "a \<notin> set as" "a \<noteq> Local_N" for a
    using that eq [of a] inv S(2) by (auto simp: linv_def)
  moreover have "mset (taddrs (tnode d (tnode d x c y) b z)) = mset (taddrs ?t)"
    by (simp add: add_mset_commute ac_simps)
  ultimately show ?thesis
    using inv h'(1,2) p by (auto simp: linv_def simp del: tnode_simps(2))
qed

lemma link_linv:
  assumes inv: "linv as h0 (h, p, l, r, l_size, r_size) (tnode d x c y) ls rs"
    and y: "y \<noteq> Leaf" and sep: "separate as"
  shows "\<exists>s'. link d (h, p, l, r, l_size, r_size) = Some s' \<and>
    linv as h0 s' y (if d then ls @ [(c, x)] else ls) (if d then rs else rs @ [(c, x)])"
proof -
  define fs where "fs = (if d then ls else rs)"
  define gs where "gs = (if d then rs else ls)"
  let ?t = "tnode d x c y"
  note S = linv_separate [OF inv sep]
  have p: "p = fst c" using inv by (simp add: linv_def)
  obtain e e' where ch: "chain d h fs e None" "chain (\<not> d) h gs e' None"
    using inv by (cases d) (auto simp: linv_def fs_def gs_def)
  have "separate (faddrs fs)" using S(1) by (simp add: fs_def)
  from chain_set_far [OF ch(1) this] obtain m where m: "h (cptr fs) = Some m"
      "set_far d h (cptr fs) (fst c) = Some (h(cptr fs \<mapsto> upd_far d m (fst c)))"
      "chain d (h(cptr fs \<mapsto> upd_far d m (fst c))) fs (fst c) None"
    by blast
  let ?h = "h(cptr fs \<mapsto> upd_far d m (fst c))"
  have loc: "Local_N \<notin> set as" using sep by (simp add: separate_def)
  have sub: "a \<notin> set (taddrs ?t) \<and> a \<in> set as" if "a \<in> set (faddrs fs)" for a
    using that S by (cases d) (auto simp: disjoint_iff fs_def)
  have "Local_N \<notin> set (taddrs ?t)" using S(2) loc by auto
  then have cp: "cptr fs \<notin> set (taddrs ?t)" "fs \<noteq> [] \<longrightarrow> cptr fs \<noteq> Local_N"
      "cptr fs \<in> insert Local_N (set as)"
    using cptr_place [of fs] sub [of "cptr fs"] loc by auto
  have ch': "chain (\<not> d) ?h gs e' None"
  proof -
    have "separate (faddrs gs)" "set (faddrs fs) \<inter> set (faddrs gs) = {}"
      using S(1) by (cases d; auto simp: fs_def gs_def)+
    then show ?thesis
      using chain_other [of "\<not> d" h gs e' None fs m "fst c"] ch(2) m(1) cp(2) by simp
  qed
  have "top_at ?h ?t" using inv cp(1) by (simp add: linv_def)
  then obtain n where n: "?h (fst c) = Some n" "near d n = root x" "far d n = root y"
      "n_key n = ckey c" "n_data n = snd (snd c)" and trees: "tree_at ?h x" "tree_at ?h y"
    by (auto simp: top_at_tnode)
  have "node_size ?h (root x) = Some (word_of_nat (size x))"
    using trees(1) S(1) by (intro node_size_tree) (auto simp: separate_def)
  then have "link d (h, p, l, r, l_size, r_size) = Some (?h, root y,
      if d then fst c else l, if d then r else fst c,
      if d then l_size + (1 + word_of_nat (size x)) else l_size,
      if d then r_size else r_size + (1 + word_of_nat (size x)))"
    using inv m(2) n S(1) p
    by (cases d) (auto simp: link_def link_left_def link_right_def set_far_def linv_def load_def
        far_def near_def fs_def simp del: fun_upd_apply)
  moreover have "chain d ?h (fs @ [(c, x)]) (root y) None"
    using chain_snoc [OF m(3) trees(1) n(1,2,4,5)] n(3) by (simp del: fun_upd_apply)
  moreover have "?h a = h0 a" if "a \<notin> set as" "a \<noteq> Local_N" for a
    using that cp(3) inv by (auto simp: linv_def)
  ultimately show ?thesis
    using inv ch' tree_at_top [OF trees(2) y]
    by (cases d) (auto simp: linv_def ac_simps fs_def gs_def simp del: fun_upd_apply)
qed

definition goes :: "bool \<Rightarrow> c_int \<Rightarrow> c_int \<Rightarrow> bool" where
  "goes d i k = (if d then 0 <s compare i k else compare i k <s 0)"

definition push_frame :: "bool \<Rightarrow> bool \<Rightarrow> ('p, 'd) cell \<times> ('p, 'd) stree \<Rightarrow> ('p, 'd) frames \<Rightarrow>
    ('p, 'd) frames" where
  "push_frame d d' f fs = (if d = d' then fs @ [f] else fs)"

lemma goes_excl: "goes d i k \<Longrightarrow> \<not> goes (\<not> d) i k"
  by (auto simp: goes_def word_sless_alt)

text \<open>The loop body on trees: what is left of the tree, the frames, and whether the loop goes on.\<close>

definition td_iter :: "c_int \<Rightarrow> ('p, 'd) stree \<Rightarrow> ('p, 'd) frames \<Rightarrow> ('p, 'd) frames \<Rightarrow>
    ('p, 'd) stree \<times> ('p, 'd) frames \<times> ('p, 'd) frames \<times> bool" where
  "td_iter i t ls rs = (case t of
     Leaf \<Rightarrow> (Leaf, ls, rs, False)
   | Node l c r \<Rightarrow>
       if compare i (ckey c) <s 0 then
         (case l of
            Leaf \<Rightarrow> (t, ls, rs, False)
          | Node ll b lr \<Rightarrow>
              if compare i (ckey b) <s 0 then
                (if ll = Leaf then (Node ll b (Node lr c r), ls, rs, False)
                 else (ll, ls, rs @ [(b, Node lr c r)], True))
              else (l, ls, rs @ [(c, r)], True))
       else if 0 <s compare i (ckey c) then
         (case r of
            Leaf \<Rightarrow> (t, ls, rs, False)
          | Node rl b rr \<Rightarrow>
              if 0 <s compare i (ckey b) then
                (if rr = Leaf then (Node (Node l c rl) b rr, ls, rs, False)
                 else (rr, ls @ [(b, Node l c rl)], rs, True))
              else (r, ls @ [(c, l)], rs, True))
       else (t, ls, rs, False))"

lemma td_unfold:
  "td i t ls rs = (case td_iter i t ls rs of (t', ls', rs', go_on) \<Rightarrow>
     if go_on then td i t' ls' rs' else (t', ls', rs'))"
proof (cases t)
  case (Node l c r)
  then show ?thesis by (subst Node, subst td.simps) (simp add: td_iter_def split: tree.split)
qed (simp add: td_iter_def)

lemma td_iter_smaller: "td_iter i t ls rs = (t', ls', rs', True) \<Longrightarrow> size t' < size t"
  by (auto simp: td_iter_def split: tree.splits if_splits)

lemma td_iter_dir:
  assumes "goes d i (ckey c)"
  shows "td_iter i (tnode d x c Leaf) ls rs = (tnode d x c Leaf, ls, rs, False)"
    "td_iter i (tnode d x c (tnode d y b z)) ls rs =
       (if goes d i (ckey b) then
          (if z = Leaf then (tnode d (tnode d x c y) b z, ls, rs, False)
           else (z, push_frame d True (b, tnode d x c y) ls, push_frame d False (b, tnode d x c y) rs, True))
        else (tnode d y b z, push_frame d True (c, x) ls, push_frame d False (c, x) rs, True))"
  using assms goes_excl [OF assms]
  by (cases d; simp add: goes_def tnode_def push_frame_def td_iter_def)+

lemma td_iter_here:
  assumes "\<And>d. \<not> goes d i (ckey c)"
  shows "td_iter i (Node l c r) ls rs = (Node l c r, ls, rs, False)"
  using assms [of True] assms [of False] by (simp add: goes_def td_iter_def)

lemma splay_iter_dir:
  assumes "load h p = Some nt" and "goes d i (n_key nt)"
  shows "splay_iter i (h, p, l, r, ls, rs) =
    (if far d nt = Null then Some ((h, p, l, r, ls, rs), False)
     else do {
       ny \<leftarrow> load h (far d nt);
       if goes d i (n_key ny) then do {
         (h, t) \<leftarrow> rotate d h p;
         nt \<leftarrow> load h t;
         if far d nt = Null then Some ((h, t, l, r, ls, rs), False)
         else do { s \<leftarrow> link d (h, t, l, r, ls, rs); Some (s, True) } }
       else do { s \<leftarrow> link d (h, p, l, r, ls, rs); Some (s, True) } })"
proof (cases d)
  case True
  then have d: "d = True" by simp
  show ?thesis
    using assms goes_excl [OF assms(2)] unfolding d goes_def far_def rotate_def link_def if_True
    by (simp add: splay_iter_def)
next
  case False
  then have d: "d = False" by simp
  show ?thesis
    using assms unfolding d goes_def far_def rotate_def link_def if_False by (simp add: splay_iter_def)
qed

lemma splay_iter_here:
  assumes "load h p = Some nt" and "\<And>d. \<not> goes d i (n_key nt)"
  shows "splay_iter i (h, p, l, r, ls, rs) = Some ((h, p, l, r, ls, rs), False)"
  using assms(1) assms(2) [of True] assms(2) [of False] by (simp add: splay_iter_def goes_def)

lemma link_linv_push:
  assumes "linv as h0 (h, p, l, r, l_size, r_size) (tnode d x c y) ls rs" and "y \<noteq> Leaf" and "separate as"
  shows "\<exists>s'. link d (h, p, l, r, l_size, r_size) = Some s' \<and>
    linv as h0 s' y (push_frame d True (c, x) ls) (push_frame d False (c, x) rs)"
  using link_linv [OF assms] by (cases d) (auto simp: push_frame_def)

lemma linv_load:
  assumes "linv as h0 (h, p, l, r, l_size, r_size) (tnode d x c y) ls rs" and "separate as"
  shows "\<exists>nt. load h p = Some nt \<and> n_key nt = ckey c \<and> far d nt = root y \<and>
    (y \<noteq> Leaf \<longrightarrow> root y \<noteq> Null) \<and>
    (\<forall>y1 b z. y = tnode d y1 b z \<longrightarrow> (\<exists>ny. load h (root y) = Some ny \<and> n_key ny = ckey b))"
proof -
  note S = linv_separate [OF assms]
  have "root y \<noteq> Null" if "y \<noteq> Leaf" using S(1) that root_Null_iff [of y] by (auto simp: separate_def)
  moreover have "\<exists>ny. load h (root y) = Some ny \<and> n_key ny = ckey b" if "y = tnode d y1 b z" for y1 b z
    using assms(1) that calculation by (cases d) (auto simp: linv_def top_at_unfold tnode_def tree_at_Node load_def)
  ultimately show ?thesis
    using assms(1) S(1) by (auto simp: linv_def top_at_tnode load_def)
qed

lemma tnode_cases: "t \<noteq> Leaf \<Longrightarrow> \<exists>x c y. t = tnode d x c y"
  by (cases t; cases d) (auto simp: tnode_def)

text \<open>One run of the body follows the body on trees.\<close>

lemma stree_cases:
  assumes "t \<noteq> Leaf"
  obtains (here) l c r where "t = Node l c r" and "\<And>d. \<not> goes d i (ckey c)"
  | (goes) d x c y where "t = tnode d x c y" and "goes d i (ckey c)"
proof -
  obtain l c r where t: "t = Node l c r" using assms by (cases t) auto
  then have "t = tnode True l c r" "t = tnode False r c l" by (simp_all add: tnode_def)
  with t that show thesis by metis
qed

lemma splay_iter_td:
  assumes "linv as h0 s t ls rs" and sep: "separate as" and it: "td_iter i t ls rs = (t', ls', rs', go_on)"
  shows "\<exists>s'. splay_iter i s = Some (s', go_on) \<and> linv as h0 s' t' ls' rs'"
proof -
  obtain h p l r lsz rsz where s: "s = (h, p, l, r, lsz, rsz)" by (cases s)
  have "t \<noteq> Leaf" using assms(1) by (auto simp: linv_def top_at_unfold s)
  then show ?thesis
  proof (cases rule: stree_cases [where i = i])
    case (here x c y)
    then have "t = tnode True x c y" by (simp add: tnode_def)
    from linv_load [OF assms(1) [unfolded s this] sep] obtain nt where "load h p = Some nt" "n_key nt = ckey c"
      by blast
    then show ?thesis
      using here splay_iter_here [of h p nt i] td_iter_here [OF here(2)] it assms(1) by (simp add: s)
  next
    case (goes d x c y)
    note inv = assms(1) [unfolded s goes(1)] and go = goes(2)
    obtain nt where nt: "load h p = Some nt" "n_key nt = ckey c" "far d nt = root y"
        "y \<noteq> Leaf \<longrightarrow> root y \<noteq> Null"
      using linv_load [OF inv sep] by blast
    note iter = splay_iter_dir [OF nt(1), of d i l r lsz rsz]
    show ?thesis
    proof (cases "y = Leaf")
      case True
      then show ?thesis using it assms(1) iter go nt td_iter_dir(1) [OF go] by (simp add: s goes(1))
    next
      case False
      then obtain y1 b z where y: "y = tnode d y1 b z" using tnode_cases by blast
      obtain ny where ny: "load h (root y) = Some ny" "n_key ny = ckey b"
        using linv_load [OF inv sep] y by blast
      obtain h' where h': "rotate d h p = Some (h', fst b)"
          and inv': "linv as h0 (h', fst b, l, r, lsz, rsz) (tnode d (tnode d x c y1) b z) ls rs"
        using rotate_linv [OF inv [unfolded y] sep] by blast
      obtain nt' where nt': "load h' (fst b) = Some nt'" "far d nt' = root z" "z \<noteq> Leaf \<longrightarrow> root z \<noteq> Null"
        using linv_load [OF inv' sep] by blast
      note step = it [unfolded goes(1) y td_iter_dir(2) [OF go]]
      consider "\<not> goes d i (ckey b)" | "goes d i (ckey b)" "z = Leaf" | "goes d i (ckey b)" "z \<noteq> Leaf" by blast
      then show ?thesis
      proof cases
        case 1
        then show ?thesis using link_linv_push [OF inv False sep] step iter go nt ny False by (auto simp: s y)
      next
        case 2
        then show ?thesis using inv' step iter go nt ny h' nt' False by (auto simp: s)
      next
        case 3
        then show ?thesis
          using link_linv_push [OF inv' 3(2) sep] step iter go nt ny h' nt' False by (auto simp: s)
      qed
    qed
  qed
qed

text \<open>The loop returns, and its result represents the result of the functional descent.\<close>

lemma splay_loop_td:
  assumes "linv as h0 s t ls rs" and sep: "separate as"
  shows "\<exists>s'. splay_loop i s = Some s' \<and> (case td i t ls rs of (t', ls', rs') \<Rightarrow> linv as h0 s' t' ls' rs')"
  using assms(1)
proof (induction t arbitrary: s ls rs rule: measure_induct_rule [of size])
  case (less t)
  obtain t1 ls1 rs1 go_on where it: "td_iter i t ls rs = (t1, ls1, rs1, go_on)" by (metis prod_cases4)
  then obtain s1 where s1: "splay_iter i s = Some (s1, go_on)" "linv as h0 s1 t1 ls1 rs1"
    using splay_iter_td [OF less.prems sep] by blast
  show ?case
  proof (cases go_on)
    case True
    then show ?thesis
      using less.IH [OF td_iter_smaller s1(2), of i ls rs] it s1(1)
      by (simp add: splay_loop.simps [of i s] td_unfold [of i t])
  next
    case False
    then show ?thesis using it s1 by (simp add: splay_loop.simps [of i s] td_unfold [of i t])
  qed
qed

section \<open>Correcting the sizes and assembling\<close>

definition fix_sizes :: "bool \<Rightarrow> 'd heap \<Rightarrow> addr \<Rightarrow> c_int \<Rightarrow> 'd heap option" where
  "fix_sizes d h y n = (if d then fix_left_sizes h y n else fix_right_sizes h y n)"

lemma fix_sizes_unfold:
  "fix_sizes d h y n =
     (if y = Null then Some h
      else do {
        h \<leftarrow> set_size h y n;
        ny \<leftarrow> load h y;
        s \<leftarrow> node_size h (near d ny);
        fix_sizes d h (far d ny) (n - (1 + s)) })"
  unfolding fix_sizes_def far_def near_def
  by (cases d) (subst fix_left_sizes.simps fix_right_sizes.simps, simp)+

lemma fix_seg:
  assumes "seg d h q fs Null None" and "separate (faddrs fs)"
  shows "\<exists>h'. fix_sizes d h q (word_of_nat (fsize fs + n)) = Some h' \<and> seg d h' q fs Null (Some n) \<and>
              (\<forall>a. a \<notin> set (faddrs fs) \<longrightarrow> h' a = h a)"
  using assms
proof (induction fs arbitrary: h q)
  case Nil
  then show ?case by (subst fix_sizes_unfold) simp
next
  case (Cons f fs)
  obtain p k dat t where f: "f = ((p, k, dat), t)" by (metis surj_pair)
  obtain m where m: "h p = Some m" "near d m = root t" "n_key m = k" "n_data m = dat" "tree_at h t"
      "seg d h (far d m) fs Null None" "q = p"
    using Cons.prems(1) f by auto
  let ?z = "word_of_nat (Suc (size t) + fsize fs + n) :: c_int"
  let ?h = "h(p \<mapsto> m\<lparr>n_size := ?z\<rparr>)"
  have S: "p \<notin> set (taddrs t)" "p \<notin> set (faddrs fs)" "p \<noteq> Null" "separate (faddrs fs)"
      "separate (taddrs t)" "set (taddrs t) \<inter> set (faddrs fs) = {}"
    using Cons.prems(2) f by auto
  have "seg d ?h (far d m) fs Null None" using m(6) S(2) by simp
  then obtain h' where h': "fix_sizes d ?h (far d m) (word_of_nat (fsize fs + n)) = Some h'"
      "seg d h' (far d m) fs Null (Some n)" "\<And>a. a \<notin> set (faddrs fs) \<Longrightarrow> h' a = ?h a"
    using Cons.IH S(4) by blast
  have "node_size ?h (root t) = Some (word_of_nat (size t))"
    using m(5) S by (intro node_size_tree) (auto simp: separate_Null)
  then have "fix_sizes d h q (word_of_nat (fsize (f # fs) + n)) = Some h'"
    using m S(3) h'(1) by (subst fix_sizes_unfold) (simp add: f heap_simps)
  moreover have "tree_at h' t = tree_at h t"
    using S(1,6) h'(3) by (intro tree_at_cong) (auto simp: disjoint_iff)
  moreover have "h' p = Some (m\<lparr>n_size := ?z\<rparr>)" using h'(3) S(2) by simp
  ultimately show ?case
    using m h'(2,3) by (auto simp: f)
qed

lemma tree_at_tnode:
  "tree_at h (tnode d x c y) \<longleftrightarrow> tree_at h x \<and> tree_at h y \<and>
     (\<exists>m. h (fst c) = Some m \<and> near d m = root x \<and> far d m = root y \<and> n_key m = ckey c \<and>
          n_data m = snd (snd c) \<and> n_size m = word_of_nat (size x + size y + 1))"
proof -
  have *: "v = Some \<lparr>n_left = a, n_right = b, n_key = k, n_size = z, n_data = e\<rparr> \<longleftrightarrow>
        (\<exists>m. v = Some m \<and> n_left m = a \<and> n_right m = b \<and> n_key m = k \<and> n_data m = e \<and> n_size m = z)"
    for v and a b and k and e :: 'a and z
    by auto
  show ?thesis
    by (cases d) (auto simp: tnode_def tree_at_Node near_def far_def * simp del: of_nat_add
        simp: add.commute [of "size y" "size x"])
qed

lemma build_simps_dir [simp]:
  "build d [] x = x" "build d ((c, t) # fs) x = tnode d t c (build d fs x)"
  by (simp_all add: build_def tnode_def)

lemma size_build [simp]: "size (build d fs x) = fsize fs + size x"
  by (induction fs) (auto simp: tnode_def)

lemma seg_build:
  "seg d h q fs (root x) (Some (size x)) \<Longrightarrow> tree_at h x \<Longrightarrow>
   tree_at h (build d fs x) \<and> root (build d fs x) = q"
proof (induction fs arbitrary: q)
  case (Cons f fs)
  obtain p k dat t where "f = ((p, k, dat), t)" by (metis surj_pair)
  with Cons show ?case by (auto simp: tree_at_tnode)
qed simp

text \<open>The state of the final phase: both spines, with their open ends and sizes, and the root.\<close>

definition pinv :: "'d heap \<Rightarrow> (bool \<Rightarrow> (addr, 'd) frames) \<Rightarrow> (addr, 'd) stree \<Rightarrow> (bool \<Rightarrow> addr) \<Rightarrow>
    (bool \<Rightarrow> nat option) \<Rightarrow> c_int \<Rightarrow> 'd heap \<Rightarrow> bool" where
  "pinv h0 fr t e z w h \<longleftrightarrow> root_at h t w \<and> (\<forall>d. chain d h (fr d) (e d) (z d)) \<and>
     (\<forall>a. a \<notin> set (faddrs (fr True) @ taddrs t @ faddrs (fr False)) \<longrightarrow> a \<noteq> Local_N \<longrightarrow> h a = h0 a)"

definition apart :: "(bool \<Rightarrow> (addr, 'd) frames) \<Rightarrow> (addr, 'd) stree \<Rightarrow> bool" where
  "apart fr t \<longleftrightarrow> separate (faddrs (fr True) @ taddrs t @ faddrs (fr False))"

lemma apartD:
  assumes "apart fr t"
  shows "separate (faddrs (fr d))" "separate (taddrs t)" "set (faddrs (fr d)) \<inter> set (taddrs t) = {}"
    "set (faddrs (fr d)) \<inter> set (faddrs (fr (\<not> d))) = {}"
  using assms by (cases d; auto simp: apart_def)+

lemma cptr_apart:
  assumes "apart fr t"
  shows "cptr (fr d) \<notin> set (taddrs t)" "fr d \<noteq> [] \<longrightarrow> cptr (fr d) \<noteq> Local_N"
  using apartD(1,3) [OF assms, of d] apartD(2) [OF assms] cptr_place [of "fr d"]
  by (auto simp: separate_def)

lemma pinv_set:
  assumes P: "pinv h0 fr t e z w h" and A: "apart fr t"
  shows "\<exists>h'. set_far d h (cptr (fr d)) x = Some h' \<and> pinv h0 fr t (e(d := x)) z w h'"
proof -
  note AD = apartD [OF A] and C = cptr_apart [OF A, of d]
  have ch: "chain d' h (fr d') (e d') (z d')" for d' using P by (simp add: pinv_def)
  obtain m where m: "h (cptr (fr d)) = Some m"
      "set_far d h (cptr (fr d)) x = Some (h(cptr (fr d) \<mapsto> upd_far d m x))"
      "chain d (h(cptr (fr d) \<mapsto> upd_far d m x)) (fr d) x (z d)"
    using chain_set_far [OF ch AD(1)] by blast
  let ?h = "h(cptr (fr d) \<mapsto> upd_far d m x)"
  have "chain (\<not> d) ?h (fr (\<not> d)) (e (\<not> d)) (z (\<not> d))"
    using chain_other [OF ch m(1) AD(1), of "\<not> d" x] AD(4) [of d] C(2) by simp
  with m(3) have "chain d' ?h (fr d') ((e(d := x)) d') (z d')" for d'
    by (cases "d' = d") auto
  moreover have "root_at ?h t w" using P C(1) by (simp add: pinv_def)
  moreover have "?h a = h0 a"
    if "a \<notin> set (faddrs (fr True) @ taddrs t @ faddrs (fr False))" "a \<noteq> Local_N" for a
  proof -
    have "a \<noteq> cptr (fr d)" using that cptr_place [of "fr d"] by (cases d) auto
    then show ?thesis using P that by (simp add: pinv_def)
  qed
  ultimately show ?thesis using m(2) by (simp add: pinv_def)
qed

lemma pinv_fix:
  assumes P: "pinv h0 fr t e z w h" and A: "apart fr t" and "e d = Null" and "z d = None"
  shows "\<exists>n0 h'. load h Local_N = Some n0 \<and>
    fix_sizes d h (far d n0) (word_of_nat (fsize (fr d) + n)) = Some h' \<and> pinv h0 fr t e (z(d := Some n)) w h'"
proof -
  note AD = apartD [OF A]
  have ch: "chain d' h (fr d') (e d') (z d')" for d' using P by (simp add: pinv_def)
  obtain n0 where n0: "h Local_N = Some n0" "seg d h (far d n0) (fr d) Null None"
    using ch [of d] assms(3,4) by (auto simp: chain_def)
  obtain h' where h': "fix_sizes d h (far d n0) (word_of_nat (fsize (fr d) + n)) = Some h'"
      "seg d h' (far d n0) (fr d) Null (Some n)" "\<And>a. a \<notin> set (faddrs (fr d)) \<Longrightarrow> h' a = h a"
    using fix_seg [OF n0(2) AD(1)] by blast
  have loc: "h' Local_N = Some n0" using h'(3) AD(1) n0(1) by (simp add: separate_def)
  have "chain (\<not> d) h' (fr (\<not> d)) (e (\<not> d)) (z (\<not> d))"
    by (rule chain_frame [OF ch]) (use h'(3) AD(4) loc n0(1) in \<open>auto simp: disjoint_iff\<close>)
  then have "chain d' h' (fr d') (e d') ((z(d := Some n)) d')" for d'
    using h'(2) loc assms(3) by (cases "d' = d") (auto simp: chain_def)
  moreover have "root_at h' t w = root_at h t w"
    using h'(3) AD(3) [of d] by (intro root_at_cong) (auto simp: disjoint_iff)
  moreover have "h' a = h0 a"
    if "a \<notin> set (faddrs (fr True) @ taddrs t @ faddrs (fr False))" "a \<noteq> Local_N" for a
    using that h'(3) [of a] P by (cases d) (auto simp: pinv_def)
  ultimately show ?thesis using n0(1) h'(1) P by (auto simp: pinv_def load_def)
qed

lemma pinv_load_root:
  assumes "pinv h0 fr (Node l c r) e z w h" and "apart fr (Node l c r)"
  shows "load h (fst c) = Some \<lparr>n_left = root l, n_right = root r, n_key = ckey c, n_size = w,
           n_data = snd (snd c)\<rparr>"
    "node_size h (root l) = Some (word_of_nat (size l))"
    "node_size h (root r) = Some (word_of_nat (size r))"
  using assms apartD(2) [OF assms(2)]
  by (auto simp: pinv_def root_at_def load_def separate_Null intro!: node_size_tree)

lemma pinv_size:
  assumes P: "pinv h0 fr (Node l c r) e z w h" and A: "apart fr (Node l c r)"
  shows "\<exists>h'. set_size h (fst c) w' = Some h' \<and> pinv h0 fr (Node l c r) e z w' h'"
proof -
  let ?n = "\<lparr>n_left = root l, n_right = root r, n_key = ckey c, n_size = w', n_data = snd (snd c)\<rparr>"
  let ?h = "h(fst c \<mapsto> ?n)"
  have "set_size h (fst c) w' = Some ?h"
    using pinv_load_root(1) [OF P A] by (simp add: set_size_def)
  moreover have "chain d ?h (fr d) (e d) (z d)" for d
  proof (rule chain_frame)
    show "chain d h (fr d) (e d) (z d)" using P by (simp add: pinv_def)
    show "?h a = h a" if "a \<in> set (faddrs (fr d))" for a using that apartD(3) [OF A] by auto
    show "\<exists>n'. ?h Local_N = Some n' \<and> far d n' = far d n" if "h Local_N = Some n" for n
      using that apartD(2) [OF A] by auto
  qed
  ultimately show ?thesis
    using P apartD(2) [OF A] by (auto simp: pinv_def root_at_def)
qed

lemma pinv_finish:
  assumes P: "pinv h0 fr (Node l c r) (\<lambda>d. if d then root l else root r)
      (\<lambda>d. Some (if d then size l else size r)) w h"
    and A: "apart fr (Node l c r)" and w: "w = word_of_nat (fsize (fr True) + size l + (fsize (fr False) + size r) + 1)"
  shows "\<exists>n0. load h Local_N = Some n0 \<and>
     tree_at (h(fst c \<mapsto> \<lparr>n_left = n_right n0, n_right = n_left n0, n_key = ckey c, n_size = w,
                n_data = snd (snd c)\<rparr>, Local_N := None))
       (Node (build True (fr True) l) c (build False (fr False) r))"
proof -
  note AD = apartD [OF A]
  have ch: "chain d h (fr d) (if d then root l else root r) (Some (if d then size l else size r))" for d
    using P unfolding pinv_def by blast
  obtain n0 where n0: "h Local_N = Some n0" using ch [of True] by (auto simp: chain_def)
  have segs: "seg d h (far d n0) (fr d) (if d then root l else root r) (Some (if d then size l else size r))"
    for d using ch [of d] n0 unfolding chain_def by fastforce
  have T: "tree_at h l" "tree_at h r" using P by (auto simp: pinv_def root_at_def)
  have B: "tree_at h (build True (fr True) l)" "root (build True (fr True) l) = n_right n0"
    "tree_at h (build False (fr False) r)" "root (build False (fr False) r) = n_left n0"
    using seg_build [of True h _ "fr True" l] seg_build [of False h _ "fr False" r] segs [of True]
      segs [of False] T by (auto simp: far_def)
  have addrs: "set (taddrs (build d fs x)) = set (faddrs fs) \<union> set (taddrs x)" for d fs and x :: "(addr, 'a) stree"
    by (induction fs) auto
  have out: "fst c \<notin> set (taddrs (build True (fr True) l))" "fst c \<notin> set (taddrs (build False (fr False) r))"
    "Local_N \<notin> set (taddrs (build True (fr True) l))" "Local_N \<notin> set (taddrs (build False (fr False) r))"
    "fst c \<noteq> Local_N"
    using AD(2) AD(1,3) [of True] AD(1,3) [of False] by (auto simp: addrs separate_def)
  show ?thesis
    using n0 B out by (auto simp: tree_at_Node w load_def ac_simps)
qed

lemma linv_start:
  assumes "holds_tree h t" and "t \<noteq> Leaf"
  shows "linv (taddrs t) h
    (h(Local_N \<mapsto> g\<lparr>n_left := Null, n_right := Null\<rparr>), root t, Local_N, Local_N, 0, 0) t [] []"
  using assms tree_at_top [of h t]
  by (auto simp: linv_def chain_def far_def holds_tree_def separate_def)

lemma linv_pinv:
  assumes "linv as h0 (h, p, l, r, l_size, r_size) t ls rs" and "separate as"
  shows "\<exists>e w. pinv h0 (\<lambda>d. if d then ls else rs) t e (\<lambda>_. None) w h \<and> apart (\<lambda>d. if d then ls else rs) t"
proof -
  note S = linv_separate [OF assms]
  obtain e1 e2 w where *: "chain True h ls e1 None" "chain False h rs e2 None" "root_at h t w"
    using assms(1) by (auto simp: linv_def top_at_def)
  have "chain d h (if d then ls else rs) ((\<lambda>d. if d then e1 else e2) d) None" for d
    using * by (cases d) auto
  then have "pinv h0 (\<lambda>d. if d then ls else rs) t (\<lambda>d. if d then e1 else e2) (\<lambda>_. None) w h"
    using assms(1) S(2) *(3) by (auto simp: pinv_def linv_def)
  then show ?thesis using S(1) by (auto simp: apart_def)
qed

text \<open>The statements after the loop that set the sizes: of the root, and along the two closed spines.\<close>

lemma pinv_sizes:
  assumes P0: "pinv h0 fr (Node l c r) e (\<lambda>_. None) w h" and A: "apart fr (Node l c r)"
  obtains h1 h2 h3 n3 h4 n4 h5 where "set_size h (fst c) w' = Some h1"
    "set_far False h1 (cptr (fr False)) Null = Some h2" "set_far True h2 (cptr (fr True)) Null = Some h3"
    "load h3 Local_N = Some n3" "fix_sizes True h3 (far True n3) (word_of_nat (fsize (fr True) + size l)) = Some h4"
    "load h4 Local_N = Some n4" "fix_sizes False h4 (far False n4) (word_of_nat (fsize (fr False) + size r)) = Some h5"
    "pinv h0 fr (Node l c r) (e(False := Null, True := Null)) (\<lambda>_. None) w' h3"
    "pinv h0 fr (Node l c r) (e(False := Null, True := Null)) ((\<lambda>_. None)(True := Some (size l))) w' h4"
    "pinv h0 fr (Node l c r) (e(False := Null, True := Null))
      ((\<lambda>_. None)(True := Some (size l), False := Some (size r))) w' h5"
proof -
  let ?t = "Node l c r"
  obtain h1 where h1: "set_size h (fst c) w' = Some h1" and P1: "pinv h0 fr ?t e (\<lambda>_. None) w' h1"
    using pinv_size [OF P0 A] by blast
  obtain h2 where h2: "set_far False h1 (cptr (fr False)) Null = Some h2"
      and P2: "pinv h0 fr ?t (e(False := Null)) (\<lambda>_. None) w' h2"
    using pinv_set [OF P1 A] by blast
  obtain h3 where h3: "set_far True h2 (cptr (fr True)) Null = Some h3"
      and P3: "pinv h0 fr ?t (e(False := Null, True := Null)) (\<lambda>_. None) w' h3"
    using pinv_set [OF P2 A] by blast
  obtain n3 h4 where h4: "load h3 Local_N = Some n3"
      "fix_sizes True h3 (far True n3) (word_of_nat (fsize (fr True) + size l)) = Some h4"
      and P4: "pinv h0 fr ?t (e(False := Null, True := Null)) ((\<lambda>_. None)(True := Some (size l))) w' h4"
    using pinv_fix [OF P3 A, of True "size l"] by auto
  obtain n4 h5 where "load h4 Local_N = Some n4"
      "fix_sizes False h4 (far False n4) (word_of_nat (fsize (fr False) + size r)) = Some h5"
      "pinv h0 fr ?t (e(False := Null, True := Null)) ((\<lambda>_. None)(True := Some (size l), False := Some (size r))) w' h5"
    using pinv_fix [OF P4 A, of False "size r"] by auto
  with h1 h2 h3 h4 P3 P4 that show thesis by blast
qed

text \<open>
  The statements after the loop, run on a state that represents the result of the descent.
\<close>

lemma splay_epilogue:
  assumes P0: "pinv h0 fr (Node l c r) e (\<lambda>_. None) w h" and A: "apart fr (Node l c r)"
  shows "\<exists>h'. splay_finish (h, fst c, cptr (fr True), cptr (fr False),
      word_of_nat (fsize (fr True)), word_of_nat (fsize (fr False))) = Some (h', fst c) \<and>
    tree_at h' (Node (build True (fr True) l) c (build False (fr False) r)) \<and>
    h' Local_N = None \<and>
    (\<forall>a. a \<notin> set (faddrs (fr True) @ taddrs (Node l c r) @ faddrs (fr False)) \<longrightarrow> a \<noteq> Local_N \<longrightarrow> h' a = h0 a)"
proof -
  let ?t = "Node l c r"
  let ?w = "word_of_nat (fsize (fr True) + size l + (fsize (fr False) + size r) + 1) :: c_int"
  note lr = pinv_load_root
  obtain h1 h2 h3 n3 h4 n4 h5 where sizes: "set_size h (fst c) ?w = Some h1"
      "set_far False h1 (cptr (fr False)) Null = Some h2" "set_far True h2 (cptr (fr True)) Null = Some h3"
      "load h3 Local_N = Some n3" "fix_sizes True h3 (far True n3) (word_of_nat (fsize (fr True) + size l)) = Some h4"
      "load h4 Local_N = Some n4" "fix_sizes False h4 (far False n4) (word_of_nat (fsize (fr False) + size r)) = Some h5"
    and "pinv h0 fr ?t (e(False := Null, True := Null)) (\<lambda>_. None) ?w h3"
      "pinv h0 fr ?t (e(False := Null, True := Null)) ((\<lambda>_. None)(True := Some (size l))) ?w h4"
    and P5: "pinv h0 fr ?t (e(False := Null, True := Null))
        ((\<lambda>_. None)(True := Some (size l), False := Some (size r))) ?w h5"
    by (rule pinv_sizes [OF P0 A])
  obtain h6 where h6: "set_far True h5 (cptr (fr True)) (root l) = Some h6"
      and P6: "pinv h0 fr ?t (e(False := Null, True := root l))
        ((\<lambda>_. None)(True := Some (size l), False := Some (size r))) ?w h6"
    using pinv_set [OF P5 A, of True "root l"] by auto
  obtain h7 where h7: "set_far False h6 (cptr (fr False)) (root r) = Some h7"
      and P7: "pinv h0 fr ?t (e(True := root l, False := root r))
        ((\<lambda>_. None)(True := Some (size l), False := Some (size r))) ?w h7"
    using pinv_set [OF P6 A, of False "root r"] by (auto simp: fun_upd_twist)
  have feq: "e(True := root l, False := root r) = (\<lambda>d. if d then root l else root r)"
    "(\<lambda>_. None)(True := Some (size l), False := Some (size r)) = (\<lambda>d. Some (if d then size l else size r))"
    by auto
  obtain n0 where n0: "load h7 Local_N = Some n0" and
      T: "tree_at (h7(fst c \<mapsto> \<lparr>n_left = n_right n0, n_right = n_left n0, n_key = ckey c, n_size = ?w,
                n_data = snd (snd c)\<rparr>, Local_N := None))
       (Node (build True (fr True) l) c (build False (fr False) r))"
    using pinv_finish [OF P7 [unfolded feq] A] by blast
  let ?h7 = "h7(fst c \<mapsto> \<lparr>n_left = n_right n0, n_right = n_left n0, n_key = ckey c, n_size = ?w,
                n_data = snd (snd c)\<rparr>, Local_N := None)"
  have nL: "fst c \<noteq> Local_N" "fst c \<noteq> Null" using apartD(2) [OF A] by auto
  have sums: "word_of_nat (fsize (fr True)) + word_of_nat (size l) = (word_of_nat (fsize (fr True) + size l) :: c_int)"
    "word_of_nat (fsize (fr False)) + word_of_nat (size r) = (word_of_nat (fsize (fr False) + size r) :: c_int)"
    "word_of_nat (fsize (fr True) + size l) + word_of_nat (fsize (fr False) + size r) + 1 = ?w"
    by simp_all
  let ?h8 = "h7(fst c \<mapsto> \<lparr>n_left = n_right n0, n_right = root r, n_key = ckey c, n_size = ?w,
                n_data = snd (snd c)\<rparr>)"
  have last: "set_left h7 (fst c) (n_right n0) = Some ?h8" "load ?h8 Local_N = Some n0"
    "set_right ?h8 (fst c) (n_left n0) = Some (?h7 (Local_N := h7 Local_N))"
    using lr(1) [OF P7 A] n0 nL by (auto simp: heap_simps fun_upd_twist)
  have "splay_finish (h, fst c, cptr (fr True), cptr (fr False),
      word_of_nat (fsize (fr True)), word_of_nat (fsize (fr False))) = Some (?h7, fst c)"
    using lr [OF P0 A] lr(1) [OF P5 A] lr(1) [OF P6 A] lr(1) [OF P7 A] sizes h6 h7 n0 last
    by (simp add: splay_finish_def set_far_def fix_sizes_def far_def Let_def sums
        del: of_nat_add fun_upd_apply)
  moreover have "?h7 a = h0 a"
    if "a \<notin> set (faddrs (fr True) @ taddrs (Node l c r) @ faddrs (fr False))" "a \<noteq> Local_N" for a
    using P7 that by (simp add: pinv_def)
  ultimately show ?thesis using T by auto
qed

end
