(* ===== verification/Splay_Ops.thy ===== *)
theory Splay_Ops
  imports Splay_Heap
begin

text \<open>
  The operations of \<^verbatim>\<open>splaytree.h\<close> on the heap: \<^verbatim>\<open>splaytree_splay\<close>, \<^verbatim>\<open>splaytree_insert\<close> and
  \<^verbatim>\<open>splaytree_delete\<close> return on every heap that holds a tree, and what they leave in the heap is
  the tree the functions of \<open>Splay_Spec\<close> compute, so a finite map from keys to data.
\<close>

section \<open>Splaying\<close>

lemma taddrs_inorder: "inorder t = inorder u \<Longrightarrow> taddrs t = taddrs u"
  by (simp add: taddrs_def)

lemma taddrs_splay [simp]: "taddrs (splay i t) = taddrs t"
  by (rule taddrs_inorder) simp

lemma build_dir: "build True fs x = build_left fs x" "build False fs x = build_right fs x"
  by (simp_all add: build_def)

lemma splay_refines:
  assumes "holds_tree h t" and "h Local_N = None"
  shows "\<exists>h'. splaytree_splay g h (root t) i = Some (h', root (splay i t)) \<and>
    holds_tree h' (splay i t) \<and> (\<forall>a. a \<notin> set (taddrs t) \<longrightarrow> h' a = h a)"
proof (cases "t = Leaf")
  case True
  then show ?thesis using assms by (simp add: splaytree_splay_def holds_tree_def)
next
  case False
  let ?s = "(h(Local_N \<mapsto> g\<lparr>n_left := Null, n_right := Null\<rparr>), root t, Local_N, Local_N, 0, 0)"
  have sep: "separate (taddrs t)" using assms(1) by (simp add: holds_tree_def)
  obtain t' ls rs where td: "td i t [] [] = (t', ls, rs)" by (cases "td i t [] []") auto
  obtain s' where s': "splay_loop i ?s = Some s'" "linv (taddrs t) h s' t' ls rs"
    using splay_loop_td [OF linv_start [OF assms(1) False, of g] sep, of i] td by auto
  obtain l c r where t': "t' = Node l c r" using td_nonLeaf [OF td] False by (cases t') auto
  let ?fr = "\<lambda>d. if d then ls else rs"
  obtain h1 where s1: "s' = (h1, fst c, cptr ls, cptr rs, word_of_nat (fsize ls), word_of_nat (fsize rs))"
    using s'(2) by (cases s') (auto simp: linv_def t')
  obtain e w where P: "pinv h ?fr (Node l c r) e (\<lambda>_. None) w h1" and A: "apart ?fr (Node l c r)"
    using linv_pinv [OF s'(2) [unfolded s1 t'] sep] by blast
  note addrs = linv_separate(2) [OF s'(2) sep]
  obtain h' where h': "splay_finish s' = Some (h', fst c)" "tree_at h' (splay i t)" "h' Local_N = None"
      "\<And>a. a \<notin> set (taddrs t) \<Longrightarrow> a \<noteq> Local_N \<Longrightarrow> h' a = h a"
    using splay_epilogue [OF P A] addrs
    by (auto simp: s1 splay_eq [OF td [unfolded t']] build_dir t')
  have "h' a = h a" if "a \<notin> set (taddrs t)" for a
    using h'(3,4) assms(2) that by (cases "a = Local_N") auto
  moreover have "root t \<noteq> Null" using root_Null_iff [of t] sep False by (simp add: separate_def)
  moreover have "root (splay i t) = fst c" by (simp add: splay_eq [OF td [unfolded t']])
  ultimately show ?thesis
    using s'(1) h'(1,2) sep by (simp add: splaytree_splay_def holds_tree_def del: fun_upd_apply)
qed

section \<open>Insertion\<close>

lemma tree_at_alloc: "tree_at h t \<Longrightarrow> a \<in> set (taddrs t) \<Longrightarrow> h a \<noteq> None"
  by (induction t) (auto simp: tree_at_Node)

lemma holds_tree_Node:
  "holds_tree h (Node l c r) \<longleftrightarrow>
     h (fst c) = Some \<lparr>n_left = root l, n_right = root r, n_key = ckey c,
                       n_size = word_of_nat (size l + size r + 1), n_data = snd (snd c)\<rparr> \<and>
     fst c \<noteq> Null \<and> fst c \<noteq> Local_N \<and> fst c \<notin> set (taddrs l) \<and> fst c \<notin> set (taddrs r) \<and>
     set (taddrs l) \<inter> set (taddrs r) = {} \<and> holds_tree h l \<and> holds_tree h r"
  by (auto simp: holds_tree_def tree_at_Node)

lemma holds_tree_size:
  "holds_tree h t \<Longrightarrow> node_size h (root t) = Some (word_of_nat (size t))"
  by (simp add: holds_tree_def node_size_tree separate_Null)

lemma holds_tree_Leaf [simp]: "holds_tree h Leaf"
  by (simp add: holds_tree_def)

lemma node_size_Null [simp]: "node_size h Null = Some 0"
  by (simp add: node_size_def)

lemma node_size_mem:
  "p \<noteq> Null \<Longrightarrow> node_size h p = map_option n_size (h p)"
  by (cases "h p") (simp_all add: node_size_def load_def)

lemma holds_tree_upd [simp]: "p \<notin> set (taddrs t) \<Longrightarrow> holds_tree (h(p := y)) t = holds_tree h t"
  by (simp add: holds_tree_def)

lemma holds_tree_root: "holds_tree h t \<Longrightarrow> root t = Null \<longleftrightarrow> t = Leaf"
  by (simp add: holds_tree_def root_Null_iff separate_Null)

text \<open>The second half of \<^verbatim>\<open>splaytree_insert\<close>, on a splayed tree that does not hold the key.\<close>

lemma insert_refines:
  assumes H: "holds_tree h t" and "h Local_N = None" and m: "m \<noteq> Null" "m \<noteq> Local_N" "h m = None"
  shows "\<exists>h'. splaytree_insert g h (root t) i dat m = Some (h', root (s_insert t i dat m)) \<and>
    holds_tree h' (s_insert t i dat m) \<and> (\<forall>a. a \<notin> set (taddrs t) \<longrightarrow> a \<noteq> m \<longrightarrow> h' a = h a)"
proof -
  obtain h1 where h1: "splaytree_splay g h (root t) i = Some (h1, root (splay i t))"
      "holds_tree h1 (splay i t)" "\<And>a. a \<notin> set (taddrs t) \<Longrightarrow> h1 a = h a"
    using splay_refines [OF assms(1,2)] by blast
  have m': "m \<notin> set (taddrs t)" using tree_at_alloc [of h t m] m(3) H by (auto simp: holds_tree_def)
  show ?thesis
  proof (cases "splay i t")
    case Leaf
    then have "t = Leaf" by simp
    then show ?thesis
      using m by (auto simp: splaytree_insert_def s_insert_def heap_simps Let_def holds_tree_Node node_size_def
          holds_tree_def)
  next
    case (Node l c r)
    have "root t \<noteq> Null" using Node holds_tree_root [OF H] by auto
    have T: "set (taddrs t) = insert (fst c) (set (taddrs l) \<union> set (taddrs r))"
      using taddrs_splay [of i t] Node by (metis taddrs_simps(2) set_append list.simps(15) Un_insert_right)
    have N: "holds_tree h1 (Node l c r)" using h1(2) Node by simp
    note N' = N [unfolded holds_tree_Node]
    have "fst c \<noteq> m" "m \<noteq> fst c" "m \<notin> set (taddrs l)" "m \<notin> set (taddrs r)" using m' T by auto
    note M = this m(1,2)
    consider "ckey c = i" | "ckey c \<noteq> i" "compare i (ckey c) <s 0" | "ckey c \<noteq> i" "\<not> compare i (ckey c) <s 0"
      by blast
    then show ?thesis
    proof cases
      case 1
      then show ?thesis
        using h1(1,3) Node N m \<open>root t \<noteq> Null\<close> N'
        by (auto simp: splaytree_insert_def s_insert_def load_def)
    next
      case 2
      then show ?thesis
        using h1(1,3) Node N' M T \<open>root t \<noteq> Null\<close>
        by (simp add: splaytree_insert_def s_insert_def heap_simps Let_def holds_tree_Node
            holds_tree_size node_size_mem)
    next
      case 3
      then show ?thesis
        using h1(1,3) Node N' M T \<open>root t \<noteq> Null\<close>
        by (simp add: splaytree_insert_def s_insert_def heap_simps Let_def holds_tree_Node
            holds_tree_size node_size_mem)
    qed
  qed
qed

section \<open>Deletion\<close>

lemma delete_second_splay:
  assumes wf: "wf_stree (Node l c r)" and "ckey c = i" and "splay i l = Node xl x xr" and "0 \<le>s i"
  shows "xr = Leaf"
proof -
  have l: "wf_stree l" "below i l" using wf assms(2) by (auto simp: wf_stree_Node)
  have "above i xr" using splay_sides [OF assms(3) l(1) assms(4)] by simp
  moreover have "below i xr" using set_tree_splayD [OF assms(3)] l(2) by simp
  ultimately show ?thesis by (cases xr) auto
qed

lemma splay_set_taddrs:
  "splay i t = Node l c r \<Longrightarrow> set (taddrs t) = insert (fst c) (set (taddrs l) \<union> set (taddrs r))"
  using taddrs_splay [of i t] by (metis taddrs_simps(2) set_append list.simps(15) Un_insert_right)

lemma splay_size_Node: "splay i t = Node l c r \<Longrightarrow> size t = Suc (size l + size r)"
  using splay_facts(2) [of i t] by simp

text \<open>The part of \<^verbatim>\<open>splaytree_delete\<close> that joins the two subtrees of the root and frees it.\<close>

lemma delete_join:
  assumes N: "holds_tree h (Node l c r)" and wf: "wf_stree (Node l c r)" and c: "ckey c = i"
    and i: "0 \<le>s i" and "h Local_N = None" and l: "l \<noteq> Leaf"
  shows "\<exists>h1 xl x h2 h3. splaytree_splay g h (root l) i = Some (h1, fst x) \<and> splay i l = Node xl x Leaf \<and>
    load h1 (fst c) = load h (fst c) \<and> set_right h1 (fst x) (root r) = Some h2 \<and>
    free_node h2 (fst c) = Some h3 \<and>
    (\<exists>h4. set_size h3 (fst x) (word_of_nat (size l + size r)) = Some h4 \<and> holds_tree h4 (Node xl x r) \<and>
      h4 (fst c) = None \<and> (\<forall>a. a \<notin> set (taddrs (Node l c r)) \<longrightarrow> h4 a = h a))"
proof -
  note N' = N [unfolded holds_tree_Node]
  obtain h1 where h1: "splaytree_splay g h (root l) i = Some (h1, root (splay i l))"
      "holds_tree h1 (splay i l)" "\<And>a. a \<notin> set (taddrs l) \<Longrightarrow> h1 a = h a"
    using splay_refines [of h l g i] N' assms(5) by blast
  obtain xl x where x: "splay i l = Node xl x Leaf"
    using delete_second_splay [OF wf c _ i] l by (cases "splay i l") auto
  have X: "holds_tree h1 (Node xl x Leaf)" using h1(2) x by simp
  note X' = X [unfolded holds_tree_Node]
  have A: "set (taddrs l) = insert (fst x) (set (taddrs xl))" using splay_set_taddrs [OF x] by simp
  have sz: "size l = Suc (size xl)" using splay_size_Node [OF x] by simp
  have "h1 (fst c) = h (fst c)" using h1(3) N' by blast
  moreover have "holds_tree h1 r"
    using N' h1(3) tree_at_cong [of r h1 h] by (auto simp: holds_tree_def disjoint_iff)
  moreover have "fst x \<noteq> fst c" "fst x \<notin> set (taddrs r)" "fst c \<notin> set (taddrs xl)" "set (taddrs xl) \<inter> set (taddrs r) = {}"
    using N' A by auto
  ultimately show ?thesis
    using h1(1,3) x X' N' A sz by (simp add: heap_simps holds_tree_Node fun_upd_twist) (simp add: ckey_def)
qed

lemma delete_refines:
  assumes H: "holds_tree h t" and wf: "wf_stree t" and i: "0 \<le>s i" and loc: "h Local_N = None"
  shows "\<exists>h'. splaytree_delete g h (root t) i = Some (h', root (s_delete t i)) \<and>
    holds_tree h' (s_delete t i) \<and> (\<forall>a. a \<notin> set (taddrs t) \<longrightarrow> h' a = h a) \<and>
    (\<forall>c \<in> set_tree t. ckey c = i \<longrightarrow> h' (fst c) = None)"
proof (cases "splay i t")
  case Leaf
  then show ?thesis by (simp add: splaytree_delete_def s_delete_def)
next
  case (Node l c r)
  obtain h1 where h1: "splaytree_splay g h (root t) i = Some (h1, root (splay i t))"
      "holds_tree h1 (splay i t)" "\<And>a. a \<notin> set (taddrs t) \<Longrightarrow> h1 a = h a"
    using splay_refines [OF H loc] by blast
  have N: "holds_tree h1 (Node l c r)" using h1(2) Node by simp
  note N' = N [unfolded holds_tree_Node] and T = splay_set_taddrs [OF Node] and sz = splay_size_Node [OF Node]
  have loc1: "h1 Local_N = None" using h1(3) loc H by (simp add: holds_tree_def separate_def)
  have R: "root t \<noteq> Null" using Node holds_tree_root [OF H] by auto
  obtain nt where nt: "load h (root t) = Some nt" "n_size nt - 1 = word_of_nat (size l + size r)"
    using holds_tree_size [OF H] R sz by (auto simp: node_size_def split: bind_splits)
  have only: "\<forall>c' \<in> set_tree t. ckey c' = i \<longrightarrow> c' = c \<and> ckey c = i"
    using splay_sides [OF Node wf i] set_tree_splayD [OF Node] by (force simp: skey_def)
  consider "ckey c \<noteq> i" | "ckey c = i" "l = Leaf" | "ckey c = i" "l \<noteq> Leaf" by blast
  then show ?thesis
  proof cases
    case 1
    then show ?thesis
      using h1 R nt(1) only N N' Node by (simp add: splaytree_delete_def s_delete_def load_def)
  next
    case 2
    then show ?thesis
      using h1 R nt only N' Node T sz
      by (cases r) (auto simp: splaytree_delete_def s_delete_def heap_simps Let_def holds_tree_Node)
  next
    case 3
    obtain h2 xl x h3 h4 h5 where j: "splaytree_splay g h1 (root l) i = Some (h2, fst x)"
      "splay i l = Node xl x Leaf" "load h2 (fst c) = load h1 (fst c)"
      "set_right h2 (fst x) (root r) = Some h3" "free_node h3 (fst c) = Some h4"
      "set_size h4 (fst x) (word_of_nat (size l + size r)) = Some h5" "holds_tree h5 (Node xl x r)"
      "h5 (fst c) = None" "\<And>a. a \<notin> set (taddrs (Node l c r)) \<Longrightarrow> h5 a = h1 a"
      using delete_join [OF N wf_splayD [OF Node wf] 3(1) i loc1 3(2)] by metis
    have "root l \<noteq> Null" "fst x \<noteq> Null"
      using 3 N' holds_tree_root [of h1 l] j(7) by (auto simp: holds_tree_Node)
    then show ?thesis
      using h1 R nt only N' Node T 3 j
      by (simp add: splaytree_delete_def s_delete_def Let_def load_def) blast
  qed
qed

section \<open>Properties\<close>

text \<open>A heap with the three keys of \<^verbatim>\<open>test_splaytree.cpp\<close>, for the examples.\<close>

definition ex_tree :: "(addr, nat) stree" where
  "ex_tree = Node (Node (Node Leaf (Mem 1, 1001, 1) Leaf) (Mem 2, 1002, 2) Leaf) (Mem 3, 1003, 3) Leaf"

definition ex_heap :: "nat heap" where
  "ex_heap = [Mem 1 \<mapsto> \<lparr>n_left = Null, n_right = Null, n_key = 1001, n_size = 1, n_data = 1\<rparr>,
              Mem 2 \<mapsto> \<lparr>n_left = Mem 1, n_right = Null, n_key = 1002, n_size = 2, n_data = 2\<rparr>,
              Mem 3 \<mapsto> \<lparr>n_left = Mem 2, n_right = Null, n_key = 1003, n_size = 3, n_data = 3\<rparr>]"

lemma ex_heap_ok:
  "holds_tree ex_heap ex_tree" "wf_stree ex_tree" "ex_heap Local_N = None" "ex_heap (Mem 4) = None"
  "root ex_tree = Mem 3" "taddrs ex_tree = [Mem 1, Mem 2, Mem 3]"
  "to_map ex_tree = [1001 \<mapsto> 1, 1002 \<mapsto> 2, 1003 \<mapsto> 3]"
  by (auto simp: ex_heap_def ex_tree_def holds_tree_Node wf_stree_Node skey_def word_sle_eq to_map_def)

lemma nonneg_numerals: "0 \<le>s (1002 :: c_int)" "0 \<le>s (1005 :: c_int)"
  by (simp_all add: word_sle_eq)

definition ex_garbage :: "nat tree_node" where
  "ex_garbage = \<lparr>n_left = Mem 7, n_right = Null, n_key = 5, n_size = 9, n_data = 0\<rparr>"

text \<open>
  C3: on every heap that holds a search tree with non-negative keys, \<^verbatim>\<open>splaytree_splay\<close> for a non-negative key returns; the
  tree it leaves has the same nodes in the same order and correct size fields, its root carries
  the key exactly if the key is in the tree, and no other cell of the heap is changed.
\<close>

theorem splaytree_splay_correct:
  assumes "holds_tree h t" and "wf_stree t" and "0 \<le>s i" and "h Local_N = None"
  shows "\<exists>h' t'. splaytree_splay g h (root t) i = Some (h', root t') \<and> holds_tree h' t' \<and>
    inorder t' = inorder t \<and>
    (\<forall>l c r. t' = Node l c r \<longrightarrow> (ckey c = i \<longleftrightarrow> to_map t i \<noteq> None)) \<and>
    (\<forall>a. a \<notin> set (taddrs t) \<longrightarrow> h' a = h a)"
  using splay_refines [OF assms(1,4), of g i] splay_root_iff [OF _ assms(2,3)] inorder_splay [of i t]
  by blast

theorem splaytree_splay_correct_witness:
  "\<exists>h' t'. splaytree_splay ex_garbage ex_heap (Mem 3) 1002 = Some (h', root t') \<and> holds_tree h' t' \<and>
    map ckey (inorder t') = [1001, 1002, 1003] \<and> (\<exists>l c r. t' = Node l c r \<and> ckey c = 1002)"
proof -
  obtain h' t' where "splaytree_splay ex_garbage ex_heap (root ex_tree) 1002 = Some (h', root t')"
      "holds_tree h' t'" "inorder t' = inorder ex_tree"
      "\<forall>l c r. t' = Node l c r \<longrightarrow> (ckey c = 1002 \<longleftrightarrow> to_map ex_tree 1002 \<noteq> None)"
    using splaytree_splay_correct [OF ex_heap_ok(1,2) nonneg_numerals(1) ex_heap_ok(3)] by blast
  moreover from this have "t' \<noteq> Leaf" by (auto simp: ex_tree_def)
  moreover have "map ckey (inorder ex_tree) = [1001, 1002, 1003]" by (simp add: ex_tree_def)
  moreover have "to_map ex_tree 1002 \<noteq> None" by (simp add: ex_heap_ok(7))
  ultimately show ?thesis unfolding ex_heap_ok(5) by (metis tree.exhaust)
qed

text \<open>
  C4: on every heap that holds a search tree with non-negative keys, \<^verbatim>\<open>splaytree_insert\<close> of a non-negative key
  with fresh memory returns the root of a search tree in which the key is bound to the data, unless the key was bound before,
  and then nothing is bound anew; the other bindings and the rest of the heap stay as they were.
\<close>

theorem splaytree_insert_correct:
  assumes "holds_tree h t" and "wf_stree t" and "0 \<le>s i" and "h Local_N = None"
    and "m \<noteq> Null" and "m \<noteq> Local_N" and "h m = None"
  shows "\<exists>h' t'. splaytree_insert g h (root t) i dat m = Some (h', root t') \<and> holds_tree h' t' \<and> wf_stree t' \<and>
    to_map t' = (if to_map t i = None then (to_map t)(i \<mapsto> dat) else to_map t) \<and>
    (\<forall>a. a \<notin> set (taddrs t) \<longrightarrow> a \<noteq> m \<longrightarrow> h' a = h a)"
  using insert_refines [OF assms(1,4-7), of g i dat] spl.invar_insert [OF assms(2,3), of dat m]
    spl.lookup_insert [OF assms(2,3), of dat m]
  by blast

theorem splaytree_insert_correct_witness:
  "\<exists>h' t'. splaytree_insert ex_garbage ex_heap (Mem 3) 1005 8 (Mem 4) = Some (h', root t') \<and>
    holds_tree h' t' \<and> to_map t' = [1001 \<mapsto> 1, 1002 \<mapsto> 2, 1003 \<mapsto> 3, 1005 \<mapsto> 8]"
  using splaytree_insert_correct [OF ex_heap_ok(1,2) nonneg_numerals(2) ex_heap_ok(3) _ _ ex_heap_ok(4),
      of ex_garbage 8]
  by (auto simp: ex_heap_ok(5,7))

text \<open>
  C5: on every heap that holds a search tree with non-negative keys, \<^verbatim>\<open>splaytree_delete\<close> of a non-negative key
  returns the root of a search tree that binds the same keys but the deleted one, with correct size fields; the deleted node is
  freed and nothing outside the tree is changed.
\<close>

theorem splaytree_delete_correct:
  assumes "holds_tree h t" and "wf_stree t" and "0 \<le>s i" and "h Local_N = None"
  shows "\<exists>h' t'. splaytree_delete g h (root t) i = Some (h', root t') \<and> holds_tree h' t' \<and> wf_stree t' \<and>
    to_map t' = (to_map t)(i := None) \<and>
    (\<forall>c \<in> set_tree t. ckey c = i \<longrightarrow> h' (fst c) = None) \<and>
    (\<forall>a. a \<notin> set (taddrs t) \<longrightarrow> h' a = h a)"
  using delete_refines [OF assms(1-4), of g] spl.invar_delete [OF assms(2,3)]
    spl.lookup_delete [OF assms(2,3)]
  by blast

theorem splaytree_delete_correct_witness:
  "\<exists>h' t'. splaytree_delete ex_garbage ex_heap (Mem 3) 1002 = Some (h', root t') \<and>
    holds_tree h' t' \<and> to_map t' = [1001 \<mapsto> 1, 1003 \<mapsto> 3] \<and> h' (Mem 2) = None"
proof -
  have "\<exists>c \<in> set_tree ex_tree. ckey c = 1002 \<and> fst c = Mem 2" by (simp add: ex_tree_def)
  moreover have "[1001 \<mapsto> 1, 1002 \<mapsto> 2, 1003 \<mapsto> 3 :: nat](1002 := None) = [1001 \<mapsto> 1, 1003 :: c_int \<mapsto> 3]"
    by auto
  ultimately show ?thesis
    using splaytree_delete_correct [OF ex_heap_ok(1,2) nonneg_numerals(1) ex_heap_ok(3), of ex_garbage]
    unfolding ex_heap_ok(5,7) by metis
qed

section \<open>Sessions\<close>

primrec heap_op :: "'d tree_node \<Rightarrow> 'd heap \<times> addr \<Rightarrow> (c_int, 'd, addr) store_op \<Rightarrow>
    ('d heap \<times> addr) option" where
  "heap_op g s (Put k d m) = splaytree_insert g (fst s) (snd s) k d m"
| "heap_op g s (Drop k) = splaytree_delete g (fst s) (snd s) k"

fun run_ops :: "'d tree_node \<Rightarrow> 'd heap \<times> addr \<Rightarrow> (c_int, 'd, addr) store_op list \<Rightarrow>
    ('d heap \<times> addr) option" where
  "run_ops g s [] = Some s"
| "run_ops g s (op # ops) = do { s \<leftarrow> heap_op g s op; run_ops g s ops }"

text \<open>
  What \<^verbatim>\<open>malloc\<close> promises: the block it returns is not in use at that moment. A block that was freed
  earlier in the session may come again.
\<close>

fun fresh_for :: "'d tree_node \<Rightarrow> 'd heap \<times> addr \<Rightarrow> (c_int, 'd, addr) store_op list \<Rightarrow> bool" where
  "fresh_for g s [] \<longleftrightarrow> True"
| "fresh_for g s (op # ops) \<longleftrightarrow>
     list_all (\<lambda>a. a \<noteq> Null \<and> a \<noteq> Local_N \<and> fst s a = None) (op_addrs op) \<and>
     (case heap_op g s op of None \<Rightarrow> True | Some s' \<Rightarrow> fresh_for g s' ops)"

lemma heap_op_refines:
  assumes "holds_tree h t" and "wf_stree t" and "h Local_N = None" and "0 \<le>s op_key op"
    and "fresh_for g (h, root t) (op # ops)"
  shows "\<exists>h'. heap_op g (h, root t) op = Some (h', root (spl.apply_op t op)) \<and>
    holds_tree h' (spl.apply_op t op) \<and> h' Local_N = None \<and> fresh_for g (h', root (spl.apply_op t op)) ops"
proof (cases op)
  case (Put k d m)
  then have m: "m \<noteq> Null" "m \<noteq> Local_N" "h m = None" using assms(5) by simp_all
  have "Local_N \<notin> set (taddrs t)" using assms(1) by (simp add: holds_tree_def separate_def)
  with insert_refines [OF assms(1,3) m, of g k d] show ?thesis using assms(3,5) m(2) by (auto simp: Put)
next
  case (Drop k)
  have "Local_N \<notin> set (taddrs t)" using assms(1) by (simp add: holds_tree_def separate_def)
  with delete_refines [OF assms(1,2) _ assms(3), of k g] show ?thesis using assms(3-5) by (auto simp: Drop)
qed

lemma run_ops_refines:
  assumes "holds_tree h t" and "wf_stree t" and "h Local_N = None"
    and "\<forall>op \<in> set ops. 0 \<le>s op_key op" and "fresh_for g (h, root t) ops"
  shows "\<exists>h'. run_ops g (h, root t) ops = Some (h', root (foldl spl.apply_op t ops)) \<and>
    holds_tree h' (foldl spl.apply_op t ops)"
  using assms
proof (induction ops arbitrary: h t)
  case (Cons op ops)
  then have "0 \<le>s op_key op" by simp
  then obtain h1 where h1: "heap_op g (h, root t) op = Some (h1, root (spl.apply_op t op))"
      "holds_tree h1 (spl.apply_op t op)" "h1 Local_N = None" "fresh_for g (h1, root (spl.apply_op t op)) ops"
    using heap_op_refines [OF Cons.prems(1-3) _ Cons.prems(5)] by blast
  moreover have "wf_stree (spl.apply_op t op)"
    using spl.apply_op_correct(1) [OF Cons.prems(2)] Cons.prems(4) by simp
  ultimately show ?case using Cons.IH [of h1 "spl.apply_op t op"] Cons.prems(4) by auto
qed simp

text \<open>
  C1: every sequence of insertions and deletions with non-negative keys of the pointer program, started on an empty
  tree, with any behaviour of \<^verbatim>\<open>malloc\<close> that returns unused blocks, blocks freed before included, runs to its end
  without an invalid access and leaves a search tree that represents the finite map the sequence specifies.
\<close>

theorem splaytree_session_refines_map:
  assumes "h Local_N = None" and "\<forall>op \<in> set ops. 0 \<le>s op_key op" and "fresh_for g (h, Null) ops"
  shows "\<exists>h' t'. run_ops g (h, Null) ops = Some (h', root t') \<and> holds_tree h' t' \<and> wf_stree t' \<and>
    to_map t' = foldl map_op Map.empty ops"
  using run_ops_refines [of h Leaf ops g, OF holds_tree_Leaf spl.invar_empty assms(1,2)] assms(3)
    spl.lookup_run [OF spl.invar_empty assms(2)]
  unfolding root.simps spl.lookup_empty by blast

text \<open>A session in which the block of the deleted node is handed out again.\<close>

definition ex_session :: "(c_int, nat, addr) store_op list" where
  "ex_session = [Put 1002 1 (Mem 0), Put 1005 2 (Mem 1), Drop 1002, Put 1007 3 (Mem 0)]"

lemmas splay_eval = splaytree_insert_def splaytree_delete_def splaytree_splay_def splay_loop.simps splay_iter_def
  splay_finish_def fix_left_sizes.simps fix_right_sizes.simps heap_simps node_size_def compare_def
  link_left_def link_right_def rotate_left_def rotate_right_def resize_def Let_def
  set_key_def set_data_def free_node_def

lemma ex_session_ok: "\<forall>op \<in> set ex_session. 0 \<le>s op_key op" "fresh_for ex_garbage (Map.empty, Null) ex_session"
proof -
  show "\<forall>op \<in> set ex_session. 0 \<le>s op_key op" by (simp add: ex_session_def word_sle_eq)
  show "fresh_for ex_garbage (Map.empty, Null) ex_session"
    by (simp add: ex_session_def splay_eval word_sless_alt)
qed

theorem splaytree_session_refines_map_witness:
  "\<exists>h' t'. run_ops ex_garbage (Map.empty, Null)
       [Put 1002 1 (Mem 0), Put 1005 2 (Mem 1), Drop 1002, Put 1007 3 (Mem 0)] = Some (h', root t') \<and>
     holds_tree h' t' \<and> to_map t' = [1005 \<mapsto> 2, 1007 \<mapsto> 3]"
proof -
  have "foldl map_op Map.empty ex_session = [1005 \<mapsto> 2, 1007 \<mapsto> 3]" by (auto simp: ex_session_def)
  then show ?thesis
    using splaytree_session_refines_map [OF _ ex_session_ok] unfolding ex_session_def by auto
qed

text \<open>
  The condition on the keys is needed: with keys of both signs the difference in \<^verbatim>\<open>compare\<close> overflows. After the
  insertion of -2000000000, -1000000000 and 1000000000, a second insertion of -2000000000 does not find the
  first and adds the key again.
\<close>

theorem splaytree_duplicate_key:
  "\<exists>h p n n'. run_ops g (Map.empty, Null)
       [Put (- 2000000000) d1 (Mem 0), Put (- 1000000000) d2 (Mem 1), Put 1000000000 d3 (Mem 2),
        Put (- 2000000000) d4 (Mem 3)] = Some (h, p) \<and>
     load h (Mem 0) = Some n \<and> n_key n = - 2000000000 \<and> load h (Mem 3) = Some n' \<and> n_key n' = - 2000000000"
  by (simp add: splay_eval word_sless_alt)

section \<open>The test program\<close>

text \<open>
  \<^verbatim>\<open>main\<close> of \<^verbatim>\<open>test_splaytree.cpp\<close>: the two values it prints, the size of the tree after three
  insertions and the data of the root after splaying for 1002, or \<open>None\<close> for the message that the
  key cannot be found. \<open>ms\<close> is the memory \<^verbatim>\<open>malloc\<close> returns.
\<close>

definition test_splaytree_main :: "nat tree_node \<Rightarrow> addr \<times> addr \<times> addr \<Rightarrow> (c_int \<times> nat option) option" where
  "test_splaytree_main g ms = (case ms of (m1, m2, m3) \<Rightarrow> do {
     let root = Null;
     (h, root) \<leftarrow> splaytree_insert g Map.empty root 1001 1 m1;
     (h, root) \<leftarrow> splaytree_insert g h root 1002 2 m2;
     (h, root) \<leftarrow> splaytree_insert g h root 1003 3 m3;
     nr \<leftarrow> load h root;
     let size = n_size nr;
     (h, sp) \<leftarrow> splaytree_splay g h root 1002;
     if sp \<noteq> Null then do { ns \<leftarrow> load h sp; Some (size, Some (n_data ns)) }
     else Some (size, None) })"

text \<open>
  The test program prints the size 3 and the data 2 that was inserted under the key 1002,
  whatever memory the three calls of \<^verbatim>\<open>malloc\<close> return.
\<close>

theorem test_splaytree_prints:
  assumes "separate [m1, m2, m3]"
  shows "test_splaytree_main g (m1, m2, m3) = Some (3, Some 2)"
proof -
  have m: "m1 \<noteq> m2" "m2 \<noteq> m1" "m1 \<noteq> m3" "m3 \<noteq> m1" "m2 \<noteq> m3" "m3 \<noteq> m2"
    "Local_N \<noteq> m1" "Local_N \<noteq> m2" "Local_N \<noteq> m3"
    "m1 \<noteq> Local_N" "m2 \<noteq> Local_N" "m3 \<noteq> Local_N" "m1 \<noteq> Null" "m2 \<noteq> Null" "m3 \<noteq> Null"
    using assms by auto
  have w: "0 <s (1 :: c_int)" "\<not> 1 <s (0 :: c_int)" "0 <s (2 :: c_int)" "(-1 :: c_int) <s 0"
    by (simp_all add: word_sless_alt)
  show ?thesis
    by (simp add: test_splaytree_main_def splaytree_insert_def splaytree_splay_def splay_loop.simps splay_iter_def
        splay_finish_def fix_left_sizes.simps fix_right_sizes.simps heap_simps node_size_def compare_def
        link_left_def link_right_def rotate_left_def rotate_right_def resize_def Let_def m w)
qed

theorem test_splaytree_prints_witness:
  "test_splaytree_main ex_garbage (Mem 0, Mem 1, Mem 2) = Some (3, Some 2)"
  using test_splaytree_prints [of "Mem 0" "Mem 1" "Mem 2"] by simp

end
