(* ===== verification/Splay_Cost.thy ===== *)
theory Splay_Cost
  imports Complex_Main Splay_Ops
begin

text \<open>
  What the splay tree costs. The introduction of \<^verbatim>\<open>splaytree.c\<close> promises amortised logarithmic
  performance; here the runs of the bodies of the three loops of \<^verbatim>\<open>splaytree_splay\<close> are counted on the heap
  and bounded by the potential method. The code uses the simplified top-down variant, whose
  zig-zag is two plain links, so the analysis looks two links ahead. The two loops that correct
  the sizes visit the nodes linked by the first one, less than one for each run of its body.
\<close>

section \<open>Counting the runs of the loop\<close>

text \<open>The loop with a counter for the runs of its body.\<close>

partial_function (option) splay_loop_steps :: "c_int \<Rightarrow> 'd loop_state \<Rightarrow> ('d loop_state \<times> nat) option" where
  "splay_loop_steps i s = do {
     (s, go_on) \<leftarrow> splay_iter i s;
     if go_on then do { (s, n) \<leftarrow> splay_loop_steps i s; Some (s, Suc n) } else Some (s, 1) }"

text \<open>The two loops that correct the sizes, with a counter, and the statements after the first loop up to them.\<close>

partial_function (option) fix_left_runs :: "'d heap \<Rightarrow> addr \<Rightarrow> c_int \<Rightarrow> ('d heap \<times> nat) option" where
  "fix_left_runs h y l_size =
     (if y = Null then Some (h, 0)
      else do {
        h \<leftarrow> set_size h y l_size;
        ny \<leftarrow> load h y;
        s \<leftarrow> node_size h (n_left ny);
        (h, n) \<leftarrow> fix_left_runs h (n_right ny) (l_size - (1 + s));
        Some (h, Suc n) })"

partial_function (option) fix_right_runs :: "'d heap \<Rightarrow> addr \<Rightarrow> c_int \<Rightarrow> ('d heap \<times> nat) option" where
  "fix_right_runs h y r_size =
     (if y = Null then Some (h, 0)
      else do {
        h \<leftarrow> set_size h y r_size;
        ny \<leftarrow> load h y;
        s \<leftarrow> node_size h (n_right ny);
        (h, n) \<leftarrow> fix_right_runs h (n_left ny) (r_size - (1 + s));
        Some (h, Suc n) })"

definition finish_steps :: "'d loop_state \<Rightarrow> nat option" where
  "finish_steps s = (case s of (h, t, l, r, l_size, r_size) \<Rightarrow> do {
     nt \<leftarrow> load h t;
     sl \<leftarrow> node_size h (n_left nt);
     sr \<leftarrow> node_size h (n_right nt);
     let l_size = l_size + sl;
     let r_size = r_size + sr;
     h \<leftarrow> set_size h t (l_size + r_size + 1);
     h \<leftarrow> set_left h r Null;
     h \<leftarrow> set_right h l Null;
     nN \<leftarrow> load h Local_N;
     (h, n) \<leftarrow> fix_left_runs h (n_right nN) l_size;
     nN \<leftarrow> load h Local_N;
     (h, m) \<leftarrow> fix_right_runs h (n_left nN) r_size;
     Some (n + m) })"

text \<open>The runs of the bodies of all three loops in one call of \<^verbatim>\<open>splaytree_splay\<close>.\<close>

definition splay_steps :: "'d tree_node \<Rightarrow> 'd heap \<Rightarrow> addr \<Rightarrow> c_int \<Rightarrow> nat option" where
  "splay_steps g h t i =
     (if t = Null then Some 0
      else do {
        (s, n) \<leftarrow> splay_loop_steps i
          (h(Local_N \<mapsto> g\<lparr>n_left := Null, n_right := Null\<rparr>), t, Local_N, Local_N, 0, 0);
        m \<leftarrow> finish_steps s;
        Some (n + m) })"

text \<open>The calls of \<^verbatim>\<open>splaytree_splay\<close> that \<^verbatim>\<open>splaytree_insert\<close> and \<^verbatim>\<open>splaytree_delete\<close> make.\<close>

definition delete_steps :: "'d tree_node \<Rightarrow> 'd heap \<Rightarrow> addr \<Rightarrow> c_int \<Rightarrow> nat option" where
  "delete_steps g h t i =
     (if t = Null then Some 0
      else do {
        n \<leftarrow> splay_steps g h t i;
        (h, t) \<leftarrow> splaytree_splay g h t i;
        nt \<leftarrow> load h t;
        if compare i (n_key nt) = 0 \<and> n_left nt \<noteq> Null
        then do { m \<leftarrow> splay_steps g h (n_left nt) i; Some (n + m) }
        else Some n })"

primrec op_steps :: "'d tree_node \<Rightarrow> 'd heap \<times> addr \<Rightarrow> (c_int, 'd, addr) store_op \<Rightarrow> nat option" where
  "op_steps g s (Put k d m) = splay_steps g (fst s) (snd s) k"
| "op_steps g s (Drop k) = delete_steps g (fst s) (snd s) k"

text \<open>The runs of the loops in a session of operations.\<close>

fun run_steps :: "'d tree_node \<Rightarrow> 'd heap \<times> addr \<Rightarrow> (c_int, 'd, addr) store_op list \<Rightarrow> nat option" where
  "run_steps g s [] = Some 0"
| "run_steps g s (op # ops) = do {
     n \<leftarrow> op_steps g s op; s \<leftarrow> heap_op g s op; m \<leftarrow> run_steps g s ops; Some (n + m) }"

section \<open>The count on trees\<close>

fun td_steps :: "c_int \<Rightarrow> ('p, 'd) stree \<Rightarrow> nat" where
  "td_steps i Leaf = 0"
| "td_steps i (Node l c r) =
     (if compare i (ckey c) <s 0 then
        (case l of
           Leaf \<Rightarrow> 1
         | Node ll b lr \<Rightarrow>
             if compare i (ckey b) <s 0 then (if ll = Leaf then 1 else Suc (td_steps i ll))
             else Suc (td_steps i l))
      else if 0 <s compare i (ckey c) then
        (case r of
           Leaf \<Rightarrow> 1
         | Node rl b rr \<Rightarrow>
             if 0 <s compare i (ckey b) then (if rr = Leaf then 1 else Suc (td_steps i rr))
             else Suc (td_steps i r))
      else 1)"

declare td_steps.simps(2) [simp del]

lemma td_steps_unfold:
  assumes "td_iter i t ls rs = (t', ls', rs', go_on)" and "t \<noteq> Leaf"
  shows "td_steps i t = (if go_on then Suc (td_steps i t') else 1)"
proof (cases t)
  case (Node l c r)
  then show ?thesis
    using assms(1) by (subst Node, subst td_steps.simps) (auto simp: td_iter_def split: tree.splits if_splits)
qed (use assms(2) in simp)

lemma splay_loop_steps_td:
  assumes "linv as h0 s t ls rs" and sep: "separate as"
  shows "\<exists>s'. splay_loop_steps i s = Some (s', td_steps i t)"
  using assms(1)
proof (induction t arbitrary: s ls rs rule: measure_induct_rule [of size])
  case (less t)
  have "t \<noteq> Leaf" using less.prems by (cases s) (auto simp: linv_def top_at_unfold)
  obtain t1 ls1 rs1 go_on where it: "td_iter i t ls rs = (t1, ls1, rs1, go_on)" by (metis prod_cases4)
  then obtain s1 where s1: "splay_iter i s = Some (s1, go_on)" "linv as h0 s1 t1 ls1 rs1"
    using splay_iter_td [OF less.prems sep] by blast
  show ?case
  proof (cases go_on)
    case True
    then have "size t1 < size t" using it td_iter_smaller [of i t ls rs t1 ls1 rs1] by simp
    then show ?thesis
      using less.IH [OF _ s1(2)] True s1(1) td_steps_unfold [OF it \<open>t \<noteq> Leaf\<close>]
      by (auto simp: splay_loop_steps.simps [of i s])
  next
    case False
    then show ?thesis
      using s1(1) td_steps_unfold [OF it \<open>t \<noteq> Leaf\<close>] by (cases s1) (simp add: splay_loop_steps.simps [of i s])
  qed
qed

text \<open>The counter does not change what the loop computes.\<close>

lemma splay_loop_steps_loop:
  assumes "splay_loop_steps i s = Some r"
  shows "splay_loop i s = Some (fst r)"
  using _ assms
proof (rule splay_loop_steps.raw_induct [where P = "\<lambda>i s r. splay_loop i s = Some (fst r)"])
  fix loop i s r
  assume IH: "\<And>i s r. loop i s = Some r \<Longrightarrow> splay_loop i s = Some (fst r)"
    and step: "do { (s, go_on) \<leftarrow> splay_iter i s;
      if go_on then do { (s, n) \<leftarrow> loop i s; Some (s, Suc n) } else Some (s, 1) } = Some r"
  from step obtain s1 go_on where s1: "splay_iter i s = Some (s1, go_on)"
      "(if go_on then do { (s, n) \<leftarrow> loop i s1; Some (s, Suc n) } else Some (s1, 1)) = Some r"
    by (auto simp: bind_eq_Some_conv)
  show "splay_loop i s = Some (fst r)"
  proof (cases go_on)
    case True
    then obtain s2 n where "loop i s1 = Some (s2, n)" "r = (s2, Suc n)"
      using s1(2) by (auto simp: bind_eq_Some_conv)
    then show ?thesis using IH [of i s1] s1(1) True by (subst splay_loop.simps) simp
  next
    case False
    then show ?thesis using s1 by (subst splay_loop.simps) auto
  qed
qed

section \<open>One splay\<close>

text \<open>The results of the recursive steps of the descent, in either direction.\<close>

lemma td_frames:
  "td i t ls rs = (case td i t [] [] of (t', ls', rs') \<Rightarrow> (t', ls @ ls', rs @ rs'))"
proof (induction t arbitrary: ls rs rule: measure_induct_rule [of size])
  case (less t)
  obtain t1 ls1 rs1 go_on where it: "td_iter i t [] [] = (t1, ls1, rs1, go_on)" by (metis prod_cases4)
  then have it': "td_iter i t ls rs = (t1, ls @ ls1, rs @ rs1, go_on)"
    by (auto simp: td_iter_def split: tree.splits if_splits)
  show ?case
  proof (cases go_on)
    case True
    then have "size t1 < size t" using it td_iter_smaller [of i t "[]" "[]" t1 ls1 rs1] by simp
    from less.IH [OF this, of "ls @ ls1" "rs @ rs1"] less.IH [OF this, of ls1 rs1] show ?thesis
      using it it' True by (simp add: td_unfold [of i t] split: prod.splits)
  next
    case False
    then show ?thesis using it it' by (simp add: td_unfold [of i t])
  qed
qed

lemma build_left_append: "build_left (ls @ ms) x = build_left ls (build_left ms x)"
  by (simp add: build_left_def)

lemma build_right_append: "build_right (ls @ ms) x = build_right ls (build_right ms x)"
  by (simp add: build_right_def)

lemma splay_unfold:
  assumes "td_iter i t [] [] = (t', ls, rs, True)" and "splay i t' = Node l c r"
  shows "splay i t = Node (build_left ls l) c (build_right rs r)"
proof -
  obtain u ls' rs' where u: "td i t' [] [] = (u, ls', rs')" by (metis prod_cases3)
  then obtain x y where x: "u = Node x c y" "l = build_left ls' x" "r = build_right rs' y"
    using assms(2) by (cases u) (auto simp: splay_def)
  have "td i t [] [] = (u, ls @ ls', rs @ rs')"
    using assms(1) u td_frames [of i t' ls rs] by (simp add: td_unfold [of i t])
  then show ?thesis by (simp add: splay_def x build_left_append build_right_append)
qed

text \<open>The three ways in which a run of the body goes on or ends; \<open>d\<close> is the direction.\<close>

lemma splay_end:
  assumes "td_iter i t [] [] = (Node l c r, ls, rs, False)"
  shows "splay i t = Node l c r" "td_steps i t = 1"
proof -
  have "ls = []" "rs = []" "t \<noteq> Leaf"
    using assms by (auto simp: td_iter_def split: tree.splits if_splits)
  then show "splay i t = Node l c r" "td_steps i t = 1"
    using assms td_steps_unfold [OF assms] by (simp_all add: splay_def td_unfold [of i t])
qed

lemma splay_link:
  assumes "goes d i (ckey c)" and "\<not> goes d i (ckey b)" and y: "y = tnode d p b q" and "splay i y = tnode d x' e y'"
  shows "splay i (tnode d x c y) = tnode d (tnode d x c x') e y'" "td_steps i (tnode d x c y) = Suc (td_steps i y)"
proof -
  have it: "td_iter i (tnode d x c y) [] [] = (y, push_frame d True (c, x) [], push_frame d False (c, x) [], True)"
    using td_iter_dir(2) [OF assms(1)] assms(2) by (simp add: y)
  show "splay i (tnode d x c y) = tnode d (tnode d x c x') e y'"
    using splay_unfold [OF it] assms(4) by (cases d) (simp_all add: tnode_def push_frame_def)
  show "td_steps i (tnode d x c y) = Suc (td_steps i y)"
    using td_steps_unfold [OF it] by (simp add: tnode_def)
qed

lemma splay_rotate_link:
  assumes "goes d i (ckey c)" and "goes d i (ckey b)" and "z \<noteq> Leaf" and "splay i z = tnode d x' e y'"
  shows "splay i (tnode d x c (tnode d y b z)) = tnode d (tnode d (tnode d x c y) b x') e y'"
    "td_steps i (tnode d x c (tnode d y b z)) = Suc (td_steps i z)"
proof -
  let ?t = "tnode d x c (tnode d y b z)" and ?f = "(b, tnode d x c y)"
  have it: "td_iter i ?t [] [] = (z, push_frame d True ?f [], push_frame d False ?f [], True)"
    using td_iter_dir(2) [OF assms(1)] assms(2,3) by simp
  show "splay i ?t = tnode d (tnode d (tnode d x c y) b x') e y'"
    using splay_unfold [OF it] assms(4) by (cases d) (simp_all add: tnode_def push_frame_def)
  show "td_steps i ?t = Suc (td_steps i z)"
    using td_steps_unfold [OF it] by (simp add: tnode_def)
qed

text \<open>The loop links fewer nodes than it has runs; these nodes are what the two size loops visit.\<close>

lemma linked_nodes:
  assumes "td i t ls rs = (t', ls', rs')" and "t \<noteq> Leaf"
  shows "length ls' + length rs' < length ls + length rs + td_steps i t"
  using assms
proof (induction t arbitrary: ls rs rule: measure_induct_rule [of size])
  case (less t)
  obtain t1 ls1 rs1 go_on where it: "td_iter i t ls rs = (t1, ls1, rs1, go_on)" by (metis prod_cases4)
  note steps = td_steps_unfold [OF it less.prems(2)]
  have len: "length ls1 + length rs1 = length ls + length rs + (if go_on then 1 else 0)" "go_on \<longrightarrow> t1 \<noteq> Leaf"
    using it by (auto simp: td_iter_def split: tree.splits if_splits)
  show ?case
  proof (cases go_on)
    case True
    then have "size t1 < size t" using it td_iter_smaller [of i t ls rs t1 ls1 rs1] by simp
    moreover have "td i t1 ls1 rs1 = (t', ls', rs')" using less.prems(1) it True by (simp add: td_unfold [of i t])
    ultimately show ?thesis using less.IH [of t1 ls1 rs1] steps len True by simp
  next
    case False
    then show ?thesis using less.prems(1) it steps len by (simp add: td_unfold [of i t])
  qed
qed

section \<open>The size loops\<close>

definition fix_runs :: "bool \<Rightarrow> 'd heap \<Rightarrow> addr \<Rightarrow> c_int \<Rightarrow> ('d heap \<times> nat) option" where
  "fix_runs d h y n = (if d then fix_left_runs h y n else fix_right_runs h y n)"

lemma fix_runs_unfold:
  "fix_runs d h y n =
     (if y = Null then Some (h, 0)
      else do {
        h \<leftarrow> set_size h y n;
        ny \<leftarrow> load h y;
        s \<leftarrow> node_size h (near d ny);
        (h, k) \<leftarrow> fix_runs d h (far d ny) (n - (1 + s));
        Some (h, Suc k) })"
  unfolding fix_runs_def far_def near_def
  by (cases d) (subst fix_left_runs.simps fix_right_runs.simps, simp)+

text \<open>On a spine that ends in \<^verbatim>\<open>NULL\<close> the loop runs once for each of its nodes.\<close>

lemma fix_runs_seg:
  assumes "seg d h q fs Null None" and "separate (faddrs fs)" and "fix_sizes d h q w = Some h'"
  shows "fix_runs d h q w = Some (h', length fs)"
  using assms
proof (induction fs arbitrary: h q w)
  case Nil
  then show ?case by (subst (asm) fix_sizes_unfold, subst fix_runs_unfold) simp
next
  case (Cons f fs)
  obtain p k dat t where f: "f = ((p, k, dat), t)" by (metis surj_pair)
  obtain m where m: "h p = Some m" "near d m = root t" "tree_at h t" "seg d h (far d m) fs Null None" "q = p"
    using Cons.prems(1) f by auto
  let ?h = "h(p \<mapsto> m\<lparr>n_size := w\<rparr>)"
  have S: "p \<notin> set (taddrs t)" "p \<notin> set (faddrs fs)" "p \<noteq> Null" "separate (faddrs fs)" "separate (taddrs t)"
    using Cons.prems(2) f by auto
  have "seg d ?h (far d m) fs Null None" using m(4) S(2) by simp
  moreover have sz: "node_size ?h (root t) = Some (word_of_nat (size t))"
    using m(3) S by (intro node_size_tree) (auto simp: separate_Null)
  moreover have "fix_sizes d ?h (far d m) (w - (1 + word_of_nat (size t))) = Some h'"
    using Cons.prems(3) m S(3) sz by (subst (asm) fix_sizes_unfold) (simp add: heap_simps)
  ultimately have "fix_runs d ?h (far d m) (w - (1 + word_of_nat (size t))) = Some (h', length fs)"
    using Cons.IH S(4) by blast
  then show ?case using m S(3) sz by (subst fix_runs_unfold) (simp add: heap_simps)
qed

lemma pinv_fix_runs:
  assumes "pinv h0 fr t e z w h" and "apart fr t" and "e d = Null" and "z d = None"
    and "load h Local_N = Some n0" and "fix_sizes d h (far d n0) v = Some h'"
  shows "fix_runs d h (far d n0) v = Some (h', length (fr d))"
proof -
  have "chain d h (fr d) (e d) (z d)" using assms(1) by (simp add: pinv_def)
  then have "seg d h (far d n0) (fr d) Null None" using assms(3-5) by (auto simp: chain_def load_def split: if_splits)
  then show ?thesis using fix_runs_seg apartD(1) [OF assms(2)] assms(6) by blast
qed

lemma finish_steps_eq:
  assumes P0: "pinv h0 fr (Node l c r) e (\<lambda>_. None) w h" and A: "apart fr (Node l c r)"
  shows "finish_steps (h, fst c, cptr (fr True), cptr (fr False),
      word_of_nat (fsize (fr True)), word_of_nat (fsize (fr False))) = Some (length (fr True) + length (fr False))"
proof -
  let ?w = "word_of_nat (fsize (fr True) + size l + (fsize (fr False) + size r) + 1) :: c_int"
  obtain h1 h2 h3 n3 h4 n4 h5 where sizes: "set_size h (fst c) ?w = Some h1"
      "set_far False h1 (cptr (fr False)) Null = Some h2" "set_far True h2 (cptr (fr True)) Null = Some h3"
    and n3: "load h3 Local_N = Some n3"
    and fix1: "fix_sizes True h3 (far True n3) (word_of_nat (fsize (fr True) + size l)) = Some h4"
    and n4: "load h4 Local_N = Some n4"
    and fix2: "fix_sizes False h4 (far False n4) (word_of_nat (fsize (fr False) + size r)) = Some h5"
    and P3: "pinv h0 fr (Node l c r) (e(False := Null, True := Null)) (\<lambda>_. None) ?w h3"
    and P4: "pinv h0 fr (Node l c r) (e(False := Null, True := Null)) ((\<lambda>_. None)(True := Some (size l))) ?w h4"
    and "pinv h0 fr (Node l c r) (e(False := Null, True := Null))
      ((\<lambda>_. None)(True := Some (size l), False := Some (size r))) ?w h5"
    by (rule pinv_sizes [OF P0 A])
  have runs: "fix_runs True h3 (far True n3) (word_of_nat (fsize (fr True) + size l)) = Some (h4, length (fr True))"
    "fix_runs False h4 (far False n4) (word_of_nat (fsize (fr False) + size r)) = Some (h5, length (fr False))"
    using pinv_fix_runs [OF P3 A _ _ n3 fix1] pinv_fix_runs [OF P4 A _ _ n4 fix2] by simp_all
  have sums: "word_of_nat (fsize (fr True)) + word_of_nat (size l) = (word_of_nat (fsize (fr True) + size l) :: c_int)"
    "word_of_nat (fsize (fr False)) + word_of_nat (size r) = (word_of_nat (fsize (fr False) + size r) :: c_int)"
    "word_of_nat (fsize (fr True) + size l) + word_of_nat (fsize (fr False) + size r) + 1 = ?w"
    by simp_all
  show ?thesis
    using pinv_load_root [OF P0 A] sizes n3 n4 runs
    by (simp add: finish_steps_def set_far_def fix_runs_def far_def Let_def sums del: of_nat_add fun_upd_apply)
qed

text \<open>All runs of one call, on trees: those of the descent and one for each node that it links.\<close>

definition td_runs :: "c_int \<Rightarrow> ('p, 'd) stree \<Rightarrow> nat" where
  "td_runs i t = td_steps i t + (case td i t [] [] of (_, ls, rs) \<Rightarrow> length ls + length rs)"

lemma td_runs_le: "td_runs i t \<le> 2 * td_steps i t"
proof (cases "t = Leaf")
  case True
  then show ?thesis by (simp add: td_runs_def td_unfold td_iter_def)
next
  case False
  obtain t' ls rs where "td i t [] [] = (t', ls, rs)" by (cases "td i t [] []") auto
  with linked_nodes [OF this False] show ?thesis by (simp add: td_runs_def)
qed

lemma td_runs_Leaf [simp]: "td_runs i Leaf = 0"
  using td_runs_le [of i Leaf] by simp

lemma splay_steps_td:
  assumes "holds_tree h t"
  shows "splay_steps g h (root t) i = Some (td_runs i t)"
proof (cases "t = Leaf")
  case False
  let ?s = "(h(Local_N \<mapsto> g\<lparr>n_left := Null, n_right := Null\<rparr>), root t, Local_N, Local_N, 0, 0)"
  have sep: "separate (taddrs t)" using assms by (simp add: holds_tree_def)
  obtain t' ls rs where td: "td i t [] [] = (t', ls, rs)" by (cases "td i t [] []") auto
  note start = linv_start [OF assms False, of g]
  obtain s' where s': "splay_loop_steps i ?s = Some (s', td_steps i t)"
    using splay_loop_steps_td [OF start sep, of i] by blast
  then have inv: "linv (taddrs t) h s' t' ls rs"
    using splay_loop_td [OF start sep, of i] td splay_loop_steps_loop [OF s'] by auto
  obtain l c r where t': "t' = Node l c r" using td_nonLeaf [OF td] False by (cases t') auto
  obtain h1 where s1: "s' = (h1, fst c, cptr ls, cptr rs, word_of_nat (fsize ls), word_of_nat (fsize rs))"
    using inv by (cases s') (auto simp: linv_def t')
  let ?fr = "\<lambda>d. if d then ls else rs"
  obtain e w where "pinv h ?fr (Node l c r) e (\<lambda>_. None) w h1" and "apart ?fr (Node l c r)"
    using linv_pinv [OF inv [unfolded s1 t'] sep] by blast
  then have "finish_steps s' = Some (length ls + length rs)" using finish_steps_eq [of h ?fr] by (simp add: s1)
  moreover have "root t \<noteq> Null" using False holds_tree_root [OF assms] by simp
  ultimately show ?thesis
    using s' td by (simp add: splay_steps_def td_runs_def del: fun_upd_apply)
qed (simp add: splay_steps_def)

section \<open>The potential of a tree\<close>

definition lg :: "nat \<Rightarrow> real" where
  "lg n = log 2 (real n)"

fun pot :: "'a tree \<Rightarrow> real" where
  "pot Leaf = 0"
| "pot (Node l c r) = pot l + pot r + lg (size1 l + size1 r)"

lemma lg_mono: "0 < m \<Longrightarrow> m \<le> n \<Longrightarrow> lg m \<le> lg n"
  by (simp add: lg_def)

lemma lg_nonneg: "0 < n \<Longrightarrow> 0 \<le> lg n"
  by (simp add: lg_def)

lemma size1_pos [simp]: "0 < size1 t"
  by (simp add: size1_size)

lemma pot_nonneg: "0 \<le> pot t"
  by (induction t) (auto intro!: add_nonneg_nonneg lg_nonneg)

text \<open>Two parts of a whole have on average at most half of it.\<close>

lemma lg_halves:
  assumes "0 < m" and "0 < n"
  shows "lg m + lg n + 2 \<le> 2 * lg (m + n)"
proof -
  have "0 \<le> (real m - real n)\<^sup>2" by simp
  then have "2 ^ 2 * (real m * real n) \<le> (real (m + n))\<^sup>2" by (simp add: power2_eq_square algebra_simps)
  then have "log 2 (2 ^ 2 * (real m * real n)) \<le> log 2 ((real (m + n))\<^sup>2)" using assms by (subst log_le_cancel_iff) simp_all
  moreover have "log 2 (2 ^ 2 * (real m * real n)) = log 2 (2 ^ 2) + log 2 (real m * real n)"
    using assms by (intro log_mult_pos) simp_all
  moreover have "log 2 (real m * real n) = lg m + lg n" using assms by (simp add: lg_def log_mult_pos)
  moreover have "log 2 ((real (m + n))\<^sup>2) = 2 * lg (m + n)" using assms by (simp add: lg_def log_nat_power)
  moreover have "log 2 ((2 :: real) ^ 2) = 2" by (subst log_nat_power) simp_all
  ultimately show ?thesis by linarith
qed

lemma lg_parts: "0 < m \<Longrightarrow> 0 < n \<Longrightarrow> m + n \<le> k \<Longrightarrow> lg m + lg n + 2 \<le> 2 * lg k"
  using lg_halves [of m n] lg_mono [of "m + n" k] by linarith

lemma tnode_size1 [simp]: "size1 (tnode d x c y) = size1 x + size1 y"
  by (simp add: tnode_def)

lemma pot_tnode [simp]: "pot (tnode d x c y) = pot x + pot y + lg (size1 x + size1 y)"
  by (simp add: tnode_def add.commute)

lemma size1_splay: "splay i t = tnode d x c y \<Longrightarrow> size1 x + size1 y = size1 t"
  using splay_facts(2) [of i t] tnode_size1 [of d x c y] by (simp add: size1_size)

lemma tnode_flip: "tnode (\<not> d) x c y = tnode d y c x"
  by (simp add: tnode_def)

section \<open>The amortised cost of a splay\<close>

definition paid :: "c_int \<Rightarrow> ('p, 'd) stree \<Rightarrow> bool" where
  "paid i t \<longleftrightarrow> real (td_steps i t) + pot (splay i t) \<le> pot t + 3 * lg (size1 t) + 1"

text \<open>The root keeps its rank, so the claim is one about the two sides of the result.\<close>

lemma paid_iff:
  assumes "splay i t = tnode d x e y"
  shows "paid i t \<longleftrightarrow> real (td_steps i t) + pot x + pot y \<le> pot t + 2 * lg (size1 t) + 1"
  using size1_splay [OF assms] by (auto simp: paid_def assms)

text \<open>The last run of the body.\<close>

definition stops :: "c_int \<Rightarrow> ('p, 'd) stree \<Rightarrow> bool" where
  "stops i t \<longleftrightarrow> td_steps i t = 1 \<and> pot (splay i t) \<le> pot t + lg (size1 t)"

lemma stops_here:
  assumes "td_iter i t [] [] = (t, ls, rs, False)" and "t \<noteq> Leaf"
  shows "stops i t"
proof -
  obtain l c r where "t = Node l c r" using assms(2) by (cases t) auto
  then show ?thesis
    using splay_end [of i t l c r ls rs] assms(1) lg_nonneg [OF size1_pos, of t] by (simp add: stops_def)
qed

lemma stops_rotated:
  assumes "goes d i (ckey c)" and "goes d i (ckey b)"
  shows "stops i (tnode d x c (tnode d y b Leaf))"
proof -
  let ?t = "tnode d x c (tnode d y b Leaf)" and ?u = "tnode d (tnode d x c y) b Leaf"
  have it: "td_iter i ?t [] [] = (?u, [], [], False)" using td_iter_dir(2) [OF assms(1)] assms(2) by simp
  obtain l r where u: "?u = Node l b r" by (cases d) (auto simp: tnode_def)
  have "splay i ?t = ?u" "td_steps i ?t = 1" using splay_end [OF it [unfolded u]] u by simp_all
  moreover have "lg (size1 x + size1 y) \<le> lg (size1 ?t)" by (rule lg_mono) (simp_all add: size1_pos)
  moreover have "0 \<le> lg (size1 y + 1)" by (rule lg_nonneg) simp
  ultimately show ?thesis by (simp add: stops_def ac_simps)
qed

lemma stops_paid: "stops i t \<Longrightarrow> paid i t"
  using lg_nonneg [OF size1_pos, of t] by (simp add: stops_def paid_def)

lemma lg_2: "t \<noteq> Leaf \<Longrightarrow> 1 \<le> lg (size1 t)"
  using lg_mono [of 2 "size1 t"] by (cases t) (auto simp: size1_size lg_def)

text \<open>A link, and then the last run.\<close>

lemma link_stop_paid:
  assumes "goes d i (ckey c)" and "\<not> goes d i (ckey b)" and y: "y = tnode d p b q" and "stops i y"
  shows "paid i (tnode d x c y)"
proof -
  let ?t = "tnode d x c y"
  have "splay i y \<noteq> Leaf" using y by (simp add: tnode_def)
  then obtain x' e y' where sp: "splay i y = tnode d x' e y'" using tnode_cases by blast
  note link = splay_link [OF assms(1,2) y sp, of x] and sz = size1_splay [OF sp]
  have "lg (size1 x + size1 x') \<le> lg (size1 ?t)" by (rule lg_mono) (use sz in \<open>simp_all add: size1_pos\<close>)
  moreover have "pot x' + pot y' \<le> pot y" using assms(4) sp sz by (simp add: stops_def)
  moreover have "1 \<le> lg (size1 ?t)" by (rule lg_2) (simp add: tnode_def)
  ultimately show ?thesis using assms(4) by (simp add: paid_iff [OF link(1)] link(2) stops_def)
qed

text \<open>Two steps in the same direction.\<close>

lemma zig_zig_paid:
  assumes "goes d i (ckey c)" and "goes d i (ckey b)" and "z \<noteq> Leaf" and "paid i z"
  shows "paid i (tnode d x c (tnode d y b z))"
proof -
  let ?t = "tnode d x c (tnode d y b z)"
  have "splay i z \<noteq> Leaf" using assms(3) by simp
  then obtain x' e y' where sp: "splay i z = tnode d x' e y'" using tnode_cases by blast
  note zz = splay_rotate_link [OF assms(1-3) sp, of x y] and sz = size1_splay [OF sp]
  have "lg (size1 x + size1 y + size1 x') \<le> lg (size1 ?t)" by (rule lg_mono) (use sz in \<open>simp_all add: size1_pos\<close>)
  moreover have "lg (size1 z) \<le> lg (size1 y + size1 z)" by (rule lg_mono) (simp_all add: size1_pos)
  moreover have "lg (size1 x + size1 y) + lg (size1 z) + 2 \<le> 2 * lg (size1 ?t)"
    by (rule lg_parts) (simp_all add: size1_pos)
  ultimately show ?thesis using assms(4) by (simp add: paid_iff [OF zz(1)] paid_iff [OF sp] zz(2) ac_simps)
qed

text \<open>
  A link and then a link in the opposite direction. \<open>k\<close> is the node of the second link with its side \<open>a\<close>;
  the two sides of the result are disjoint parts of the tree, which pays for both links.
\<close>

lemma zig_zag_paid:
  assumes "goes d i (ckey c)" and "\<not> goes d i (ckey b)" and y: "y = tnode d p b q"
    and sp: "splay i y = tnode (\<not> d) (tnode (\<not> d) a k x') e y'"
    and "real (td_steps i y) + pot a + pot x' + pot y' \<le> pot y + lg (size1 y) + 2"
  shows "paid i (tnode d x c y)"
proof -
  let ?t = "tnode d x c y"
  note link = splay_link [OF assms(1,2) y sp [unfolded tnode_flip [of d _ e]], of x]
  have "lg (size1 x + size1 y') + lg (size1 a + size1 x') + 2 \<le> 2 * lg (size1 ?t)"
    by (rule lg_parts) (use size1_splay [OF sp] in simp_all)
  moreover have "lg (size1 y) \<le> lg (size1 ?t)" by (rule lg_mono) simp_all
  ultimately show ?thesis using assms(5) by (simp add: paid_iff [OF link(1)] link(2))
qed

lemma second_link:
  assumes "goes d i (ckey b)" and "\<not> goes d i (ckey f)" and w: "w = tnode d p f q" and "paid i w"
  shows "\<exists>x' e y'. splay i (tnode d a b w) = tnode d (tnode d a b x') e y' \<and>
    real (td_steps i (tnode d a b w)) + pot a + pot x' + pot y' \<le> pot (tnode d a b w) + lg (size1 (tnode d a b w)) + 2"
proof -
  have "splay i w \<noteq> Leaf" using w by (simp add: tnode_def)
  then obtain x' e y' where sp: "splay i w = tnode d x' e y'" using tnode_cases by blast
  moreover have "lg (size1 w) \<le> lg (size1 a + size1 w)" by (rule lg_mono) simp_all
  ultimately show ?thesis
    using splay_link [OF assms(1,2) w sp, of a] assms(4)
    by (intro exI [of _ x'] exI [of _ e] exI [of _ y']) (simp add: paid_iff [OF sp])
qed

lemma second_rotate_link:
  assumes "goes d i (ckey b)" and "goes d i (ckey f)" and "v \<noteq> Leaf" and "paid i v"
  shows "\<exists>x' e y'. splay i (tnode d a b (tnode d m f v)) = tnode d (tnode d (tnode d a b m) f x') e y' \<and>
    real (td_steps i (tnode d a b (tnode d m f v))) + pot (tnode d a b m) + pot x' + pot y'
      \<le> pot (tnode d a b (tnode d m f v)) + lg (size1 (tnode d a b (tnode d m f v))) + 2"
proof -
  have "splay i v \<noteq> Leaf" using assms(3) by simp
  then obtain x' e y' where sp: "splay i v = tnode d x' e y'" using tnode_cases by blast
  moreover have "lg (size1 v) \<le> lg (size1 m + size1 v)" "lg (size1 v) \<le> lg (size1 a + (size1 m + size1 v))"
      "lg (size1 a + size1 m) \<le> lg (size1 a + (size1 m + size1 v))"
    by (rule lg_mono; simp)+
  ultimately show ?thesis
    using splay_rotate_link [OF assms(1-3) sp, of a m] assms(4)
    by (intro exI [of _ x'] exI [of _ e] exI [of _ y']) (simp add: paid_iff [OF sp])
qed

text \<open>Every splay is paid for: its runs and the change of the potential stay within the logarithm of the size.\<close>

lemma link_paid:
  fixes y :: "('p, 'd) stree"
  assumes "goes d i (ckey c)" and "\<not> goes d i (ckey b)" and y: "y = tnode d p b q"
    and IH: "\<And>u :: ('p, 'd) stree. size u < size y \<Longrightarrow> u \<noteq> Leaf \<Longrightarrow> paid i u"
  shows "paid i (tnode d x c y)"
proof -
  note zz = zig_zag_paid [OF assms(1,2) y] and stop = link_stop_paid [OF assms(1,2) y]
  have "y \<noteq> Leaf" by (simp add: y tnode_def)
  show ?thesis
  proof (cases "goes (\<not> d) i (ckey b)")
    case False
    then have "\<not> goes d' i (ckey b)" for d' using assms(2) by (cases d; cases d') simp_all
    then have "td_iter i y [] [] = (y, [], [], False)" unfolding y tnode_def by (auto simp: td_iter_here)
    then show ?thesis using stop stops_here [OF _ \<open>y \<noteq> Leaf\<close>] by blast
  next
    case True
    have y': "y = tnode (\<not> d) q b p" by (simp add: y tnode_flip)
    show ?thesis
    proof (cases "p = Leaf")
      case True
      then have "td_iter i y [] [] = (y, [], [], False)" using td_iter_dir(1) [OF \<open>goes (\<not> d) i (ckey b)\<close>] by (simp add: y')
      then show ?thesis using stop stops_here [OF _ \<open>y \<noteq> Leaf\<close>] by blast
    next
      case False
      then obtain m f v where p: "p = tnode (\<not> d) m f v" using tnode_cases by blast
      have less: "size p < size y" "size v < size y" by (simp_all add: y' p tnode_def)
      consider "\<not> goes (\<not> d) i (ckey f)" | "goes (\<not> d) i (ckey f)" "v = Leaf" | "goes (\<not> d) i (ckey f)" "v \<noteq> Leaf" by blast
      then show ?thesis
      proof cases
        case 1
        then show ?thesis using second_link [OF True 1 p IH [OF less(1) False], of q] zz y' by metis
      next
        case 2
        then show ?thesis using stops_rotated [OF True 2(1)] stop y' p by simp
      next
        case 3
        then show ?thesis using second_rotate_link [OF True 3 IH [OF less(2) 3(2)], of q m] zz y' p by metis
      qed
    qed
  qed
qed

lemma splay_paid: "t \<noteq> Leaf \<Longrightarrow> paid i t"
proof (induction t rule: measure_induct_rule [of size])
  case (less t)
  from less.prems show ?case
  proof (cases rule: stree_cases [where i = i])
    case (here l c r)
    then show ?thesis using stops_paid stops_here td_iter_here [OF here(2)] less.prems by metis
  next
    case (goes d x c y)
    show ?thesis
    proof (cases "y = Leaf")
      case True
      then show ?thesis using stops_paid stops_here td_iter_dir(1) [OF goes(2)] goes(1) less.prems by metis
    next
      case False
      then obtain p b q where y: "y = tnode d p b q" using tnode_cases by blast
      have sz: "size y < size t" "size q < size t" by (simp_all add: goes(1) y tnode_def)
      consider "\<not> goes d i (ckey b)" | "goes d i (ckey b)" "q = Leaf" | "goes d i (ckey b)" "q \<noteq> Leaf" by blast
      then show ?thesis
      proof cases
        case 1
        then show ?thesis
          unfolding goes(1) by (rule link_paid [OF goes(2) _ y]) (use less.IH less_trans [OF _ sz(1)] in blast)
      next
        case 2
        then show ?thesis unfolding goes(1) y 2(2) by (intro stops_paid stops_rotated goes(2))
      next
        case 3
        then show ?thesis using zig_zig_paid [OF goes(2) 3 less.IH [OF sz(2) 3(2)]] by (simp add: goes(1) y)
      qed
    qed
  qed
qed

section \<open>The cost of insertion and deletion\<close>

lemma splay_cost:
  assumes "splay i t = Node l c r"
  shows "real (td_steps i t) + pot l + pot r \<le> pot t + 2 * lg (size1 t) + 1" "size1 l + size1 r = size1 t"
proof -
  have "t \<noteq> Leaf" using assms by auto
  moreover have n: "splay i t = tnode True l c r" using assms by (simp add: tnode_def)
  ultimately show "real (td_steps i t) + pot l + pot r \<le> pot t + 2 * lg (size1 t) + 1" "size1 l + size1 r = size1 t"
    using splay_paid [of t i] paid_iff [OF n] size1_splay [OF n] by simp_all
qed

lemma lg_Suc: "lg (size1 t) \<le> lg (size1 t + 1)" "1 \<le> lg (size1 t + 1)"
  using lg_mono [of "size1 t" "size1 t + 1"] lg_mono [of 2 "size1 t + 1"] by (simp_all add: size1_size lg_def)

lemma insert_cost: "real (td_steps i t) + pot (s_insert t i d p) \<le> pot t + 4 * lg (size1 t + 1) + 1"
proof (cases "splay i t")
  case Leaf
  then show ?thesis using lg_Suc(2) [of t] by (simp add: s_insert_def lg_def)
next
  case (Node l c r)
  note cost = splay_cost [OF Node]
  have "lg (1 + size1 r) \<le> lg (size1 t + 1)" "lg (size1 l + 1) \<le> lg (size1 t + 1)"
    using cost(2) by (auto intro!: lg_mono)
  then show ?thesis
    using cost lg_Suc [of t] Node by (auto simp: s_insert_def algebra_simps)
qed

definition second_steps :: "c_int \<Rightarrow> ('p, 'd) stree \<Rightarrow> nat" where
  "second_steps i t = (case t of Leaf \<Rightarrow> 0 | Node l c r \<Rightarrow> if ckey c = i then td_steps i l else 0)"

definition second_runs :: "c_int \<Rightarrow> ('p, 'd) stree \<Rightarrow> nat" where
  "second_runs i t = (case t of Leaf \<Rightarrow> 0 | Node l c r \<Rightarrow> if ckey c = i then td_runs i l else 0)"

lemma second_runs_le: "second_runs i t \<le> 2 * second_steps i t"
  using td_runs_le by (auto simp: second_runs_def second_steps_def split: tree.split)

lemma delete_cost:
  "real (td_steps i t + second_steps i (splay i t)) + pot (s_delete t i) \<le> pot t + 5 * lg (size1 t + 1) + 2"
proof (cases "splay i t")
  case Leaf
  then have "t = Leaf" by simp
  then show ?thesis using lg_Suc(2) [of t] by (simp add: s_delete_def second_steps_def)
next
  case (Node l c r)
  note cost = splay_cost [OF Node] and up = lg_Suc [of t]
  show ?thesis
  proof (cases "ckey c = i \<and> l \<noteq> Leaf")
    case False
    then show ?thesis
      using cost Node up pot_nonneg [of l]
      by (auto simp: s_delete_def second_steps_def)
  next
    case True
    then obtain xl x xr where x: "splay i l = Node xl x xr" by (cases "splay i l") auto
    note second = splay_cost [OF x]
    have "lg (size1 l) \<le> lg (size1 t)" "lg (size1 xl + size1 r) \<le> lg (size1 t)"
      using cost(2) second(2) by (auto intro!: lg_mono)
    then show ?thesis
      using cost second Node up x True pot_nonneg [of xr] by (simp add: s_delete_def second_steps_def)
  qed
qed

section \<open>The potential method\<close>

locale potential_method =
  fixes step :: "'s \<Rightarrow> 'o \<Rightarrow> 's"
    and cost :: "'s \<Rightarrow> 'o \<Rightarrow> nat"
    and potential :: "'s \<Rightarrow> real"
    and bound :: "'s \<Rightarrow> 'o \<Rightarrow> real"
  assumes potential_nonneg: "0 \<le> potential s"
    and amortised: "real (cost s op) + potential (step s op) \<le> potential s + bound s op"
begin

fun total :: "'s \<Rightarrow> 'o list \<Rightarrow> nat" where
  "total s [] = 0"
| "total s (op # ops) = cost s op + total (step s op) ops"

lemma total_le:
  assumes "\<And>k. k < length ops \<Longrightarrow> bound (foldl step s (take k ops)) (ops ! k) \<le> b"
  shows "real (total s ops) \<le> potential s + real (length ops) * b"
  using assms
proof (induction ops arbitrary: s)
  case (Cons op ops)
  have "bound s op \<le> b" using Cons.prems [of 0] by simp
  moreover have "real (total (step s op) ops) \<le> potential (step s op) + real (length ops) * b"
    using Cons.prems [of "Suc k" for k] by (intro Cons.IH) simp
  moreover note amortised [of s op]
  ultimately show ?case by (simp add: algebra_simps)
qed (simp add: potential_nonneg)

end

text \<open>The operations of the splay tree, on trees.\<close>

primrec tree_steps :: "('p, 'd) stree \<Rightarrow> (c_int, 'd, 'p) store_op \<Rightarrow> nat" where
  "tree_steps t (Put k d m) = td_runs k t"
| "tree_steps t (Drop k) = td_runs k t + second_runs k (splay k t)"

definition tree_bound :: "('p, 'd) stree \<Rightarrow> (c_int, 'd, 'p) store_op \<Rightarrow> real" where
  "tree_bound t op = 10 * lg (size1 t + 1) + 4"

interpretation amt: potential_method spl.apply_op tree_steps "\<lambda>t. 2 * pot t" tree_bound
proof
  show "0 \<le> 2 * pot t" for t :: "('p, 'd) stree" using pot_nonneg [of t] by simp
next
  fix t :: "('p, 'd) stree" and op
  show "real (tree_steps t op) + 2 * pot (spl.apply_op t op) \<le> 2 * pot t + tree_bound t op"
  proof (cases op)
    case (Put k d m)
    have "real (td_runs k t) \<le> 2 * real (td_steps k t)" using td_runs_le [of k t] by linarith
    then show ?thesis using Put insert_cost [of k t d m] lg_Suc(2) [of t] by (simp add: tree_bound_def)
  next
    case (Drop k)
    have "real (td_runs k t) \<le> 2 * real (td_steps k t)"
      "real (second_runs k (splay k t)) \<le> 2 * real (second_steps k (splay k t))"
      using td_runs_le [of k t] second_runs_le [of k "splay k t"] by linarith+
    then show ?thesis using Drop delete_cost [of k t] by (simp add: tree_bound_def)
  qed
qed

lemma size_apply_op: "size (spl.apply_op t op) \<le> Suc (size t)"
proof (cases op)
  case (Put k d m)
  then show ?thesis
    using splay_size_Node [of k t] by (fastforce simp: s_insert_def split: tree.split)
next
  case (Drop k)
  then show ?thesis
    using splay_size_Node [of k] by (fastforce simp: s_delete_def split: tree.split)
qed

lemma size_run: "size (foldl spl.apply_op t ops) \<le> size t + length ops"
proof (induction ops arbitrary: t)
  case (Cons op ops)
  from Cons [of "spl.apply_op t op"] size_apply_op [of t op] show ?case by simp
qed simp

section \<open>Back to the heap\<close>

lemma delete_steps_tree:
  assumes "holds_tree h t" and "h Local_N = None"
  shows "delete_steps g h (root t) i = Some (td_runs i t + second_runs i (splay i t))"
proof (cases "splay i t")
  case Leaf
  then show ?thesis by (simp add: delete_steps_def second_runs_def)
next
  case (Node l c r)
  obtain h1 where h1: "splaytree_splay g h (root t) i = Some (h1, root (splay i t))" "holds_tree h1 (Node l c r)"
    using splay_refines [OF assms, of g i] Node by auto
  note N = h1(2) [unfolded holds_tree_Node]
  have "root t \<noteq> Null" using Node holds_tree_root [OF assms(1)] by auto
  moreover have "root l = Null \<longleftrightarrow> l = Leaf" using N holds_tree_root by blast
  moreover have "splay_steps g h1 (root l) i = Some (td_runs i l)" using N splay_steps_td by blast
  ultimately show ?thesis
    using h1(1) N splay_steps_td [OF assms(1)] by (auto simp: delete_steps_def second_runs_def Node load_def)
qed

lemma op_steps_tree:
  assumes "holds_tree h t" and "h Local_N = None"
  shows "op_steps g (h, root t) op = Some (tree_steps t op)"
  using splay_steps_td [OF assms(1)] delete_steps_tree [OF assms] by (cases op) simp_all

lemma run_steps_tree:
  assumes "holds_tree h t" and "wf_stree t" and "h Local_N = None"
    and "\<forall>op \<in> set ops. 0 \<le>s op_key op" and "fresh_for g (h, root t) ops"
  shows "run_steps g (h, root t) ops = Some (amt.total t ops)"
  using assms
proof (induction ops arbitrary: h t)
  case (Cons op ops)
  then have "0 \<le>s op_key op" by simp
  then obtain h1 where h1: "heap_op g (h, root t) op = Some (h1, root (spl.apply_op t op))"
      "holds_tree h1 (spl.apply_op t op)" "h1 Local_N = None" "fresh_for g (h1, root (spl.apply_op t op)) ops"
    using heap_op_refines [OF Cons.prems(1-3) _ Cons.prems(5)] by blast
  moreover have "wf_stree (spl.apply_op t op)"
    using spl.apply_op_correct(1) [OF Cons.prems(2)] Cons.prems(4) by simp
  ultimately show ?case
    using Cons.IH [of h1 "spl.apply_op t op"] Cons.prems(4) op_steps_tree [OF Cons.prems(1,3)] by simp
qed simp

section \<open>Properties\<close>

text \<open>
  C2: the amortised logarithmic performance that the introduction of \<^verbatim>\<open>splaytree.c\<close> claims. In every
  session of \<open>m\<close> insertions and deletions with non-negative keys on the heap, started on an empty tree, with any
  behaviour of \<^verbatim>\<open>malloc\<close> that returns unused blocks, the bodies of the loops of \<^verbatim>\<open>splaytree_splay\<close>, the descent and the two that correct the sizes, run
  at most \<open>m (10 log (m + 1) + 4)\<close> times altogether, all calls of all operations counted.
\<close>

theorem splaytree_session_logarithmic:
  assumes "h Local_N = None" and "\<forall>op \<in> set ops. 0 \<le>s op_key op" and "fresh_for g (h, Null) ops"
  shows "\<exists>n. run_steps g (h, Null) ops = Some n \<and>
    real n \<le> real (length ops) * (10 * log 2 (real (length ops) + 1) + 4)"
proof -
  let ?b = "10 * lg (length ops + 1) + 4"
  have "tree_bound (foldl spl.apply_op Leaf (take k ops)) (ops ! k) \<le> ?b" if "k < length ops" for k
  proof -
    have "size1 (foldl spl.apply_op Leaf (take k ops)) + 1 \<le> length ops + 1"
      using size_run [of Leaf "take k ops"] that by (simp add: size1_size)
    then show ?thesis using lg_mono by (simp add: tree_bound_def)
  qed
  then have "real (amt.total Leaf ops) \<le> real (length ops) * ?b" using amt.total_le [of ops Leaf ?b] by simp
  then show ?thesis
    using run_steps_tree [of h Leaf ops g, OF holds_tree_Leaf spl.invar_empty assms(1,2)] assms(3) by (simp add: lg_def add.commute)
qed

theorem splaytree_session_logarithmic_witness:
  "\<exists>n. run_steps ex_garbage (Map.empty, Null) ex_session = Some n \<and> real n \<le> 4 * (10 * log 2 5 + 4)"
  using splaytree_session_logarithmic [OF _ ex_session_ok] by (simp add: ex_session_def)

end
