(* ===== verification/Splay_Rank.thy ===== *)
theory Splay_Rank
  imports Splay_Ops
begin

text \<open>
  What the size fields of \<^verbatim>\<open>splaytree.c\<close> are for: \<^verbatim>\<open>find_rank\<close>, which the file holds between \<^verbatim>\<open>#if 0\<close> and
  \<^verbatim>\<open>#endif\<close>. The fields that the other operations keep make it right, as long as the tree has
  fewer than \<open>2 ^ 31\<close> nodes, so that its size is an \<^verbatim>\<open>int\<close>.
\<close>

section \<open>Definitions\<close>

partial_function (option) rank_loop :: "'d heap \<Rightarrow> c_int \<Rightarrow> addr \<Rightarrow> addr option" where
  "rank_loop h r t = do {
     nt \<leftarrow> load h t;
     lsize \<leftarrow> node_size h (n_left nt);
     if r <s lsize then rank_loop h r (n_left nt)
     else if lsize <s r then rank_loop h (r - lsize - 1) (n_right nt)
     else Some t }"

definition find_rank :: "'d heap \<Rightarrow> c_int \<Rightarrow> addr \<Rightarrow> addr option" where
  "find_rank h r t = do {
     n \<leftarrow> node_size h t;
     if r <s 0 \<or> n \<le>s r then Some Null else rank_loop h r t }"

section \<open>Sizes as C integers\<close>

lemma sint_of_size: "n < 2 ^ 31 \<Longrightarrow> sint (word_of_nat n :: c_int) = int n"
  by (simp add: sint_uint unsigned_of_nat signed_take_bit_int_eq_self take_bit_nat_eq_self)

lemma of_size_sless: "m < 2 ^ 31 \<Longrightarrow> n < 2 ^ 31 \<Longrightarrow> (word_of_nat m :: c_int) <s word_of_nat n \<longleftrightarrow> m < n"
  by (simp add: word_sless_alt sint_of_size)

lemma nonneg_of_size: "0 \<le>s r \<Longrightarrow> word_of_nat (nat (sint r)) = (r :: c_int)"
  by (simp add: word_sle_eq)

section \<open>The rank of a node\<close>

lemma rank_loop_nth:
  assumes "holds_tree h t" and "size t < 2 ^ 31" and "k < size t"
  shows "rank_loop h (word_of_nat k) (root t) = Some (taddrs t ! k)"
  using assms
proof (induction t arbitrary: k)
  case (Node l c r)
  note N = Node.prems(1) [unfolded holds_tree_Node]
  have len: "length (taddrs l) = size l" "length (taddrs r) = size r" by (simp_all add: taddrs_def)
  have small: "k < 2 ^ 31" "size l < 2 ^ 31" using Node.prems by simp_all
  have "node_size h (root l) = Some (word_of_nat (size l))" using N holds_tree_size by blast
  then have loop: "rank_loop h (word_of_nat k) (fst c) =
      (if k < size l then rank_loop h (word_of_nat k) (root l)
       else if size l < k then rank_loop h (word_of_nat k - word_of_nat (size l) - 1) (root r)
       else Some (fst c))"
    using N small by (subst rank_loop.simps) (simp add: load_def of_size_sless)
  consider "k < size l" | "k = size l" | j where "k = size l + 1 + j"
    using less_imp_Suc_add [of "size l" k] by fastforce
  then show ?case
  proof cases
    case 1
    then show ?thesis using loop Node.IH(1) [of k] N Node.prems(2) len by (simp add: nth_append)
  next
    case 2
    then show ?thesis using loop len by (simp add: nth_append)
  next
    case (3 j)
    then have "word_of_nat k - word_of_nat (size l) - 1 = (word_of_nat j :: c_int)" by simp
    then show ?thesis using 3 loop Node.IH(2) [of j] N Node.prems(2,3) len by (simp add: nth_append)
  qed
qed simp

text \<open>
  on every heap that holds a tree of fewer than \<open>2 ^ 31\<close> nodes, \<^verbatim>\<open>find_rank\<close> returns, and what it returns is the
  address of the node with \<open>r\<close> nodes before it in the order of the tree, or \<^verbatim>\<open>NULL\<close> if there is none.
\<close>

theorem find_rank_correct:
  assumes "holds_tree h t" and "size t < 2 ^ 31"
  shows "find_rank h r (root t) =
    Some (if 0 \<le> sint r \<and> nat (sint r) < size t then fst (inorder t ! nat (sint r)) else Null)"
proof -
  have n: "node_size h (root t) = Some (word_of_nat (size t))" using holds_tree_size [OF assms(1)] .
  show ?thesis
  proof (cases "0 \<le> sint r \<and> nat (sint r) < size t")
    case True
    then have "rank_loop h r (root t) = Some (taddrs t ! nat (sint r))"
      using rank_loop_nth [OF assms, of "nat (sint r)"] nonneg_of_size [of r] by (simp add: word_sle_eq)
    then show ?thesis
      using True n assms(2) by (auto simp: find_rank_def taddrs_def word_sless_alt word_sle_eq sint_of_size)
  next
    case False
    then show ?thesis
      using n assms(2) by (auto simp: find_rank_def word_sless_alt word_sle_eq sint_of_size)
  qed
qed

theorem find_rank_correct_witness:
  "find_rank ex_heap 1 (Mem 3) = Some (Mem 2) \<and> find_rank ex_heap 3 (Mem 3) = Some Null"
  using find_rank_correct [OF ex_heap_ok(1), of 1] find_rank_correct [OF ex_heap_ok(1), of 3]
  by (simp add: ex_heap_ok(5)) (simp add: ex_tree_def)

end
