(* ===== verification/Buffer.thy ===== *)
theory Buffer
  imports Prelude
begin

text \<open>
  \<^verbatim>\<open>buffer.cpp\<close> and \<^verbatim>\<open>mq_def.cpp\<close>: the byte buffer and the envelope the message queue server puts
  around a message. \<^verbatim>\<open>push_back\<close> never advances \<^verbatim>\<open>_len\<close>, so every chunk overwrites the previous one at
  offset 0; the lemmas say what the buffer holds as a consequence, and that the envelope works
  nevertheless.
\<close>

section \<open>The buffer\<close>

record buffer =
  b_ptr :: "byte list"
  b_size :: int
  b_len :: int

definition BUFSIZE :: nat where
  "BUFSIZE = 1024"

definition new_buffer :: buffer where
  "new_buffer = \<lparr>b_ptr = replicate BUFSIZE 0, b_size = int BUFSIZE, b_len = 0\<rparr>"

definition buffer_length :: "buffer \<Rightarrow> int" where
  "buffer_length b = b_len b"

definition ptr :: "buffer \<Rightarrow> byte list" where
  "ptr b = b_ptr b"

text \<open>\<^verbatim>\<open>expand\<close> allocates, copies \<^verbatim>\<open>_len\<close> bytes and returns true; memory is assumed to suffice.\<close>

definition expand :: "buffer \<Rightarrow> (buffer \<times> bool) result" where
  "expand b =
     (let new_ptr = replicate (nat (2 * b_size b)) 0;
          size = b_size b * 2
      in res_bind (c_memcpy new_ptr 0 (b_ptr b) 0 (nat (b_len b))) (\<lambda>new_ptr.
           Inr (b\<lparr>b_ptr := new_ptr, b_size := size\<rparr>, True)))"

text \<open>\<open>buf\<close> is the memory \<^verbatim>\<open>push_back\<close> copies from.\<close>

definition push_back :: "buffer \<Rightarrow> byte list \<Rightarrow> nat \<Rightarrow> buffer result" where
  "push_back b buf len =
     res_bind (if int len + b_len b > 2 * b_size b div 3 then expand b else Inr (b, True)) (\<lambda>(b, ok).
       if \<not> ok then Inr b
       else res_bind (c_memcpy (b_ptr b) (nat (b_len b)) buf 0 len) (\<lambda>p. Inr (b\<lparr>b_ptr := p\<rparr>)))"

section \<open>The envelope\<close>

definition encode_mq_msg :: "byte list \<Rightarrow> buffer result" where
  "encode_mq_msg msg_content =
     (let style = 0x1 in
      res_bind (push_back new_buffer [style] 1) (\<lambda>msg.
      res_bind (c_strlen msg_content) (\<lambda>n.
      res_bind (push_back msg msg_content n) (\<lambda>msg.
      push_back msg [style] 1))))"

text \<open>\<^verbatim>\<open>std::string::substr(1, length() - 2)\<close>: the second argument is unsigned, so a short string gives its whole rest.\<close>

definition substr :: "byte list \<Rightarrow> nat \<Rightarrow> nat \<Rightarrow> byte list result" where
  "substr s pos n = (if pos \<le> length s then Inr (take n (drop pos s)) else Inl Thrown)"

definition size_t_diff :: "nat \<Rightarrow> nat \<Rightarrow> nat" where
  "size_t_diff a b = (a + 2 ^ 64 - b) mod 2 ^ 64"

definition decode_mq_msg :: "buffer \<Rightarrow> byte list result" where
  "decode_mq_msg msg =
     res_bind (c_strlen (ptr msg)) (\<lambda>_.
       let dec_msg = c_str (ptr msg) in substr dec_msg 1 (size_t_diff (length dec_msg) 2))"

section \<open>What the buffer holds\<close>

definition wf_buffer :: "buffer \<Rightarrow> bool" where
  "wf_buffer b \<longleftrightarrow> b_len b = 0 \<and> int (length (b_ptr b)) = b_size b \<and> int BUFSIZE \<le> b_size b"

lemma wf_new_buffer [simp]: "wf_buffer new_buffer"
  by (simp add: wf_buffer_def new_buffer_def)

lemma expand_ok:
  assumes "wf_buffer b"
  shows "expand b = Inr (b\<lparr>b_ptr := replicate (2 * length (b_ptr b)) 0, b_size := 2 * b_size b\<rparr>, True)"
proof -
  have "b_size b = int (length (b_ptr b))" using assms by (simp add: wf_buffer_def)
  then have "nat (2 * b_size b) = 2 * length (b_ptr b)" by (simp add: nat_mult_distrib)
  then show ?thesis
    using assms by (simp add: expand_def wf_buffer_def c_memcpy_def mem_write_def Let_def)
qed

text \<open>The memory the chunk is copied into: the old one, or a fresh one of twice the size.\<close>

definition grown :: "buffer \<Rightarrow> nat \<Rightarrow> byte list" where
  "grown b len = (if int len > 2 * b_size b div 3 then replicate (2 * length (b_ptr b)) 0 else b_ptr b)"

lemma push_back_eq:
  assumes "wf_buffer b" and "len \<le> length buf"
  shows "push_back b buf len =
    (if len \<le> length (grown b len)
     then Inr (b\<lparr>b_ptr := take len buf @ drop len (grown b len), b_size := int (length (grown b len))\<rparr>)
     else Inl Out_of_bounds)"
  using assms expand_ok [OF assms(1)]
  by (auto simp: push_back_def grown_def wf_buffer_def c_memcpy_def mem_write_def min_def)

lemma wf_push_back:
  assumes "wf_buffer b" and "push_back b buf len = Inr b'"
  shows "wf_buffer b'"
proof (cases "len \<le> length buf")
  case True
  then show ?thesis
    using assms push_back_eq [OF assms(1) True]
    by (auto simp: wf_buffer_def grown_def min_def split: if_splits)
next
  case False
  then show ?thesis
    using assms expand_ok [OF assms(1)] by (auto simp: push_back_def c_memcpy_def split: if_splits)
qed

fun push_all :: "buffer \<Rightarrow> byte list list \<Rightarrow> buffer result" where
  "push_all b [] = Inr b"
| "push_all b (c # cs) = res_bind (push_back b c (length c)) (\<lambda>b. push_all b cs)"

lemma wf_push_all: "wf_buffer b \<Longrightarrow> push_all b cs = Inr b' \<Longrightarrow> wf_buffer b'"
  by (induction cs arbitrary: b) (auto simp: res_bind_Inr_iff intro: wf_push_back)

lemma push_all_append: "push_all b (cs @ ds) = res_bind (push_all b cs) (\<lambda>b. push_all b ds)"
proof (induction cs arbitrary: b)
  case (Cons c cs)
  then show ?case by (cases "push_back b c (length c)") simp_all
qed simp

lemma push_all_ok:
  assumes "wf_buffer b" and "\<forall>c \<in> set cs. length c \<le> 2 * BUFSIZE"
  shows "\<exists>b'. push_all b cs = Inr b'"
  using assms
proof (induction cs arbitrary: b)
  case (Cons c cs)
  have "length c \<le> length (grown b (length c))"
    using Cons.prems by (auto simp: grown_def wf_buffer_def)
  then obtain b1 where "push_back b c (length c) = Inr b1"
    using push_back_eq [OF Cons.prems(1), of "length c" c] by auto
  with Cons wf_push_back [OF Cons.prems(1) this] show ?case by simp
qed simp

text \<open>
  \<^verbatim>\<open>push_back\<close> does not append. Any sequence of chunks of at most 2048 bytes is accepted without an
  access outside the memory, but \<^verbatim>\<open>length()\<close> stays 0 and the memory starts with the last chunk: the
  earlier chunks survive only beyond its end.
\<close>

theorem buffer_keeps_last_chunk:
  assumes "\<forall>c \<in> set (cs @ [d]). length c \<le> 2048"
  shows "\<exists>b. push_all new_buffer (cs @ [d]) = Inr b \<and> buffer_length b = 0 \<and> take (length d) (ptr b) = d"
proof -
  obtain b1 where b1: "push_all new_buffer cs = Inr b1"
    using push_all_ok [of new_buffer cs] assms by (auto simp: BUFSIZE_def)
  obtain b where b: "push_all new_buffer (cs @ [d]) = Inr b"
    using push_all_ok [of new_buffer "cs @ [d]"] assms by (auto simp: BUFSIZE_def)
  have wf: "wf_buffer b1" "wf_buffer b" using wf_push_all [OF wf_new_buffer] b1 b by blast+
  have "push_back b1 d (length d) = Inr b" using b b1 by (auto simp: push_all_append res_bind_Inr_iff)
  then have "take (length d) (ptr b) = d"
    using push_back_eq [OF wf(1), of "length d" d] by (auto simp: ptr_def split: if_splits)
  then show ?thesis using b wf(2) by (simp add: buffer_length_def wf_buffer_def)
qed

theorem buffer_keeps_last_chunk_witness:
  "\<exists>b. push_all new_buffer [[65, 66], [67]] = Inr b \<and> buffer_length b = 0 \<and> take 1 (ptr b) = [67]"
  using buffer_keeps_last_chunk [of "[[65, 66]]" "[67]"] by simp

text \<open>
  A first \<^verbatim>\<open>push_back\<close> stays inside the memory exactly for chunks of at most 2048 bytes; the one
  doubling of \<^verbatim>\<open>expand\<close> is not repeated for longer ones.
\<close>

theorem push_back_first_bound:
  "push_back new_buffer c (length c) = Inl Out_of_bounds \<longleftrightarrow> 2048 < length c"
  using push_back_eq [OF wf_new_buffer, of "length c" c]
  by (auto simp: grown_def new_buffer_def BUFSIZE_def)

section \<open>The envelope\<close>

lemma encode_mq_msg_ptr:
  assumes "0 \<notin> set m" and "length m \<le> 1023"
  shows "\<exists>b k. encode_mq_msg (m @ 0 # rest) = Inr b \<and> ptr b = 0x1 # tl m @ replicate (Suc k) 0"
proof -
  let ?b1 = "new_buffer\<lparr>b_ptr := 0x1 # replicate 1023 0, b_size := 1024\<rparr>"
  have b1: "push_back new_buffer [0x1] 1 = Inr ?b1" "wf_buffer ?b1"
    using push_back_eq [OF wf_new_buffer, of 1 "[0x1]"]
    by (simp_all add: grown_def new_buffer_def BUFSIZE_def wf_buffer_def)
  have len: "c_strlen (m @ 0 # rest) = Inr (length m)"
    using c_str_no_nul [OF assms(1)] by (simp add: c_strlen_def)
  define g where "g = grown ?b1 (length m)"
  have g: "g = 0x1 # replicate 1023 0 \<or> g = replicate 2048 0" "length m < length g"
    using assms(2) by (auto simp: g_def grown_def)
  define b2 where "b2 = ?b1\<lparr>b_ptr := m @ drop (length m) g, b_size := int (length g)\<rparr>"
  have b2: "push_back ?b1 (m @ 0 # rest) (length m) = Inr b2"
    using push_back_eq [OF b1(2), of "length m" "m @ 0 # rest"] g(2) by (simp add: b2_def g_def)
  have wf2: "wf_buffer b2" using wf_push_back [OF b1(2) b2] .
  have "\<not> 1 > 2 * int (length g) div 3" using g(1) by auto
  then have "grown b2 1 = m @ drop (length m) g" by (simp add: grown_def b2_def)
  then have b3: "push_back b2 [0x1] 1 = Inr (b2\<lparr>b_ptr := 0x1 # drop 1 (m @ drop (length m) g), b_size := int (length g)\<rparr>)"
    using push_back_eq [OF wf2, of 1 "[0x1]"] g(2) by simp
  have "\<exists>k. drop 1 (m @ drop (length m) g) = tl m @ replicate (Suc k) 0"
  proof (cases m)
    case Nil
    have "\<exists>k. replicate n (0 :: byte) = replicate (Suc k) 0" if "0 < n" for n
      using that by (cases n) auto
    from this [of 1023] this [of 2047] show ?thesis using Nil g(1) by auto
  next
    case (Cons x xs)
    then have "drop (length m) g = replicate (length g - length m) 0" using g(1) by auto
    moreover obtain k where "length g - length m = Suc k" using g(2) by (cases "length g - length m") auto
    ultimately show ?thesis using Cons by auto
  qed
  then show ?thesis using b1 b2 b3 len by (auto simp: encode_mq_msg_def ptr_def Let_def)
qed

lemma size_t_diff_small:
  assumes "b \<le> a" and "a < 2 ^ 64"
  shows "size_t_diff a b = a - b"
proof -
  have "a + 2 ^ 64 - b = a - b + 2 ^ 64" using assms(1) by simp
  then have "size_t_diff a b = (a - b) mod 2 ^ 64" by (simp only: size_t_diff_def mod_add_self2)
  also have "\<dots> = a - b" using assms(2) by (intro mod_less) simp
  finally show ?thesis .
qed

lemma c_str_Cons: "x \<noteq> 0 \<Longrightarrow> c_str (x # xs) = x # c_str xs"
  by (simp add: c_str_def)

lemma decode_encode:
  assumes "0 \<notin> set m" and "length m \<le> 1023"
  shows "\<exists>b. encode_mq_msg (m @ 0 # rest) = Inr b \<and> decode_mq_msg b = Inr (butlast (tl m))"
proof -
  obtain b k where b: "encode_mq_msg (m @ 0 # rest) = Inr b" "ptr b = 0x1 # tl m @ replicate (Suc k) 0"
    using encode_mq_msg_ptr [OF assms] by blast
  have nz: "0 \<notin> set (tl m)" using assms(1) by (cases m) auto
  have str: "c_str (ptr b) = 0x1 # tl m"
    using nz c_str_no_nul [of "tl m" "replicate k 0"] by (simp add: b(2) c_str_Cons)
  have "c_strlen (ptr b) = Inr (length (c_str (ptr b)))" using b(2) by (simp add: c_strlen_def)
  then have "decode_mq_msg b = Inr (take (size_t_diff (Suc (length (tl m))) 2) (tl m))"
    by (simp add: decode_mq_msg_def str substr_def Let_def)
  also have "\<dots> = Inr (butlast (tl m))"
  proof (cases "tl m = []")
    case False
    then have "2 \<le> Suc (length (tl m))" by (cases "tl m") simp_all
    then have "size_t_diff (Suc (length (tl m))) 2 = length (tl m) - 1"
      using size_t_diff_small [of 2 "Suc (length (tl m))"] assms(2) by simp
    then show ?thesis by (simp only: butlast_conv_take)
  qed simp
  finally show ?thesis using b(1) by blast
qed

text \<open>
  C19: the envelope round trip: for a C string of at most 1023 characters, decoding the encoded
  string gives the string without its first and its last character, which is what the server needs
  to strip the type byte and the checksum.
\<close>

theorem mq_envelope_roundtrip:
  assumes "0 \<notin> set m" and "length m \<le> 1023"
  shows "\<exists>b. encode_mq_msg (m @ 0 # rest) = Inr b \<and> decode_mq_msg b = Inr (butlast (tl m))"
  using decode_encode [OF assms] .

theorem mq_envelope_roundtrip_witness:
  "\<exists>b. encode_mq_msg [1, 104, 105, 210, 0] = Inr b \<and> decode_mq_msg b = Inr [104, 105]"
  using mq_envelope_roundtrip [of "[1, 104, 105, 210]" "[]"] by simp

end
