(* ===== verification/Message_Queue.thy ===== *)
theory Message_Queue
  imports Buffer "HOL-Library.Sublist"
begin

text \<open>
  The publish/subscribe message queue: the frames of \<^verbatim>\<open>message_queue_client.cpp\<close>, the connection of
  \<^verbatim>\<open>mq_conn.cpp\<close> and the handlers of \<^verbatim>\<open>message_queue_server.cpp\<close>. A handler takes the server's maps
  and what \<^verbatim>\<open>read\<close> delivered, and returns the new maps and the calls of \<^verbatim>\<open>write\<close> it made.
\<close>

section \<open>The client's frames\<close>

text \<open>
  \<^verbatim>\<open>sprintf(send_msg + 1, msg.c_str(), msg.length())\<close> takes the message as its format and has one argument of type
  \<^verbatim>\<open>size_t\<close>. \<open>size_directive\<close> is the output of a directive \<^verbatim>\<open>%l\<close> or \<^verbatim>\<open>%z\<close> with the conversion \<open>k\<close> for that argument,
  on a platform whose \<^verbatim>\<open>size_t\<close> is \<^verbatim>\<open>unsigned long\<close>.
\<close>

function digits_in :: "nat \<Rightarrow> byte \<Rightarrow> nat \<Rightarrow> byte list" where
  "digits_in base ten n =
     (let d = n mod base; c = (if d < 10 then 0x30 + of_nat d else ten + of_nat (d - 10))
      in if n < base \<or> base < 2 then [c] else digits_in base ten (n div base) @ [c])"
  by auto
termination by (relation "measure (\<lambda>(base, ten, n). n)") (auto intro: div_less_dividend)

declare digits_in.simps [simp del]

definition size_directive :: "byte \<Rightarrow> nat \<Rightarrow> byte list option" where
  "size_directive k n =
     (if k \<in> {0x75, 0x64, 0x69} then Some (digits_in 10 0x61 n)
      else if k = 0x78 then Some (digits_in 16 0x61 n)
      else if k = 0x58 then Some (digits_in 16 0x41 n)
      else if k = 0x6F then Some (digits_in 8 0x61 n)
      else None)"

text \<open>
  The expansion: \<open>arg\<close> is the argument while no directive has used it, \<^verbatim>\<open>%%\<close> gives one percent sign. Any other
  directive (one for an argument of another type or of a missing one, whose behaviour C leaves undefined, or
  one with flags, a width or a precision, which the model does not expand) is a fault.
\<close>

fun expand_format :: "nat option \<Rightarrow> byte list \<Rightarrow> byte list result" where
  "expand_format arg [] = Inr []"
| "expand_format arg (c # cs) =
     (if c = 0x25 then
        (case cs of
           [] \<Rightarrow> Inl Bad_format
         | d # ds \<Rightarrow>
             if d = 0x25 then res_bind (expand_format arg ds) (\<lambda>r. Inr (0x25 # r))
             else if d = 0x6C \<or> d = 0x7A then
               (case ds of
                  [] \<Rightarrow> Inl Bad_format
                | k # ks \<Rightarrow>
                    (case arg of
                       None \<Rightarrow> Inl Bad_format
                     | Some n \<Rightarrow>
                         (case size_directive k n of
                            None \<Rightarrow> Inl Bad_format
                          | Some out \<Rightarrow> res_bind (expand_format None ks) (\<lambda>r. Inr (out @ r)))))
             else Inl Bad_format)
      else res_bind (expand_format arg cs) (\<lambda>r. Inr (c # r)))"

text \<open>\<^verbatim>\<open>for (i = 0; i < n; ++i) buf[t] += buf[i];\<close>\<close>

function crc_into :: "byte list \<Rightarrow> nat \<Rightarrow> nat \<Rightarrow> nat \<Rightarrow> byte list result" where
  "crc_into buf t i n =
     (if i < n then
        res_bind (rd buf i) (\<lambda>x. res_bind (rd buf t) (\<lambda>y. res_bind (wr buf t (y + x)) (\<lambda>buf.
          crc_into buf t (Suc i) n)))
      else Inr buf)"
  by auto
termination by (relation "measure (\<lambda>(buf, t, i, n). n - i)") auto

declare crc_into.simps [simp del]

definition send_buf :: "byte list \<Rightarrow> byte list result" where
  "send_buf msg =
     (let send_msg = (replicate 128 0)[0 := 0x1] in
      res_bind (expand_format (Some (length msg)) (c_str msg)) (\<lambda>s.
      res_bind (mem_write send_msg 1 (s @ [0])) (\<lambda>send_msg.
      crc_into send_msg (length msg + 1) 0 (length msg + 1))))"

text \<open>\<open>os_write\<close> is the system call: the number of bytes it took, or -1. The first component is what was handed to it.\<close>

definition mq_send :: "(byte list \<Rightarrow> int) \<Rightarrow> byte list \<Rightarrow> (byte list \<times> int) result" where
  "mq_send os_write msg =
     res_bind (send_buf msg) (\<lambda>send_msg.
       if length msg + 2 \<le> length send_msg then
         (let out = take (length msg + 2) send_msg;
              nwrite = os_write out
          in Inr (out, if nwrite - 2 \<noteq> int (length msg) then -1 else 0))
       else Inl Out_of_bounds)"

text \<open>The common part of \<^verbatim>\<open>register_mq\<close> and \<^verbatim>\<open>unregister_mq\<close>: the bytes given to \<^verbatim>\<open>write\<close>.\<close>

definition role_frame :: "byte \<Rightarrow> byte \<Rightarrow> int \<Rightarrow> byte list \<Rightarrow> byte list result" where
  "role_frame code0 code1 role publisher_name =
     (let register_msg = replicate 128 0;
          register_msg = (if role = 0 then register_msg[0 := code0] else register_msg)
      in res_bind (if role = 1 then mem_write (register_msg[0 := code1]) 1 (c_str publisher_name @ [0])
                   else Inr register_msg) (\<lambda>register_msg.
         res_bind (c_strlen register_msg) (\<lambda>len.
         res_bind (crc_into register_msg (len + 1) 0 len) (\<lambda>register_msg.
         if len + 1 \<le> length register_msg then Inr (take (len + 1) register_msg) else Inl Out_of_bounds))))"

definition register_mq :: "(byte list \<Rightarrow> int) \<Rightarrow> int \<Rightarrow> byte list \<Rightarrow> (byte list \<times> int) result" where
  "register_mq os_write role publisher_name =
     res_bind (role_frame 0x2 0x4 role publisher_name) (\<lambda>out.
       Inr (out, if os_write out = int (length out) then 0 else 1))"

definition unregister_mq :: "(byte list \<Rightarrow> int) \<Rightarrow> int \<Rightarrow> byte list \<Rightarrow> (byte list \<times> int) result" where
  "unregister_mq os_write role publisher_name =
     res_bind (role_frame 0x8 0x16 role publisher_name) (\<lambda>out.
       Inr (out, if os_write out = int (length out) then 1 else 0))"

section \<open>The connection\<close>

datatype mq_status = MQ_READ | MQ_FINISH | MQ_ERROR

record mq_conn =
  conn_fd :: int
  conn_addr :: "byte list"

definition read_mq_msg_status_machine :: "byte list \<Rightarrow> nat \<Rightarrow> mq_status result" where
  "read_mq_msg_status_machine buf len =
     (if len = 0 then Inl Out_of_bounds
      else res_bind (rd buf 0) (\<lambda>msg_style_begin. res_bind (rd buf (len - 1)) (\<lambda>msg_style_end.
        Inr (if msg_style_end \<noteq> msg_style_begin then MQ_ERROR else MQ_FINISH))))"

section \<open>The server\<close>

record mq_server =
  relations :: "byte list \<rightharpoonup> byte list list"
  publishers :: "byte list list"
  fd_addrs :: "byte list \<rightharpoonup> int"
  cached_msg :: "byte list \<rightharpoonup> byte list list"

type_synonym writes = "(int \<times> byte list) list"

definition new_server :: mq_server where
  "new_server = \<lparr>relations = Map.empty, publishers = [], fd_addrs = Map.empty, cached_msg = Map.empty\<rparr>"

text \<open>\<^verbatim>\<open>m[k]\<close> of a \<^verbatim>\<open>std::map\<close> of vectors inserts an empty vector; \<^verbatim>\<open>insert\<close> keeps an existing binding.\<close>

definition map_touch :: "('k \<rightharpoonup> 'v list) \<Rightarrow> 'k \<Rightarrow> ('k \<rightharpoonup> 'v list)" where
  "map_touch m k = (if m k = None then m(k \<mapsto> []) else m)"

definition map_list :: "('k \<rightharpoonup> 'v list) \<Rightarrow> 'k \<Rightarrow> 'v list" where
  "map_list m k = (case m k of None \<Rightarrow> [] | Some vs \<Rightarrow> vs)"

definition map_insert :: "('k \<rightharpoonup> 'v) \<Rightarrow> 'k \<Rightarrow> 'v \<Rightarrow> ('k \<rightharpoonup> 'v)" where
  "map_insert m k v = (if m k = None then m(k \<mapsto> v) else m)"

definition accept_one :: "mq_server \<Rightarrow> int \<Rightarrow> byte list \<Rightarrow> mq_server \<times> mq_conn" where
  "accept_one s peer_sock addr_str =
     (s\<lparr>fd_addrs := map_insert (fd_addrs s) addr_str peer_sock\<rparr>, \<lparr>conn_fd = peer_sock, conn_addr = addr_str\<rparr>)"

function crc_sum :: "byte list \<Rightarrow> nat \<Rightarrow> nat \<Rightarrow> byte \<Rightarrow> byte result" where
  "crc_sum buf i n acc =
     (if i + 1 < n then res_bind (rd buf i) (\<lambda>x. crc_sum buf (Suc i) n (acc + x)) else Inr acc)"
  by auto
termination by (relation "measure (\<lambda>(buf, i, n, acc). n - i)") auto

declare crc_sum.simps [simp del]

definition check_msg_crc :: "byte list \<Rightarrow> nat \<Rightarrow> bool result" where
  "check_msg_crc buf n =
     res_bind (crc_sum buf 0 n 0) (\<lambda>crc_sum.
       if n = 0 then Inl Out_of_bounds
       else res_bind (rd buf (n - 1)) (\<lambda>b. Inr (b XOR crc_sum = 0)))"

text \<open>
  The loop over the subscribers of a publisher. \<open>d\<close> is the decoded message; \<open>junk\<close> is what follows
  it and its terminator in memory, because \<^verbatim>\<open>write\<close> is given \<open>n\<close>, the size of the whole frame.
\<close>

fun deliver :: "int \<Rightarrow> byte list \<Rightarrow> nat \<Rightarrow> byte list \<Rightarrow> mq_server \<Rightarrow> byte list list \<Rightarrow> mq_server \<times> writes" where
  "deliver fd d n junk s [] = (s, [])"
| "deliver fd d n junk s (sub # subs) =
     (case fd_addrs s sub of
        None \<Rightarrow>
          deliver fd d n junk (s\<lparr>cached_msg := (cached_msg s)(sub \<mapsto> map_list (cached_msg s) sub @ [d])\<rparr>) subs
      | Some _ \<Rightarrow>
          (let msgs = map_list (cached_msg s) sub;
               s = s\<lparr>cached_msg := map_touch (cached_msg s) sub\<rparr>;
               out = map (Pair fd) msgs @ [(fd, take n (d @ 0 # junk))];
               (s, outs) = deliver fd d n junk s subs
           in (s, out @ outs)))"

text \<open>One pass of the \<^verbatim>\<open>switch\<close> in \<^verbatim>\<open>recv_msg\<close>, for \<open>nread\<close> bytes in \<open>buf\<close>.\<close>

definition publisher_field :: "byte list \<Rightarrow> nat \<Rightarrow> byte list result" where
  "publisher_field buf nread =
     (if nread < 2 then Inl Out_of_bounds else c_memcpy (replicate 128 0) 0 buf 1 (nread - 2))"

definition handle_msg ::
    "byte list \<Rightarrow> mq_server \<Rightarrow> mq_conn \<Rightarrow> byte list \<Rightarrow> nat \<Rightarrow> (mq_server \<times> writes) result" where
  "handle_msg junk s mc buf nread =
     res_bind (rd buf 0) (\<lambda>c.
       if c = 0x1 then
         res_bind (check_msg_crc buf nread) (\<lambda>ok.
           if ok then
             res_bind (encode_mq_msg buf) (\<lambda>recved_msg.
             res_bind (decode_mq_msg recved_msg) (\<lambda>d.
             let all_subs = map_list (relations s) (conn_addr mc);
                 s = s\<lparr>relations := map_touch (relations s) (conn_addr mc)\<rparr>
             in Inr (deliver (conn_fd mc) d nread junk s all_subs)))
           else Inr (s, []))
       else if c = 0x2 then
         Inr (s\<lparr>publishers := publishers s @ [conn_addr mc],
                fd_addrs := map_insert (fd_addrs s) (conn_addr mc) (conn_fd mc)\<rparr>, [])
       else if c = 0x4 then
         (let s = s\<lparr>fd_addrs := map_insert (fd_addrs s) (conn_addr mc) (conn_fd mc)\<rparr> in
          res_bind (publisher_field buf nread) (\<lambda>publisher_name.
          res_bind (c_strlen publisher_name) (\<lambda>_.
            let name = c_str publisher_name in
            if fd_addrs s name = None then Inr (s, [])
            else Inr (s\<lparr>relations := (relations s)(name \<mapsto> map_list (relations s) name @ [conn_addr mc])\<rparr>, []))))
       else if c = 0x8 then
         (if fd_addrs s (conn_addr mc) = None \<or> relations s (conn_addr mc) = None then Inl Bad_iterator
          else Inr (s\<lparr>fd_addrs := (fd_addrs s)(conn_addr mc := None),
                      relations := (relations s)(conn_addr mc := None)\<rparr>, []))
       else if c = 0x16 then
         res_bind (publisher_field buf nread) (\<lambda>_. Inr (s, []))
       else Inr (s, []))"

text \<open>
  The loop of \<^verbatim>\<open>recv_msg\<close>: each element of the list is what one \<^verbatim>\<open>read\<close> of at most \<^verbatim>\<open>BUFSIZE - 1\<close> bytes
  delivers into \<^verbatim>\<open>_buf\<close>, which is cleared only before the first.
\<close>

fun recv_loop :: "byte list \<Rightarrow> mq_server \<Rightarrow> mq_conn \<Rightarrow> byte list \<Rightarrow> byte list list \<Rightarrow>
    (mq_server \<times> writes) result" where
  "recv_loop junk s mc buf [] = Inr (s, [])"
| "recv_loop junk s mc buf (chunk # chunks) =
     res_bind (mem_write buf 0 chunk) (\<lambda>buf.
     res_bind (handle_msg junk s mc buf (length chunk)) (\<lambda>(s, outs).
     res_bind (recv_loop junk s mc buf chunks) (\<lambda>(s, outs').
     Inr (s, outs @ outs'))))"

definition recv_msg :: "byte list \<Rightarrow> mq_server \<Rightarrow> mq_conn \<Rightarrow> byte list list \<Rightarrow> (mq_server \<times> writes) result" where
  "recv_msg junk s mc chunks = recv_loop junk s mc (replicate BUFSIZE 0) chunks"

section \<open>Checksums\<close>

lemma crc_sum_eq:
  "i + 1 \<le> n \<Longrightarrow> n \<le> length buf \<Longrightarrow>
   crc_sum buf i n acc = Inr (acc + sum_list (take (n - 1 - i) (drop i buf)))"
proof (induction buf i n acc rule: crc_sum.induct)
  case (1 buf i n acc)
  show ?case
  proof (cases "i + 1 < n")
    case True
    have "rd buf i = Inr (buf ! i)" using True "1.prems" by (simp add: rd_def)
    moreover have "take (n - 1 - i) (drop i buf) = buf ! i # take (n - 1 - Suc i) (drop (Suc i) buf)"
      using True "1.prems" by (simp add: Cons_nth_drop_Suc [symmetric] take_Cons')
    ultimately show ?thesis using 1 True by (subst crc_sum.simps) (simp add: add.assoc)
  next
    case False
    with 1 show ?thesis by (subst crc_sum.simps) simp
  qed
qed

lemma xor_zero_iff: "a XOR b = 0 \<longleftrightarrow> a = b" for a b :: "'a :: len word"
  by (auto simp: bit_eq_iff bit_xor_iff)

lemma check_msg_crc_eq:
  assumes "0 < n" and "n \<le> length buf"
  shows "check_msg_crc buf n = Inr (buf ! (n - 1) = sum_list (take (n - 1) buf))"
  using crc_sum_eq [of 0 n buf 0] assms
  by (simp add: check_msg_crc_def rd_def xor_zero_iff)

lemma crc_into_eq:
  "i \<le> n \<Longrightarrow> n \<le> t \<Longrightarrow> t < length buf \<Longrightarrow>
   crc_into buf t i n = Inr (buf[t := buf ! t + sum_list (take (n - i) (drop i buf))])"
proof (induction buf t i n rule: crc_into.induct)
  case (1 buf t i n)
  show ?case
  proof (cases "i < n")
    case True
    let ?b = "buf[t := buf ! t + buf ! i]"
    have step: "rd buf i = Inr (buf ! i)" "rd buf t = Inr (buf ! t)" "wr buf t (buf ! t + buf ! i) = Inr ?b"
      using True "1.prems" by (simp_all add: rd_def wr_def)
    have "take (n - i) (drop i buf) = buf ! i # take (n - Suc i) (drop (Suc i) buf)"
      using True "1.prems" by (simp add: Cons_nth_drop_Suc [symmetric] take_Cons')
    moreover have "take (n - Suc i) (drop (Suc i) ?b) = take (n - Suc i) (drop (Suc i) buf)"
      using "1.prems" by (intro nth_equalityI) (auto simp: nth_list_update)
    ultimately show ?thesis
      using 1 True step by (subst crc_into.simps) (simp add: add.assoc)
  next
    case False
    with 1 show ?thesis by (subst crc_into.simps) simp
  qed
qed

lemma expand_format_plain: "0x25 \<notin> set cs \<Longrightarrow> expand_format arg cs = Inr cs"
  by (induction cs) auto

lemma zeros_update: "(replicate 128 0)[0 := x] = x # replicate 127 (0 :: byte)"
proof -
  have "replicate 128 (0 :: byte) = 0 # replicate 127 0" by (rule nth_equalityI) (auto simp: nth_Cons')
  then show ?thesis by simp
qed

lemma zeros_write:
  "length bs \<le> k \<Longrightarrow> mem_write (x # replicate k 0) 1 bs = Inr (x # bs @ replicate (k - length bs) 0)"
  by (simp add: mem_write_def)

text \<open>The frame \<^verbatim>\<open>send\<close> builds for a message without zero bytes and percent signs.\<close>

definition frame :: "byte list \<Rightarrow> byte list" where
  "frame msg = 0x1 # msg @ [0x1 + sum_list msg]"

lemma send_buf_frame:
  assumes "0 \<notin> set msg" and "0x25 \<notin> set msg" and "length msg \<le> 126"
  shows "send_buf msg = Inr (frame msg @ replicate (126 - length msg) 0)"
proof -
  let ?n = "length msg"
  let ?b = "0x1 # msg @ 0 # replicate (126 - ?n) 0"
  have w: "mem_write ((replicate 128 0)[0 := 0x1]) 1 (msg @ [0]) = Inr ?b"
    using assms(3) zeros_write [of "msg @ [0]" 127 "0x1"] by (simp add: zeros_update)
  have "crc_into ?b (?n + 1) 0 (?n + 1) = Inr (?b[?n + 1 := ?b ! (?n + 1) + sum_list (take (?n + 1) ?b)])"
    using crc_into_eq [of 0 "?n + 1" "?n + 1" ?b] assms(3) by simp
  also have "?b[?n + 1 := ?b ! (?n + 1) + sum_list (take (?n + 1) ?b)] = frame msg @ replicate (126 - ?n) 0"
    by (simp add: frame_def nth_append list_update_append)
  finally show ?thesis
    using w by (simp add: send_buf_def c_str_all_no_nul [OF assms(1)] expand_format_plain [OF assms(2)] Let_def)
qed

lemma length_frame [simp]: "length (frame msg) = length msg + 2"
  by (simp add: frame_def)

lemma mq_send_frame:
  assumes "0 \<notin> set msg" and "0x25 \<notin> set msg" and "length msg \<le> 126"
  shows "mq_send os_write msg =
    Inr (frame msg, if os_write (frame msg) = int (length msg) + 2 then 0 else -1)"
proof -
  have "take (length msg + 2) (frame msg @ replicate (126 - length msg) 0) = frame msg" by simp
  then show ?thesis
    using assms(3) by (auto simp: mq_send_def send_buf_frame [OF assms] Let_def)
qed

lemma check_frame: "check_msg_crc (frame msg @ rest) (length msg + 2) = Inr True"
  using check_msg_crc_eq [of "length msg + 2" "frame msg @ rest"]
  by (simp add: frame_def nth_append)

lemma sum_list_upd:
  "i < length xs \<Longrightarrow> sum_list (xs[i := x]) = sum_list xs - xs ! i + x" for x :: "'a :: ab_group_add"
  by (induction xs arbitrary: i) (auto split: nat.split simp: algebra_simps)

lemma corrupted_sum:
  assumes "i < n" and "n \<le> length buf" and "b \<noteq> buf ! i" and "buf ! (n - 1) = sum_list (take (n - 1) buf)"
  shows "buf[i := b] ! (n - 1) \<noteq> sum_list (take (n - 1) (buf[i := (b :: byte)]))"
proof (cases "i = n - 1")
  case True
  then show ?thesis using assms by simp
next
  case False
  then have "take (n - 1) (buf[i := b]) = (take (n - 1) buf)[i := b]" "i < length (take (n - 1) buf)"
    using assms by (auto simp: take_update_swap)
  then show ?thesis using assms False by (simp add: sum_list_upd)
qed

lemma mq_send_overrun:
  assumes "0 \<notin> set msg" and "0x25 \<notin> set msg" and "126 < length msg"
  shows "mq_send os_write msg = Inl Out_of_bounds"
  using assms(3)
  by (simp add: mq_send_def send_buf_def Let_def c_str_all_no_nul [OF assms(1)] expand_format_plain [OF assms(2)] mem_write_def)

text \<open>
  C20: for a message without zero bytes and percent signs, 126 bytes are the limit of \<^verbatim>\<open>mq_client::send\<close>. Up to it, what
  \<^verbatim>\<open>send\<close> hands to \<^verbatim>\<open>write\<close> passes \<^verbatim>\<open>check_msg_crc\<close> of the server, and \<^verbatim>\<open>send\<close> reports success
  exactly if the whole frame was written; every longer message overruns the 128 bytes of \<^verbatim>\<open>send_msg\<close>.
\<close>

theorem mq_send_passes_crc:
  assumes "0 \<notin> set msg" and "0x25 \<notin> set msg"
  shows "if length msg \<le> 126
    then \<exists>out ret. mq_send os_write msg = Inr (out, ret) \<and> length out = length msg + 2 \<and>
      check_msg_crc (out @ rest) (length out) = Inr True \<and> (ret = 0 \<longleftrightarrow> os_write out = int (length out))
    else mq_send os_write msg = Inl Out_of_bounds"
  using mq_send_frame [OF assms, of os_write] check_frame [of msg rest] mq_send_overrun [OF assms] by auto

theorem mq_send_passes_crc_witness:
  "\<exists>out ret. mq_send (\<lambda>out. int (length out)) [104, 105] = Inr (out, ret) \<and>
    check_msg_crc (out @ []) (length out) = Inr True \<and> ret = 0"
  using mq_send_passes_crc [of "[104, 105]" "\<lambda>out. int (length out)" "[]"] by auto

text \<open>
  The message is a format: \<^verbatim>\<open>%lu\<close> is replaced by the length of the message, \<^verbatim>\<open>%s\<close> has no matching argument.
\<close>

theorem mq_send_format:
  "expand_format (Some 4) [0x61, 0x25, 0x6C, 0x75] = Inr [0x61, 0x34] \<and> mq_send os_write [0x25, 0x73] = Inl Bad_format"
  by (simp add: size_directive_def digits_in.simps mq_send_def send_buf_def Let_def c_str_all_no_nul)

text \<open>
  C21: the checksum detects every corruption of a single byte of a frame, the checksum byte itself
  included.
\<close>

theorem check_msg_crc_detects_one_byte:
  assumes "check_msg_crc buf n = Inr True" and "n \<le> length buf" and "i < n" and "b \<noteq> buf ! i"
  shows "check_msg_crc (buf[i := b]) n = Inr False"
  using assms corrupted_sum [OF assms(3,2,4)] check_msg_crc_eq [of n buf] check_msg_crc_eq [of n "buf[i := b]"]
  by auto

theorem check_msg_crc_detects_one_byte_witness:
  "check_msg_crc [1, 104, 107, 210] 4 = Inr False"
  using check_msg_crc_detects_one_byte [of "[1, 104, 105, 210]" 4 2 107] check_msg_crc_eq [of 4 "[1, 104, 105, 210]"]
  by (simp add: numeral_eq_Suc)

section \<open>Publishing\<close>

text \<open>What the server makes of a frame: the message, without its last byte if the checksum is zero.\<close>

definition payload :: "byte list \<Rightarrow> byte list" where
  "payload msg = (if 0x1 + sum_list msg = 0 then butlast msg else msg)"

lemma payload_decode:
  assumes "0 \<notin> set msg" and "length msg \<le> 126"
  shows "\<exists>b. encode_mq_msg (frame msg @ replicate (Suc k) 0) = Inr b \<and> decode_mq_msg b = Inr (payload msg)"
proof (cases "0x1 + sum_list msg = 0")
  case True
  then have "frame msg @ replicate (Suc k) 0 = (0x1 # msg) @ 0 # replicate (Suc k) 0" by (simp add: frame_def)
  then show ?thesis
    using decode_encode [of "0x1 # msg" "replicate (Suc k) 0"] assms True by (simp add: payload_def)
next
  case False
  have "0 \<notin> set (frame msg)" using assms(1) False by (auto simp: frame_def)
  moreover have "frame msg @ replicate (Suc k) 0 = frame msg @ 0 # replicate k 0" by simp
  moreover have "butlast (tl (frame msg)) = msg" by (simp add: frame_def)
  ultimately show ?thesis
    using decode_encode [of "frame msg" "replicate k 0"] assms(2) False by (simp add: payload_def)
qed

lemma publish_eq:
  assumes "0 \<notin> set msg" and "length msg \<le> 126"
  shows "recv_msg junk s mc [frame msg] =
    Inr (deliver (conn_fd mc) (payload msg) (length msg + 2) junk
      (s\<lparr>relations := map_touch (relations s) (conn_addr mc)\<rparr>) (map_list (relations s) (conn_addr mc)))"
proof -
  let ?buf = "frame msg @ replicate (Suc (1021 - length msg)) 0"
  have w: "mem_write (replicate BUFSIZE 0) 0 (frame msg) = Inr ?buf"
  proof -
    have "1022 - length msg = Suc (1021 - length msg)" using assms(2) by arith
    then show ?thesis using assms(2) by (simp add: mem_write_def BUFSIZE_def)
  qed
  obtain b where "encode_mq_msg ?buf = Inr b" "decode_mq_msg b = Inr (payload msg)"
    using payload_decode [OF assms] by blast
  moreover have "rd ?buf 0 = Inr 0x1" by (simp add: rd_def frame_def)
  moreover have "check_msg_crc ?buf (length (frame msg)) = Inr True" using check_frame by simp
  ultimately have "handle_msg junk s mc ?buf (length (frame msg)) = Inr (deliver (conn_fd mc) (payload msg) (length msg + 2) junk
      (s\<lparr>relations := map_touch (relations s) (conn_addr mc)\<rparr>) (map_list (relations s) (conn_addr mc)))"
    by (simp add: handle_msg_def Let_def del: replicate.simps)
  then show ?thesis
    using w by (simp add: recv_msg_def del: replicate.simps split: prod.splits)
qed

lemma deliver_fds: "fst ` set (snd (deliver fd d n junk s subs)) \<subseteq> {fd}"
proof (induction subs arbitrary: s)
  case (Cons sub subs)
  show ?case
  proof (cases "fd_addrs s sub")
    case None
    then show ?thesis using Cons.IH by simp
  next
    case (Some f)
    let ?s = "s\<lparr>cached_msg := map_touch (cached_msg s) sub\<rparr>"
    obtain s' outs where "deliver fd d n junk ?s subs = (s', outs)" by fastforce
    moreover from this have "fst ` set outs \<subseteq> {fd}" using Cons.IH [of ?s] by simp
    ultimately show ?thesis using Some by (auto simp: Let_def)
  qed
qed simp

text \<open>Only a published message makes the server write or touch the cached messages.\<close>

lemma handle_msg_outcome:
  assumes "handle_msg junk s mc buf n = Inr (s', outs)"
  shows "outs = [] \<and> cached_msg s' = cached_msg s \<or>
    (\<exists>d s1 subs. deliver (conn_fd mc) d n junk s1 subs = (s', outs) \<and> cached_msg s1 = cached_msg s)"
proof -
  obtain c where c: "rd buf 0 = Inr c" using assms by (auto simp: handle_msg_def res_bind_Inr_iff)
  show ?thesis
  proof (cases "c = 0x1")
    case True
    then show ?thesis
      using assms c by (auto simp: handle_msg_def res_bind_Inr_iff Let_def split: if_splits) force+
  next
    case False
    then have "outs = [] \<and> cached_msg s' = cached_msg s"
      using assms c by (auto simp: handle_msg_def res_bind_Inr_iff Let_def split: if_splits)
    then show ?thesis by simp
  qed
qed

lemma handle_msg_fds:
  assumes "handle_msg junk s mc buf n = Inr (s', outs)"
  shows "fst ` set outs \<subseteq> {conn_fd mc}"
  using handle_msg_outcome [OF assms] deliver_fds by (metis empty_subsetI image_empty list.set(1) snd_conv)

lemma recv_loop_fds:
  "recv_loop junk s mc buf chunks = Inr (s', outs) \<Longrightarrow> fst ` set outs \<subseteq> {conn_fd mc}"
proof (induction chunks arbitrary: s buf outs)
  case (Cons c cs)
  then show ?case by (fastforce simp: res_bind_Inr_iff dest: handle_msg_fds)
qed simp

text \<open>
  The server sends every message back to the connection it came from: whatever frames a
  connection delivers, all calls of \<^verbatim>\<open>write\<close> go to that connection's descriptor, none to a
  subscriber's.
\<close>

theorem recv_msg_writes_to_sender:
  assumes "recv_msg junk s mc chunks = Inr (s', outs)"
  shows "\<forall>(fd, bytes) \<in> set outs. fd = conn_fd mc"
  using recv_loop_fds [OF assms [unfolded recv_msg_def]] by force

text \<open>A server with a publisher on descriptor 5 and a subscriber on descriptor 6.\<close>

definition ex_server :: mq_server where
  "ex_server = \<lparr>relations = [[80] \<mapsto> [[81]]], publishers = [[80]], fd_addrs = [[80] \<mapsto> 5, [81] \<mapsto> 6],
                cached_msg = Map.empty\<rparr>"

definition ex_conn :: mq_conn where
  "ex_conn = \<lparr>conn_fd = 5, conn_addr = [80]\<rparr>"

lemma ex_publish:
  "\<exists>s'. recv_msg [9] ex_server ex_conn [frame [104, 105]] = Inr (s', [(5, [104, 105, 0, 9])])"
  using publish_eq [of "[104, 105]" "[9]" ex_server ex_conn]
  by (simp add: ex_server_def ex_conn_def payload_def map_list_def map_touch_def Let_def)

theorem recv_msg_writes_to_sender_witness:
  "\<exists>s' outs. recv_msg [9] ex_server ex_conn [frame [104, 105]] = Inr (s', outs) \<and> outs \<noteq> [] \<and>
     (\<forall>(fd, bytes) \<in> set outs. fd = 5)"
proof -
  obtain s' where "recv_msg [9] ex_server ex_conn [frame [104, 105]] = Inr (s', [(5, [104, 105, 0, 9])])"
    using ex_publish by blast
  then show ?thesis using recv_msg_writes_to_sender by (fastforce simp: ex_conn_def)
qed

text \<open>
  End to end, for a message without zero bytes and percent signs of at most 126 bytes, and a
  publisher whose one subscriber is connected and has nothing cached: the server writes once, the
  message followed by its terminator and one byte past the string. If the frame's checksum is
  zero, the last character of the message is lost.
\<close>

theorem publish_end_to_end:
  assumes "0 \<notin> set msg" and "0x25 \<notin> set msg" and "length msg \<le> 126"
    and "relations s (conn_addr mc) = Some [sub]" and "fd_addrs s sub = Some f" and "cached_msg s sub = None"
  shows "\<exists>out ret s'. mq_send os_write msg = Inr (out, ret) \<and>
    recv_msg (x # junk) s mc [out] =
      Inr (s', [(conn_fd mc, if 0x1 + sum_list msg = 0 then butlast msg @ 0 # x # take 1 junk
                             else msg @ [0, x])])"
proof -
  have "take (length msg + 2) (payload msg @ 0 # x # junk) =
      (if 0x1 + sum_list msg = 0 then butlast msg @ 0 # x # take 1 junk else msg @ [0, x])"
    by (cases msg rule: rev_cases) (auto simp: payload_def)
  moreover have "\<exists>s'. recv_msg (x # junk) s mc [frame msg] =
      Inr (s', [(conn_fd mc, take (length msg + 2) (payload msg @ 0 # x # junk))])"
    using publish_eq [OF assms(1,3), of "x # junk" s mc] assms(4-6)
    by (simp add: map_list_def map_touch_def Let_def)
  ultimately show ?thesis
    using mq_send_frame [OF assms(1-3), of os_write] by auto
qed

theorem publish_end_to_end_witness:
  "\<exists>out ret s'. mq_send (\<lambda>out. int (length out)) [104, 105] = Inr (out, ret) \<and>
     recv_msg [7, 8] ex_server ex_conn [out] = Inr (s', [(5, [104, 105, 0, 7])])"
  using publish_end_to_end [of "[104, 105]" ex_server ex_conn "[81]" 6 "\<lambda>out. int (length out)" 7 "[8]"]
  by (simp add: ex_server_def ex_conn_def)

section \<open>Cached messages\<close>

lemma map_list_upd [simp]: "map_list (m(k \<mapsto> v)) k' = (if k' = k then v else map_list m k')"
  by (simp add: map_list_def)

lemma map_list_touch [simp]: "map_list (map_touch m k) k' = map_list m k'"
  by (simp add: map_list_def map_touch_def)

lemma deliver_cache: "prefix (map_list (cached_msg s) a) (map_list (cached_msg (fst (deliver fd d n junk s subs))) a)"
proof (induction subs arbitrary: s)
  case (Cons sub subs)
  show ?case
  proof (cases "fd_addrs s sub")
    case None
    then show ?thesis
      using Cons.IH [of "s\<lparr>cached_msg := (cached_msg s)(sub \<mapsto> map_list (cached_msg s) sub @ [d])\<rparr>"]
      by (auto simp del: fun_upd_apply split: if_splits dest: append_prefixD)
  next
    case (Some f)
    then show ?thesis
      using Cons.IH [of "s\<lparr>cached_msg := map_touch (cached_msg s) sub\<rparr>"]
      by (simp add: Let_def case_prod_unfold)
  qed
qed simp

lemma handle_msg_cache:
  assumes "handle_msg junk s mc buf n = Inr (s', outs)"
  shows "prefix (map_list (cached_msg s) a) (map_list (cached_msg s') a)"
  using handle_msg_outcome [OF assms] deliver_cache by (metis fst_conv prefix_order.refl)

lemma recv_loop_cache:
  "recv_loop junk s mc buf chunks = Inr (s', outs) \<Longrightarrow>
   prefix (map_list (cached_msg s) a) (map_list (cached_msg s') a)"
proof (induction chunks arbitrary: s buf outs)
  case (Cons c cs)
  then show ?case
    by (fastforce simp: res_bind_Inr_iff intro: prefix_order.trans dest: handle_msg_cache)
qed simp

text \<open>
  The messages cached for an absent subscriber are never removed: handling any frames only
  appends to each subscriber's cache, also after its messages have been written.
\<close>

theorem recv_msg_cache_grows:
  assumes "recv_msg junk s mc chunks = Inr (s', outs)"
  shows "prefix (map_list (cached_msg s) sub) (map_list (cached_msg s') sub)"
  using recv_loop_cache [OF assms [unfolded recv_msg_def]] .

theorem recv_msg_cache_grows_witness:
  "\<exists>s' outs. recv_msg [9] (ex_server\<lparr>cached_msg := [[81] \<mapsto> [[65]]]\<rparr>) ex_conn [frame [104, 105]] = Inr (s', outs) \<and>
     (5, [65]) \<in> set outs \<and> prefix [[65]] (map_list (cached_msg s') [81])"
proof -
  let ?s = "ex_server\<lparr>cached_msg := [[81] \<mapsto> [[65]]]\<rparr>"
  obtain s' where s': "recv_msg [9] ?s ex_conn [frame [104, 105]] = Inr (s', [(5, [65]), (5, [104, 105, 0, 9])])"
    using publish_eq [of "[104, 105]" "[9]" ?s ex_conn]
    by (simp add: ex_server_def ex_conn_def payload_def map_list_def map_touch_def Let_def)
  then have "prefix (map_list (cached_msg ?s) [81]) (map_list (cached_msg s') [81])"
    by (rule recv_msg_cache_grows)
  with s' show ?thesis by (force simp: map_list_def)
qed

section \<open>Registration\<close>

lemma role_frame_eq:
  assumes b: "b = x # name @ replicate (127 - length name) 0" and "x \<noteq> 0" and "0 \<notin> set name" and "length name \<le> 125"
  shows "res_bind (c_strlen b) (\<lambda>len. res_bind (crc_into b (len + 1) 0 len) (\<lambda>b.
    if len + 1 \<le> length b then Inr (take (len + 1) b) else Inl Out_of_bounds)) = Inr (x # name @ [0])"
proof -
  let ?n = "length name + 1"
  have "127 - length name = Suc (126 - length name)" using assms(4) by arith
  then have b': "b = (x # name) @ 0 # replicate (126 - length name) 0" by (simp add: b)
  then have "c_strlen b = Inr ?n" using assms(2,3) c_str_no_nul [of "x # name"] by (simp add: c_strlen_def)
  moreover have "crc_into b (?n + 1) 0 ?n = Inr (b[?n + 1 := b ! (?n + 1) + sum_list (take ?n b)])"
    using crc_into_eq [of 0 ?n "?n + 1" b] assms(4) by (simp add: b)
  moreover have "take (?n + 1) (b[?n + 1 := y]) = x # name @ [0]" for y
    by (simp add: b' take_update_cancel)
  ultimately show ?thesis using assms(4) by (simp add: b del: replicate.simps)
qed

lemma role_frame_subscribe:
  assumes "0 \<notin> set name" and "length name \<le> 125" and "code1 \<noteq> 0"
  shows "role_frame code0 code1 1 name = Inr (code1 # name @ [0])"
proof -
  let ?b = "code1 # name @ replicate (127 - length name) 0"
  have "127 - length name = Suc (126 - length name)" using assms(2) by arith
  then have "mem_write ((replicate 128 0)[0 := code1]) 1 (name @ [0]) = Inr ?b"
    using assms(2) zeros_write [of "name @ [0]" 127 code1] by (simp add: zeros_update)
  then show ?thesis
    using role_frame_eq [OF refl assms(3,1,2)]
    by (simp add: role_frame_def Let_def c_str_all_no_nul [OF assms(1)])
qed

lemma role_frame_publisher:
  assumes "code0 \<noteq> 0"
  shows "role_frame code0 code1 0 name = Inr [code0, 0]"
  using role_frame_eq [OF refl assms, of "[]"] by (simp add: role_frame_def Let_def zeros_update)

lemma recv_one:
  assumes "length chunk \<le> 1023" and "handle_msg junk s mc (chunk @ replicate (1024 - length chunk) 0) (length chunk) = Inr (s', outs)"
  shows "recv_msg junk s mc [chunk] = Inr (s', outs)"
  using assms by (simp add: recv_msg_def mem_write_def BUFSIZE_def)

lemma subscribe_frame:
  assumes "0 \<notin> set name" and "length name \<le> 125" and "fd_addrs s name = Some f"
  shows "register_mq os_write 1 name =
      Inr (0x4 # name @ [0], if os_write (0x4 # name @ [0]) = int (length name) + 2 then 0 else 1)"
    and "recv_msg junk s mc [0x4 # name @ [0]] =
      Inr (s\<lparr>fd_addrs := map_insert (fd_addrs s) (conn_addr mc) (conn_fd mc),
             relations := (relations s)(name \<mapsto> map_list (relations s) name @ [conn_addr mc])\<rparr>, [])"
proof -
  show "register_mq os_write 1 name =
      Inr (0x4 # name @ [0], if os_write (0x4 # name @ [0]) = int (length name) + 2 then 0 else 1)"
  proof -
    have "role_frame 0x2 0x4 1 name = Inr (0x4 # name @ [0])" by (rule role_frame_subscribe [OF assms(1,2)]) simp
    then show ?thesis by (simp add: register_mq_def)
  qed
  let ?out = "0x4 # name @ [0]"
  let ?buf = "?out @ replicate (1024 - length ?out) 0"
  let ?s = "s\<lparr>fd_addrs := map_insert (fd_addrs s) (conn_addr mc) (conn_fd mc)\<rparr>"
  have "publisher_field ?buf (length ?out) = Inr (name @ replicate (128 - length name) 0)"
    using assms(2) by (simp add: publisher_field_def c_memcpy_def mem_write_def)
  moreover have "128 - length name = Suc (127 - length name)" using assms(2) by arith
  moreover from this have "c_str (name @ replicate (128 - length name) 0) = name"
    using c_str_no_nul [OF assms(1)] by simp
  moreover have "fd_addrs ?s name \<noteq> None" using assms(3) by (simp add: map_insert_def)
  ultimately have "handle_msg junk s mc ?buf (length ?out) =
      Inr (?s\<lparr>relations := (relations s)(name \<mapsto> map_list (relations s) name @ [conn_addr mc])\<rparr>, [])"
    by (auto simp: handle_msg_def rd_def c_strlen_def Let_def simp del: replicate.simps)
  then show "recv_msg junk s mc [?out] = Inr (s\<lparr>fd_addrs := map_insert (fd_addrs s) (conn_addr mc) (conn_fd mc),
      relations := (relations s)(name \<mapsto> map_list (relations s) name @ [conn_addr mc])\<rparr>, [])"
    using recv_one [of ?out] assms(2) by simp
qed

text \<open>
  The registration of a subscriber: what \<^verbatim>\<open>register_mq\<close> writes for a name of at most 125
  characters makes the server record the connection's address under exactly that name, if the
  publisher is known, and succeeds exactly if everything was written.
\<close>

theorem subscribe_roundtrip:
  assumes "0 \<notin> set name" and "length name \<le> 125" and "fd_addrs s name = Some f"
  shows "\<exists>out ret s'. register_mq os_write 1 name = Inr (out, ret) \<and> (ret = 0 \<longleftrightarrow> os_write out = int (length out)) \<and>
    recv_msg junk s mc [out] = Inr (s', []) \<and>
    relations s' = (relations s)(name \<mapsto> map_list (relations s) name @ [conn_addr mc])"
  using subscribe_frame [OF assms] by (auto simp: add.commute)

theorem subscribe_roundtrip_witness:
  "\<exists>out ret s'. register_mq (\<lambda>out. 1) 1 [80] = Inr (out, ret) \<and> ret \<noteq> 0 \<and>
     recv_msg [] ex_server (ex_conn\<lparr>conn_addr := [82]\<rparr>) [out] = Inr (s', []) \<and> relations s' [80] = Some [[81], [82]]"
  using subscribe_roundtrip [of "[80]" ex_server 5 "\<lambda>out. 1" "[]" "ex_conn\<lparr>conn_addr := [82]\<rparr>"]
  by (auto simp: ex_server_def map_list_def role_frame_subscribe register_mq_def)

text \<open>
  A publisher that registers and unregisters before anyone subscribed to it and before it
  published makes the server erase through an end iterator.
\<close>

theorem unregister_without_subscribers_faults:
  assumes "relations s (conn_addr mc) = None"
  shows "\<exists>reg unreg r r'. register_mq os_write 0 name = Inr (reg, r) \<and> unregister_mq os_write 0 name = Inr (unreg, r') \<and>
    recv_msg junk s mc [reg, unreg] = Inl Bad_iterator"
proof -
  have "recv_msg junk s mc [[0x2, 0], [0x8, 0]] = Inl Bad_iterator"
    using assms by (simp add: recv_msg_def mem_write_def BUFSIZE_def handle_msg_def rd_def)
  then show ?thesis by (simp add: register_mq_def unregister_mq_def role_frame_publisher)
qed

theorem unregister_without_subscribers_faults_witness:
  "\<exists>reg unreg r r'. register_mq (\<lambda>out. 2) 0 [] = Inr (reg, r) \<and> unregister_mq (\<lambda>out. 2) 0 [] = Inr (unreg, r') \<and>
    recv_msg [] new_server ex_conn [reg, unreg] = Inl Bad_iterator"
  using unregister_without_subscribers_faults [of new_server ex_conn "\<lambda>out. 2" "[]" "[]"]
  by (simp add: new_server_def)

section \<open>Stale bytes\<close>

lemma handle_frame:
  assumes "buf = frame msg @ rest" and "buf = M @ 0 # r" and "0 \<notin> set M" and "length M \<le> 1023"
  shows "handle_msg junk s mc buf (length msg + 2) =
    Inr (deliver (conn_fd mc) (butlast (tl M)) (length msg + 2) junk
      (s\<lparr>relations := map_touch (relations s) (conn_addr mc)\<rparr>) (map_list (relations s) (conn_addr mc)))"
proof -
  have "rd buf 0 = Inr 0x1" by (simp add: assms(1) rd_def frame_def)
  moreover have "check_msg_crc buf (length msg + 2) = Inr True" using check_frame assms(1) by simp
  moreover obtain b where "encode_mq_msg buf = Inr b" "decode_mq_msg b = Inr (butlast (tl M))"
    using decode_encode [OF assms(3,4), of r] assms(2) by auto
  ultimately show ?thesis by (simp add: handle_msg_def Let_def)
qed

lemma overwritten_buffer:
  assumes "length m2 \<le> length m1" and "length m1 \<le> 126"
  shows "mem_write (frame m1 @ replicate (1022 - length m1) 0) 0 (frame m2) =
    Inr (frame m2 @ drop (length m2 + 2) (frame m1) @ replicate (1022 - length m1) 0)"
  using assms by (simp add: mem_write_def)

text \<open>
  \<^verbatim>\<open>recv_msg\<close> does not clear its buffer between reads. When a publisher sends a longer message and
  then a shorter one, both without zero bytes in their frames, and the two arrive in one call, the
  subscriber's copy of the second carries its checksum byte and a byte of the first.
\<close>

theorem recv_msg_stale_bytes:
  assumes "0 \<notin> set (frame m1)" and "0 \<notin> set (frame m2)" and "length m2 + 2 \<le> length m1" and "length m1 \<le> 126"
    and "relations s (conn_addr mc) = Some [sub]" and "fd_addrs s sub = Some f" and "cached_msg s sub = None"
  shows "\<exists>s'. recv_msg (x # junk) s mc [frame m1, frame m2] =
    Inr (s', [(conn_fd mc, m1 @ [0, x]),
              (conn_fd mc, m2 @ [0x1 + sum_list m2, frame m1 ! (length m2 + 2)])])"
proof -
  let ?z = "replicate (1022 - length m1) (0 :: byte)"
  let ?d = "drop (length m2 + 2) (frame m1)"
  have z: "?z = 0 # replicate (1021 - length m1) 0"
  proof -
    have "1022 - length m1 = Suc (1021 - length m1)" using assms(4) by arith
    then show ?thesis by simp
  qed
  have w1: "mem_write (replicate BUFSIZE 0) 0 (frame m1) = Inr (frame m1 @ ?z)"
    using assms(4) by (simp add: mem_write_def BUFSIZE_def)
  have tl1: "butlast (tl (frame m1)) = m1" by (simp add: frame_def)
  have "?d \<noteq> []" using assms(3) by simp
  then have tl2: "butlast (tl (frame m2 @ ?d)) = m2 @ [0x1 + sum_list m2] @ butlast ?d"
    by (simp add: frame_def butlast_append)
  have bd: "take 1 (butlast ?d) = [frame m1 ! (length m2 + 2)]"
    using assms(3) by (simp add: butlast_drop take_Suc_conv_app_nth nth_butlast hd_drop_conv_nth take_Suc) 
  define s1 where "s1 = s\<lparr>relations := map_touch (relations s) (conn_addr mc), cached_msg := map_touch (cached_msg s) sub\<rparr>"
  have h1: "handle_msg (x # junk) s mc (frame m1 @ ?z) (length m1 + 2) = Inr (s1, [(conn_fd mc, m1 @ [0, x])])"
    using handle_frame [OF refl, of m1 ?z "frame m1"] z assms(1,4-7) tl1
    by (simp add: map_list_def Let_def s1_def map_touch_def)
  have "set ?d \<subseteq> set (frame m1)" by (rule set_drop_subset)
  then have "0 \<notin> set (frame m2 @ ?d)" using assms(1,2) by auto
  then have h2: "\<exists>s'. handle_msg (x # junk) s1 mc (frame m2 @ ?d @ ?z) (length m2 + 2) =
      Inr (s', [(conn_fd mc, take (length m2 + 2) (butlast (tl (frame m2 @ ?d)) @ 0 # x # junk))])"
    using handle_frame [of "frame m2 @ ?d @ ?z" m2 "?d @ ?z" "frame m2 @ ?d" "replicate (1021 - length m1) 0"
        "x # junk" s1 mc] z assms(3-7)
    by (simp add: map_list_def Let_def s1_def map_touch_def)
  have "take (length m2 + 2) (butlast (tl (frame m2 @ ?d)) @ 0 # x # junk) =
      m2 @ [0x1 + sum_list m2, frame m1 ! (length m2 + 2)]"
    using tl2 bd assms(3) by (cases "butlast ?d") (auto simp: numeral_2_eq_2)
  then show ?thesis
    using w1 h1 h2 overwritten_buffer [of m2 m1] assms(3,4) by (auto simp: recv_msg_def)
qed

theorem recv_msg_stale_bytes_witness:
  "\<exists>s'. recv_msg [7] ex_server ex_conn [frame [65, 66, 67, 68], frame [97]] =
     Inr (s', [(5, [65, 66, 67, 68, 0, 7]), (5, [97, 98, 67])])"
  using recv_msg_stale_bytes [of "[65, 66, 67, 68]" "[97]" ex_server ex_conn "[81]" 6 7 "[]"]
  by (simp add: ex_server_def ex_conn_def frame_def)

end
