(* ===== verification/Mq_Runtime.thy ===== *)
theory Mq_Runtime
  imports Message_Queue
begin

text \<open>
  The rest of the message queue: addresses and connecting, the client's reader thread
  (\<^verbatim>\<open>message_queue_client.cpp\<close>), and the life of connections at the server (\<^verbatim>\<open>message_queue_server.cpp\<close>): accepting,
  polling, closing. Peers are known by their address in dotted notation, without the port.
\<close>

section \<open>The client\<close>

record mq_client =
  server_ip_port :: "byte list"
  client_fd :: int

text \<open>\<open>fd\<close> is the value of the uninitialised member.\<close>

definition mq_client_new :: "int \<Rightarrow> byte list \<Rightarrow> mq_client" where
  "mq_client_new fd ip_port = \<lparr>server_ip_port = ip_port, client_fd = fd\<rparr>"

definition COLON :: byte where
  "COLON = 0x3A"

text \<open>\<^verbatim>\<open>std::string::find\<close>, \<open>None\<close> for \<^verbatim>\<open>npos\<close>.\<close>

fun str_find :: "byte \<Rightarrow> byte list \<Rightarrow> nat option" where
  "str_find c [] = None"
| "str_find c (x # xs) = (if x = c then Some 0 else map_option Suc (str_find c xs))"

text \<open>
  \<^verbatim>\<open>get_ip_port\<close>: without a colon the index is -1, the address is the whole string and so is the text
  given to \<^verbatim>\<open>atoi\<close>. The result is the address, the port and the value returned.
\<close>

definition get_ip_port :: "byte list \<Rightarrow> byte list \<times> c_int \<times> int" where
  "get_ip_port ip_port =
     (let (ip, rest) = (case str_find COLON ip_port of
            None \<Rightarrow> (ip_port, ip_port)
          | Some i \<Rightarrow> (take i ip_port, drop (i + 1) ip_port));
          port = atoi (rest @ [0])
      in (ip, port, if port = -1 then -1 else 0))"

text \<open>
  \<^verbatim>\<open>connect\<close>: \<open>os_socket\<close> is the new descriptor, \<open>os_connect\<close> the result for an address and a port, which \<^verbatim>\<open>htons\<close>
  cuts to 16 bits. The value of \<^verbatim>\<open>get_ip_port\<close> is not used.
\<close>

definition mq_connect :: "int \<Rightarrow> (byte list \<Rightarrow> 16 word \<Rightarrow> int) \<Rightarrow> mq_client \<Rightarrow> mq_client \<times> int" where
  "mq_connect os_socket os_connect mc =
     (let (server_ip, server_port, _) = get_ip_port (server_ip_port mc);
          mc = mc\<lparr>client_fd := os_socket\<rparr>;
          ret = os_connect server_ip (ucast server_port)
      in (mc, if ret < 0 then -1 else 0))"

text \<open>
  \<^verbatim>\<open>run\<close>: the buffer is cleared before each \<^verbatim>\<open>read\<close> of up to \<^verbatim>\<open>BUFSIZE\<close> bytes; the result are the arrays the callback gets.
  The list holds what the reads deliver before one returns 0 or -1, which ends the thread.
\<close>

fun client_run :: "byte list list \<Rightarrow> byte list list result" where
  "client_run [] = Inr []"
| "client_run (chunk # chunks) =
     res_bind (mem_write (replicate BUFSIZE 0) 0 chunk) (\<lambda>buf.
     res_bind (client_run chunks) (\<lambda>bufs. Inr (buf # bufs)))"

section \<open>Addresses at the server\<close>

definition DOT :: byte where
  "DOT = 0x2E"

text \<open>\<^verbatim>\<open>inet_ntoa\<close> of an address in network order, and its copy through an array of 128 bytes.\<close>

type_synonym ipv4 = "byte \<times> byte \<times> byte \<times> byte"

definition inet_ntoa :: "ipv4 \<Rightarrow> byte list" where
  "inet_ntoa ip = (case ip of (a, b, c, d) \<Rightarrow>
     to_string (unat a) @ DOT # to_string (unat b) @ DOT # to_string (unat c) @ DOT # to_string (unat d))"

definition convert_addr_in_to_str :: "ipv4 \<Rightarrow> 16 word \<Rightarrow> byte list result" where
  "convert_addr_in_to_str ip port =
     res_bind (mem_write (replicate 128 0) 0 (inet_ntoa ip @ [0])) (\<lambda>dst. Inr (c_str dst))"

text \<open>\<^verbatim>\<open>get_ip_port_from_publisher_name\<close>: reads on until a colon is found.\<close>

fun name_to_colon :: "byte list \<Rightarrow> byte list result" where
  "name_to_colon [] = Inl Out_of_bounds"
| "name_to_colon (c # cs) = (if c = COLON then Inr [] else res_bind (name_to_colon cs) (\<lambda>r. Inr (c # r)))"

definition get_ip_from_publisher_name :: "byte list \<Rightarrow> byte list result" where
  "get_ip_from_publisher_name publisher_name = res_bind (name_to_colon publisher_name) (\<lambda>r. Inr (c_str r))"

section \<open>Life of a connection\<close>

text \<open>Jobs in the queue of the server's pool; connections are objects at addresses.\<close>

datatype mq_job = Accept_conn | Recv_msg nat

record mq_runtime =
  rt_server :: mq_server
  rt_conns :: "nat \<rightharpoonup> mq_conn"
  rt_polled :: "nat set"
  rt_jobs :: "mq_job list"

definition mq_runtime_new :: mq_runtime where
  "mq_runtime_new = \<lparr>rt_server = new_server, rt_conns = Map.empty, rt_polled = {}, rt_jobs = []\<rparr>"

text \<open>\<^verbatim>\<open>init_poller\<close>: a failed \<^verbatim>\<open>bind\<close> fails an assertion.\<close>

definition init_poller :: "int \<Rightarrow> int result" where
  "init_poller bind_ret = (if bind_ret = -1 then Inl Assert_failed else Inr 0)"

text \<open>One event in \<^verbatim>\<open>poller\<close>: on the listening socket, or on a connection with its \<^verbatim>\<open>EPOLLIN\<close> bit.\<close>

datatype poll_event = Poll_listen | Poll_conn nat bool

definition poll_one :: "poll_event \<Rightarrow> mq_runtime \<Rightarrow> mq_runtime" where
  "poll_one ev rt = (case ev of
      Poll_listen \<Rightarrow> rt\<lparr>rt_jobs := rt_jobs rt @ [Accept_conn]\<rparr>
    | Poll_conn c epollin \<Rightarrow> if epollin then rt\<lparr>rt_jobs := rt_jobs rt @ [Recv_msg c]\<rparr> else rt)"

text \<open>
  \<^verbatim>\<open>accept_conn\<close>: for each waiting peer a connection object, an entry in \<^verbatim>\<open>fd_addrs\<close> and an entry in
  epoll. A peer is the address of its object, its descriptor, its host and its port.
\<close>

fun accept_all :: "(nat \<times> int \<times> ipv4 \<times> 16 word) list \<Rightarrow> mq_runtime \<Rightarrow> mq_runtime result" where
  "accept_all [] rt = Inr rt"
| "accept_all ((c, peer_sock, ip, port) # peers) rt =
     res_bind (convert_addr_in_to_str ip port) (\<lambda>addr_str.
     let (s, mc) = accept_one (rt_server rt) peer_sock addr_str
     in accept_all peers (rt\<lparr>rt_server := s, rt_conns := (rt_conns rt)(c \<mapsto> mc), rt_polled := insert c (rt_polled rt)\<rparr>))"

text \<open>
  The job \<^verbatim>\<open>recv_msg\<close>: the reads, and after an end of input the connection leaves epoll and is deleted. The entries of
  its address in the server's maps stay. A connection that no longer exists is a use of freed memory.
\<close>

definition recv_job :: "byte list \<Rightarrow> nat \<Rightarrow> byte list list \<Rightarrow> bool \<Rightarrow> mq_runtime \<Rightarrow> (mq_runtime \<times> writes) result" where
  "recv_job junk c chunks closed rt = (case rt_conns rt c of
      None \<Rightarrow> Inl Use_after_free
    | Some mc \<Rightarrow>
        res_bind (recv_msg junk (rt_server rt) mc chunks) (\<lambda>(s, outs).
        let rt = rt\<lparr>rt_server := s\<rparr> in
        Inr (if closed then rt\<lparr>rt_polled := rt_polled rt - {c}, rt_conns := (rt_conns rt)(c := None)\<rparr> else rt, outs)))"

section \<open>Lemmas\<close>

lemma str_find_append: "c \<notin> set a \<Longrightarrow> str_find c (a @ c # b) = Some (length a)"
  by (induction a) auto

lemma digit_not_sep: "is_digit b \<Longrightarrow> b \<noteq> DOT \<and> b \<noteq> 0 \<and> b \<noteq> COLON"
  by (auto simp: is_digit_def DOT_def COLON_def)

lemma to_string_seps: "DOT \<notin> set (to_string n)" "0 \<notin> set (to_string n)"
  using to_string_digits(1) [of n] digit_not_sep by (auto simp: list_all_iff)

lemma to_string_inject: "to_string m = to_string n \<longleftrightarrow> m = n"
  by (metis digits_value_to_string)

lemma length_to_string: "n < 10 ^ k \<Longrightarrow> 0 < k \<Longrightarrow> length (to_string n) \<le> k"
proof (induction k arbitrary: n)
  case (Suc k)
  show ?case
  proof (cases "n < 10")
    case False
    then have "0 < k" using Suc.prems(1) by (cases k) auto
    then have "length (to_string (n div 10)) \<le> k"
      using Suc.prems(1) by (intro Suc.IH) (auto simp: less_mult_imp_div_less)
    then show ?thesis using False by (subst to_string.simps) simp
  qed (subst to_string.simps, simp)
qed simp

lemma append_sep_inject:
  "s \<notin> set a \<Longrightarrow> s \<notin> set a' \<Longrightarrow> a @ s # b = a' @ s # b' \<longleftrightarrow> a = a' \<and> b = b'"
proof (induction a arbitrary: a')
  case Nil
  then show ?case by (cases a') auto
next
  case (Cons x a)
  then show ?case by (cases a') auto
qed

text \<open>Dotted notation tells hosts apart, and fits the array.\<close>

lemma inet_ntoa_inject: "inet_ntoa ip = inet_ntoa ip' \<longleftrightarrow> ip = ip'"
  by (cases ip; cases ip') (simp add: inet_ntoa_def append_sep_inject to_string_seps to_string_inject word_unat_eq_iff)

lemma inet_ntoa_bounds: "length (inet_ntoa ip) \<le> 15" "0 \<notin> set (inet_ntoa ip)"
proof -
  obtain a b c d where ip: "ip = (a, b, c, d)" by (cases ip)
  have "unat x < 10 ^ 3" for x :: byte using unsigned_less [of x, where 'a = nat] by simp
  from length_to_string [OF this, of a] length_to_string [OF this, of b] length_to_string [OF this, of c]
    length_to_string [OF this, of d]
  show "length (inet_ntoa ip) \<le> 15" by (simp add: ip inet_ntoa_def)
  show "0 \<notin> set (inet_ntoa ip)" using to_string_seps(2) by (auto simp: ip inet_ntoa_def DOT_def)
qed

lemma convert_addr [simp]: "convert_addr_in_to_str ip port = Inr (inet_ntoa ip)"
  using inet_ntoa_bounds [of ip] c_str_no_nul [of "inet_ntoa ip"]
  by (simp add: convert_addr_in_to_str_def mem_write_def)

definition peer_ip :: "nat \<times> int \<times> ipv4 \<times> 16 word \<Rightarrow> ipv4" where
  "peer_ip p = fst (snd (snd p))"

definition first_fd :: "(nat \<times> int \<times> ipv4 \<times> 16 word) list \<Rightarrow> ipv4 \<Rightarrow> int option" where
  "first_fd peers ip = map_option (\<lambda>p. fst (snd p)) (List.find (\<lambda>p. peer_ip p = ip) peers)"

lemma accept_all_server:
  "\<exists>rt'. accept_all peers rt = Inr rt' \<and> relations (rt_server rt') = relations (rt_server rt) \<and> rt_jobs rt' = rt_jobs rt \<and>
     rt_polled rt' = rt_polled rt \<union> fst ` set peers \<and>
     (\<forall>ip. fd_addrs (rt_server rt') (inet_ntoa ip) =
       (case fd_addrs (rt_server rt) (inet_ntoa ip) of None \<Rightarrow> first_fd peers ip | Some fd \<Rightarrow> Some fd))"
proof (induction peers arbitrary: rt)
  case Nil
  then show ?case by (auto simp: first_fd_def split: option.splits)
next
  case (Cons p peers)
  obtain c fd ip port where p: "p = (c, fd, ip, port)" by (cases p)
  let ?rt = "rt\<lparr>rt_server := (rt_server rt)\<lparr>fd_addrs := map_insert (fd_addrs (rt_server rt)) (inet_ntoa ip) fd\<rparr>,
      rt_conns := (rt_conns rt)(c \<mapsto> \<lparr>conn_fd = fd, conn_addr = inet_ntoa ip\<rparr>), rt_polled := insert c (rt_polled rt)\<rparr>"
  have "accept_all (p # peers) rt = accept_all peers ?rt" by (simp add: p accept_one_def)
  moreover obtain rt' where "accept_all peers ?rt = Inr rt'" "relations (rt_server rt') = relations (rt_server ?rt)"
      "rt_jobs rt' = rt_jobs ?rt" "rt_polled rt' = rt_polled ?rt \<union> fst ` set peers"
      "\<forall>ip. fd_addrs (rt_server rt') (inet_ntoa ip) =
       (case fd_addrs (rt_server ?rt) (inet_ntoa ip) of None \<Rightarrow> first_fd peers ip | Some fd \<Rightarrow> Some fd)"
    using Cons.IH [of ?rt] by blast
  ultimately show ?case
    by (intro exI [of _ rt'])
      (auto simp: p first_fd_def peer_ip_def map_insert_def inet_ntoa_inject split: option.splits)
qed

lemma ucast_of_nat_16: "ucast (of_nat n :: c_int) = (of_nat n :: 16 word)"
  by (rule bit_word_eqI) (simp add: bit_simps)

section \<open>Properties\<close>

text \<open>
  C22: the address of the server. For \<^verbatim>\<open>ip:port\<close> with a decimal port below \<open>2 ^ 31\<close>, \<^verbatim>\<open>get_ip_port\<close> finds both
  parts and reports success, and \<^verbatim>\<open>connect\<close> calls the system with this address and the port modulo
  65536, returning -1 exactly if that fails.
\<close>

theorem get_ip_port_connect:
  assumes "COLON \<notin> set ip" and "n < 2 ^ 31"
  shows "get_ip_port (ip @ COLON # to_string n) = (ip, of_nat n, 0) \<and>
    snd (mq_connect fd os_connect (mq_client_new junk (ip @ COLON # to_string n))) =
      (if os_connect ip (of_nat n) < 0 then -1 else 0)"
proof -
  have "(of_nat n :: c_int) \<noteq> -1"
  proof
    assume "(of_nat n :: c_int) = -1"
    then have "(of_nat (Suc n) :: c_int) = 0" by simp
    then have "2 ^ 32 dvd Suc n" using word_of_nat_eq_0_iff [of "Suc n", where 'a = 32] by (simp del: of_nat_Suc)
    then show False using assms(2) by (auto dest: dvd_imp_le)
  qed
  then have "get_ip_port (ip @ COLON # to_string n) = (ip, of_nat n, 0)"
    using str_find_append [OF assms(1)] atoi_to_string [OF assms(2), of "[]"] by (simp add: get_ip_port_def)
  then show ?thesis by (simp add: mq_connect_def mq_client_new_def ucast_of_nat_16)
qed

theorem get_ip_port_connect_witness:
  "get_ip_port (bytes_of ''127.0.0.1'' @ COLON # to_string 16667) = (bytes_of ''127.0.0.1'', 16667, 0)"
  using get_ip_port_connect [of "bytes_of ''127.0.0.1''" 16667] by (simp add: COLON_def bytes_of_def)

text \<open>
  The reader thread of the client gives each delivery to the callback in an array of its own, in order and with
  nothing left of earlier ones: for deliveries of at most 1024 bytes without zero bytes, the callback reads exactly
  the delivered text, and has a terminator exactly if the delivery is shorter than the array.
\<close>

theorem client_run_callbacks:
  assumes "\<forall>c \<in> set chunks. length c \<le> 1024 \<and> 0 \<notin> set c"
  shows "\<exists>bufs. client_run chunks = Inr bufs \<and> map c_str bufs = chunks \<and>
    map (\<lambda>b. \<exists>n. c_strlen b = Inr n) bufs = map (\<lambda>c. length c < 1024) chunks"
  using assms
proof (induction chunks)
  case (Cons c chunks)
  let ?b = "c @ replicate (1024 - length c) 0"
  have c: "length c \<le> 1024" "0 \<notin> set c" using Cons.prems by auto
  then have "mem_write (replicate BUFSIZE 0) 0 c = Inr ?b" by (simp add: mem_write_def BUFSIZE_def)
  moreover have "c_str ?b = c" using c(2) by (simp add: c_str_replicate_nul c_str_all_no_nul)
  moreover have "(\<exists>n. c_strlen ?b = Inr n) \<longleftrightarrow> length c < 1024" using c by (auto simp: c_strlen_def)
  ultimately show ?case using Cons by auto
qed simp

theorem client_run_callbacks_witness:
  "\<exists>bufs. client_run [[0x61], [0x62, 0x63]] = Inr bufs \<and> map c_str bufs = [[0x61], [0x62, 0x63]]"
  using client_run_callbacks [of "[[0x61], [0x62, 0x63]]"] by auto

text \<open>
  Peers are known by their host. Accepting any list of peers succeeds and watches all of them; for
  every host the recorded descriptor is the one recorded before, and otherwise that of the first peer
  from this host: the port is dropped, so further clients of the host share the entry.
\<close>

theorem accept_conn_first_per_host:
  "\<exists>rt'. accept_all peers rt = Inr rt' \<and> rt_polled rt' = rt_polled rt \<union> fst ` set peers \<and>
     (\<forall>ip. fd_addrs (rt_server rt') (inet_ntoa ip) =
       (case fd_addrs (rt_server rt) (inet_ntoa ip) of None \<Rightarrow> first_fd peers ip | Some fd \<Rightarrow> Some fd))"
  using accept_all_server [of peers rt] by blast

text \<open>
  Subscribing by address, end to end. When the host of a publisher is known and a connection from a subscriber exists,
  the frame that \<^verbatim>\<open>register_mq\<close> builds for the publisher's dotted address, received as one piece,
  adds the subscriber's address to the subscribers of the publisher and of nobody else, keeps the
  connection, and writes nothing.
\<close>

theorem subscribe_by_address:
  assumes "rt_conns rt c = Some mc" and "fd_addrs (rt_server rt) (inet_ntoa ip) = Some f"
  shows "\<exists>out ret rt'. register_mq os_write 1 (inet_ntoa ip) = Inr (out, ret) \<and>
    recv_job junk c [out] False rt = Inr (rt', []) \<and> rt_conns rt' c = Some mc \<and>
    map_list (relations (rt_server rt')) (inet_ntoa ip) = map_list (relations (rt_server rt)) (inet_ntoa ip) @ [conn_addr mc] \<and>
    (\<forall>ip'. ip' \<noteq> ip \<longrightarrow> relations (rt_server rt') (inet_ntoa ip') = relations (rt_server rt) (inet_ntoa ip'))"
proof -
  have "length (inet_ntoa ip) \<le> 125" using inet_ntoa_bounds(1) [of ip] by simp
  note sub = subscribe_frame [OF inet_ntoa_bounds(2) this assms(2)]
  show ?thesis using sub(2) [of junk mc] assms(1) by (simp add: sub(1) recv_job_def inet_ntoa_inject)
qed

definition ex_runtime :: mq_runtime where
  "ex_runtime = mq_runtime_new\<lparr>rt_server := new_server\<lparr>fd_addrs := [inet_ntoa (10, 0, 0, 1) \<mapsto> 5]\<rparr>,
     rt_conns := [3 \<mapsto> \<lparr>conn_fd = 6, conn_addr = inet_ntoa (10, 0, 0, 2)\<rparr>]\<rparr>"

theorem subscribe_by_address_witness:
  "\<exists>out ret rt'. register_mq (\<lambda>out. int (length out)) 1 (inet_ntoa (10, 0, 0, 1)) = Inr (out, ret) \<and>
    recv_job [] 3 [out] False ex_runtime = Inr (rt', []) \<and>
    map_list (relations (rt_server rt')) (inet_ntoa (10, 0, 0, 1)) = [inet_ntoa (10, 0, 0, 2)]"
  using subscribe_by_address [of ex_runtime 3 "\<lparr>conn_fd = 6, conn_addr = inet_ntoa (10, 0, 0, 2)\<rparr>" "(10, 0, 0, 1)" 5
      "\<lambda>out. int (length out)" "[]"]
  by (auto simp: ex_runtime_def new_server_def map_list_def)

text \<open>A peer that reconnects is still recorded with the descriptor that was closed.\<close>

lemma reconnect_stale_descriptor:
  assumes "rt_conns rt c = Some mc" and "fd_addrs (rt_server rt) (inet_ntoa ip) = Some fd"
  shows "\<exists>rt1 rt2. recv_job junk c [] True rt = Inr (rt1, []) \<and> rt_conns rt1 c = None \<and>
    accept_all [(c2, fd2, ip, port)] rt1 = Inr rt2 \<and> fd_addrs (rt_server rt2) (inet_ntoa ip) = Some fd"
  using assms by (simp add: recv_job_def recv_msg_def accept_one_def map_insert_def)

end
