(* ===== verification/Mq_Loop.thy ===== *)
theory Mq_Loop
  imports Mq_Runtime
begin

text \<open>
  The running message queue server of \<^verbatim>\<open>message_queue_server.cpp\<close>: the poller turns events into jobs and the workers
  of the pool take and run them, in any order. A job runs as one step; the maps of the server have
  no lock, so nothing is claimed about jobs whose accesses to the maps overlap.
\<close>

section \<open>Definitions\<close>

text \<open>
  The state: the server with its connections and its queue, the job of each worker, what was written so far, the fault
  that stopped the process, and as a record of the past the descriptors on which a message starting
  with the byte 1 was read.
\<close>

record mq_world =
  w_rt :: mq_runtime
  w_run :: "nat \<Rightarrow> mq_job option"
  w_out :: writes
  w_fault :: "c_fault option"
  w_spoke :: "int set"

text \<open>
  \<^verbatim>\<open>init_mq\<close> up to the loop of \<^verbatim>\<open>poller\<close>: two assertions, on \<^verbatim>\<open>init_poller\<close> and on \<^verbatim>\<open>epoll_create1\<close>.
\<close>

definition init_mq :: "int \<Rightarrow> int \<Rightarrow> mq_world result" where
  "init_mq bind_ret epfd =
     res_bind (init_poller bind_ret) (\<lambda>ret.
       if ret \<noteq> 0 then Inl Assert_failed
       else if epfd = -1 then Inl Assert_failed
       else Inr \<lparr>w_rt = mq_runtime_new, w_run = (\<lambda>_. None), w_out = [], w_fault = None, w_spoke = {}\<rparr>)"

text \<open>
  One step of a server with \<open>n\<close> workers. A connection is reported while it is registered with epoll, and
  again as often as data arrives, because it is registered edge triggered and not one shot. \<open>may_close\<close> says
  whether a peer may close its connection.
\<close>

inductive mq_step :: "nat \<Rightarrow> bool \<Rightarrow> mq_world \<Rightarrow> mq_world \<Rightarrow> bool" for n may_close where
  mq_poll_listen: "w_fault s = None \<Longrightarrow> mq_step n may_close s (s\<lparr>w_rt := poll_one Poll_listen (w_rt s)\<rparr>)"
| mq_poll_conn: "w_fault s = None \<Longrightarrow> c \<in> rt_polled (w_rt s) \<Longrightarrow>
    mq_step n may_close s (s\<lparr>w_rt := poll_one (Poll_conn c epollin) (w_rt s)\<rparr>)"
| mq_take: "w_fault s = None \<Longrightarrow> w < n \<Longrightarrow> w_run s w = None \<Longrightarrow> rt_jobs (w_rt s) = j # js \<Longrightarrow>
    mq_step n may_close s (s\<lparr>w_rt := (w_rt s)\<lparr>rt_jobs := js\<rparr>, w_run := (w_run s)(w := Some j)\<rparr>)"
| mq_accept: "w_fault s = None \<Longrightarrow> w_run s w = Some Accept_conn \<Longrightarrow>
    distinct (map fst peers) \<Longrightarrow> fst ` set peers \<inter> dom (rt_conns (w_rt s)) = {} \<Longrightarrow>
    accept_all peers (w_rt s) = Inr rt \<Longrightarrow>
    mq_step n may_close s (s\<lparr>w_rt := rt, w_run := (w_run s)(w := None)\<rparr>)"
| mq_recv: "w_fault s = None \<Longrightarrow> w_run s w = Some (Recv_msg c) \<Longrightarrow> closed \<longrightarrow> may_close \<Longrightarrow>
    \<forall>ch \<in> set chunks. ch \<noteq> [] \<and> length ch < BUFSIZE \<Longrightarrow>
    recv_job junk c chunks closed (w_rt s) = Inr (rt, outs) \<Longrightarrow>
    mq_step n may_close s (s\<lparr>w_rt := rt, w_run := (w_run s)(w := None), w_out := w_out s @ outs,
      w_spoke := w_spoke s \<union> {conn_fd mc | mc. rt_conns (w_rt s) c = Some mc \<and> (\<exists>ch \<in> set chunks. hd ch = 0x1)}\<rparr>)"
| mq_fault: "w_fault s = None \<Longrightarrow> w_run s w = Some (Recv_msg c) \<Longrightarrow> closed \<longrightarrow> may_close \<Longrightarrow>
    \<forall>ch \<in> set chunks. ch \<noteq> [] \<and> length ch < BUFSIZE \<Longrightarrow>
    recv_job junk c chunks closed (w_rt s) = Inl e \<Longrightarrow>
    mq_step n may_close s (s\<lparr>w_fault := Some e\<rparr>)"

definition mq_init :: "mq_world \<Rightarrow> bool" where
  "mq_init s \<longleftrightarrow> (\<exists>bind_ret epfd. init_mq bind_ret epfd = Inr s)"

section \<open>Invariants\<close>

text \<open>Everything polled exists.\<close>

definition mq_inv :: "mq_world \<Rightarrow> bool" where
  "mq_inv s \<longleftrightarrow> rt_polled (w_rt s) \<subseteq> dom (rt_conns (w_rt s)) \<and> fst ` set (w_out s) \<subseteq> w_spoke s"

text \<open>While no peer closes its connection, every job on a connection finds it.\<close>

definition mq_safe :: "mq_world \<Rightarrow> bool" where
  "mq_safe s \<longleftrightarrow> rt_polled (w_rt s) \<subseteq> dom (rt_conns (w_rt s)) \<and>
     (\<forall>c. Recv_msg c \<in> set (rt_jobs (w_rt s)) \<longrightarrow> c \<in> dom (rt_conns (w_rt s))) \<and>
     (\<forall>w c. w_run s w = Some (Recv_msg c) \<longrightarrow> c \<in> dom (rt_conns (w_rt s)))"

lemma init_mq_state:
  "mq_init s \<longleftrightarrow> s = \<lparr>w_rt = mq_runtime_new, w_run = (\<lambda>_. None), w_out = [], w_fault = None, w_spoke = {}\<rparr>"
proof
  show "s = \<lparr>w_rt = mq_runtime_new, w_run = (\<lambda>_. None), w_out = [], w_fault = None, w_spoke = {}\<rparr> \<Longrightarrow> mq_init s"
    unfolding mq_init_def by (rule exI [of _ 0], rule exI [of _ 0]) (simp add: init_mq_def init_poller_def)
qed (auto simp: mq_init_def init_mq_def init_poller_def split: if_splits)

lemma accept_all_conns:
  "accept_all peers rt = Inr rt' \<Longrightarrow> dom (rt_conns rt') = dom (rt_conns rt) \<union> fst ` set peers \<and>
     rt_polled rt' = rt_polled rt \<union> fst ` set peers \<and> rt_jobs rt' = rt_jobs rt"
proof (induction peers arbitrary: rt)
  case (Cons p peers)
  obtain c fd ip port where p: "p = (c, fd, ip, port)" by (cases p)
  let ?rt = "rt\<lparr>rt_server := (rt_server rt)\<lparr>fd_addrs := map_insert (fd_addrs (rt_server rt)) (inet_ntoa ip) fd\<rparr>,
      rt_conns := (rt_conns rt)(c \<mapsto> \<lparr>conn_fd = fd, conn_addr = inet_ntoa ip\<rparr>), rt_polled := insert c (rt_polled rt)\<rparr>"
  have "accept_all (p # peers) rt = accept_all peers ?rt" by (simp add: p accept_one_def)
  with Cons.prems Cons.IH [of ?rt] show ?case by (simp add: p del: fun_upd_apply accept_all.simps)
qed simp

lemma recv_job_Inr:
  assumes "recv_job junk c chunks closed rt = Inr (rt', outs)"
  shows "\<exists>mc s. rt_conns rt c = Some mc \<and> recv_msg junk (rt_server rt) mc chunks = Inr (s, outs) \<and>
    rt_jobs rt' = rt_jobs rt \<and> rt_polled rt' = (if closed then rt_polled rt - {c} else rt_polled rt) \<and>
    rt_conns rt' = (if closed then (rt_conns rt)(c := None) else rt_conns rt)"
  using assms
  by (cases closed; cases "rt_conns rt c") (auto simp: recv_job_def res_bind_Inr_iff Let_def)

lemma poll_one_frame [simp]:
  "rt_conns (poll_one ev rt) = rt_conns rt" "rt_polled (poll_one ev rt) = rt_polled rt"
  by (auto simp: poll_one_def split: poll_event.splits)

text \<open>The server writes only when it reads a message that starts with the byte 1.\<close>

lemma handle_msg_silent:
  "handle_msg junk s mc buf n = Inr (s', outs) \<Longrightarrow> outs \<noteq> [] \<Longrightarrow> rd buf 0 = Inr 0x1"
  by (auto simp: handle_msg_def res_bind_Inr_iff Let_def split: if_splits)

lemma recv_loop_spoke:
  assumes "recv_loop junk s mc buf chunks = Inr (s', outs)" and "outs \<noteq> []" and "\<forall>ch \<in> set chunks. ch \<noteq> []"
  shows "\<exists>ch \<in> set chunks. hd ch = 0x1"
  using assms
proof (induction chunks arbitrary: s buf outs)
  case (Cons ch chunks)
  obtain buf1 s1 o1 o2 where step: "mem_write buf 0 ch = Inr buf1" "handle_msg junk s mc buf1 (length ch) = Inr (s1, o1)"
      "recv_loop junk s1 mc buf1 chunks = Inr (s', o2)" "outs = o1 @ o2"
    using Cons.prems(1) by (auto simp: res_bind_Inr_iff)
  show ?case
  proof (cases "o1 = []")
    case True
    then show ?thesis using Cons.IH [OF step(3)] step(4) Cons.prems(2,3) by auto
  next
    case False
    obtain b bs where ch: "ch = b # bs" using Cons.prems(3) by (cases ch) auto
    then have "buf1 ! 0 = b" "buf1 \<noteq> []" using step(1) by (auto simp: mem_write_def split: if_splits)
    then show ?thesis using handle_msg_silent [OF step(2) False] ch by (auto simp: rd_def split: if_splits)
  qed
qed simp

interpretation mql: invariant_system mq_init "mq_step n may_close" mq_inv for n may_close
proof
  show "mq_inv s" if "mq_init s" for s
    using that by (simp add: init_mq_state mq_inv_def mq_runtime_new_def)
next
  fix s t
  assume I: "mq_inv s" and "mq_step n may_close s t"
  from this(2) show "mq_inv t"
  proof cases
    case (mq_recv w c closed chunks junk rt outs)
    obtain mc sv where j: "rt_conns (w_rt s) c = Some mc" "recv_msg junk (rt_server (w_rt s)) mc chunks = Inr (sv, outs)"
        "rt_polled rt = (if closed then rt_polled (w_rt s) - {c} else rt_polled (w_rt s))"
        "rt_conns rt = (if closed then (rt_conns (w_rt s))(c := None) else rt_conns (w_rt s))"
      using recv_job_Inr [OF mq_recv(6)] by blast
    note fds = recv_loop_fds [OF j(2) [unfolded recv_msg_def]] and spoke = recv_loop_spoke [OF j(2) [unfolded recv_msg_def]]
    have "rt_polled rt \<subseteq> dom (rt_conns rt)" using I j(3,4) by (auto simp: mq_inv_def)
    moreover have "\<exists>ch \<in> set chunks. hd ch = 0x1" if "outs \<noteq> []" using spoke [OF that] mq_recv(5) by blast
    ultimately show ?thesis using I j(1) fds mq_recv(1) by (cases "outs = []") (auto simp: mq_inv_def)
  next
    case (mq_accept w peers rt)
    show ?thesis using I accept_all_conns [OF mq_accept(6)] unfolding mq_accept(1) mq_inv_def by simp blast
  qed (use I in \<open>auto simp: mq_inv_def\<close>)
qed

interpretation mqs: invariant_system mq_init "mq_step n False" mq_safe for n
proof
  show "mq_safe s" if "mq_init s" for s
    using that by (simp add: init_mq_state mq_safe_def mq_runtime_new_def)
next
  fix s t
  assume I: "mq_safe s" and "mq_step n False s t"
  from this(2) show "mq_safe t"
  proof cases
    case (mq_recv w c closed chunks junk rt outs)
    then have "rt_conns rt = rt_conns (w_rt s)" "rt_polled rt = rt_polled (w_rt s)" "rt_jobs rt = rt_jobs (w_rt s)"
      using recv_job_Inr [OF mq_recv(6)] by auto
    with I show ?thesis unfolding mq_recv(1) mq_safe_def by simp
  next
    case (mq_accept w peers rt)
    have new: "dom (rt_conns rt) = dom (rt_conns (w_rt s)) \<union> fst ` set peers"
        "rt_polled rt = rt_polled (w_rt s) \<union> fst ` set peers" "rt_jobs rt = rt_jobs (w_rt s)"
      using accept_all_conns [OF mq_accept(6)] by simp_all
    show ?thesis unfolding mq_accept(1) mq_safe_def using I unfolding mq_safe_def by (simp add: new) blast
  qed (use I in \<open>auto simp: mq_safe_def poll_one_def\<close>)
qed

section \<open>Executions\<close>

text \<open>A server at rest: nothing queued, nothing running, no fault.\<close>

definition at_rest :: "mq_world \<Rightarrow> bool" where
  "at_rest s \<longleftrightarrow> w_fault s = None \<and> w_run s = (\<lambda>_. None) \<and> rt_jobs (w_rt s) = []"

text \<open>At rest, an event is turned into a job that a worker takes.\<close>

lemma no_jobs_update: "rt_jobs rt = [] \<Longrightarrow> rt\<lparr>rt_jobs := []\<rparr> = rt"
  by (cases rt) simp

lemma dispatched:
  assumes R: "reach mq_init (mq_step n b) s" and rest: "at_rest s" and "0 < n"
    and j: "j = Accept_conn \<or> (\<exists>c \<in> rt_polled (w_rt s). j = Recv_msg c)"
  shows "reach mq_init (mq_step n b) (s\<lparr>w_run := [0 \<mapsto> j]\<rparr>)"
proof -
  have r: "w_fault s = None" "w_run s = (\<lambda>_. None)" "rt_jobs (w_rt s) = []" using rest by (simp_all add: at_rest_def)
  from j have "reach mq_init (mq_step n b) (s\<lparr>w_rt := (w_rt s)\<lparr>rt_jobs := [j]\<rparr>\<rparr>)"
  proof
    assume "j = Accept_conn"
    then show ?thesis using reach_step [OF R mq_poll_listen [OF r(1)]] r(3) by (simp add: poll_one_def)
  next
    assume "\<exists>c \<in> rt_polled (w_rt s). j = Recv_msg c"
    then obtain c where "c \<in> rt_polled (w_rt s)" "j = Recv_msg c" by blast
    then show ?thesis using reach_step [OF R mq_poll_conn [OF r(1), of c _ _ True]] r(3) by (simp add: poll_one_def)
  qed
  from reach_step [OF this mq_take [of _ 0 n j "[]"]] assms(3) r no_jobs_update [OF r(3)] show ?thesis by simp
qed

lemma served_accept:
  assumes R: "reach mq_init (mq_step n b) s" and rest: "at_rest s" and n: "0 < n"
    and "distinct (map fst peers)" and "fst ` set peers \<inter> dom (rt_conns (w_rt s)) = {}"
    and acc: "accept_all peers (w_rt s) = Inr rt"
  shows "reach mq_init (mq_step n b) (s\<lparr>w_rt := rt\<rparr>)" and "at_rest (s\<lparr>w_rt := rt\<rparr>)"
proof -
  have r: "w_fault s = None" "w_run s = (\<lambda>_. None)" "rt_jobs (w_rt s) = []" using rest by (simp_all add: at_rest_def)
  have "(s\<lparr>w_run := [0 \<mapsto> Accept_conn]\<rparr>)\<lparr>w_rt := rt, w_run := ([0 \<mapsto> Accept_conn])(0 := None)\<rparr> = s\<lparr>w_rt := rt\<rparr>"
    using r(2) by (cases s) simp
  then show "reach mq_init (mq_step n b) (s\<lparr>w_rt := rt\<rparr>)"
    using reach_step [OF dispatched [OF R rest n, of Accept_conn] mq_accept [of _ 0 peers rt]] assms(4-6) r(1) by simp
  show "at_rest (s\<lparr>w_rt := rt\<rparr>)" using r accept_all_conns [OF acc] by (simp add: at_rest_def)
qed

lemma served_recv:
  assumes R: "reach mq_init (mq_step n b) s" and rest: "at_rest s" and n: "0 < n"
    and "c \<in> rt_polled (w_rt s)" and "closed \<longrightarrow> b" and "\<forall>ch \<in> set chunks. ch \<noteq> [] \<and> length ch < BUFSIZE"
    and job: "recv_job junk c chunks closed (w_rt s) = Inr (rt, outs)"
  shows "\<exists>s'. reach mq_init (mq_step n b) s' \<and> at_rest s' \<and> w_rt s' = rt \<and> w_out s' = w_out s @ outs"
proof -
  have r: "w_fault s = None" "w_run s = (\<lambda>_. None)" "rt_jobs (w_rt s) = []" using rest by (simp_all add: at_rest_def)
  have D: "reach mq_init (mq_step n b) (s\<lparr>w_run := [0 \<mapsto> Recv_msg c]\<rparr>)"
    using dispatched [OF R rest n, of "Recv_msg c"] assms(4) by blast
  let ?s = "s\<lparr>w_rt := rt, w_run := (\<lambda>_. None), w_out := w_out s @ outs,
      w_spoke := w_spoke s \<union> {conn_fd mc | mc. rt_conns (w_rt s) c = Some mc \<and> (\<exists>ch \<in> set chunks. hd ch = 0x1)}\<rparr>"
  from reach_step [OF D mq_recv [of _ 0 c closed b chunks junk rt outs n]] assms(5-7) r(1)
  have "reach mq_init (mq_step n b) ?s" by simp
  moreover have "rt_jobs rt = []" using recv_job_Inr [OF job] r(3) by auto
  ultimately show ?thesis using r by (intro exI [of _ ?s]) (simp add: at_rest_def)
qed

definition mq_start :: mq_world where
  "mq_start = \<lparr>w_rt = mq_runtime_new, w_run = (\<lambda>_. None), w_out = [], w_fault = None, w_spoke = {}\<rparr>"

lemma reach_start: "reach mq_init (mq_step n b) mq_start" "at_rest mq_start"
proof -
  show "reach mq_init (mq_step n b) mq_start" by (rule reach_init) (simp add: init_mq_state mq_start_def)
  show "at_rest mq_start" by (simp add: at_rest_def mq_start_def mq_runtime_new_def)
qed

text \<open>A publisher and a subscriber, from the start of the server.\<close>

lemma session_run:
  assumes "0 < n" and "c1 \<noteq> c2" and "ip1 \<noteq> ip2" and "0 \<notin> set msg" and "0x25 \<notin> set msg" and "length msg \<le> 126"
  shows "\<exists>reg r1 out r2 rt1 rt2 s. register_mq os_write 1 (inet_ntoa ip1) = Inr (reg, r1) \<and>
    mq_send os_write msg = Inr (out, r2) \<and>
    accept_all [(c1, f1, ip1, p1), (c2, f2, ip2, p2)] mq_runtime_new = Inr rt1 \<and>
    recv_job junk c2 [reg] False rt1 = Inr (rt2, []) \<and> recv_job junk c1 [out] False rt2 = Inr (w_rt s, w_out s) \<and>
    reach mq_init (mq_step n False) s \<and>
    relations (rt_server (w_rt s)) = [inet_ntoa ip1 \<mapsto> [inet_ntoa ip2]] \<and>
    w_out s = [(f1, take (length msg + 2) (payload msg @ 0 # junk))]"
proof -
  let ?a1 = "inet_ntoa ip1" and ?a2 = "inet_ntoa ip2" and ?R = "reach mq_init (mq_step n False)"
  let ?peers = "[(c1, f1, ip1, p1), (c2, f2, ip2, p2)]" and ?reg = "0x4 # inet_ntoa ip1 @ [0]"
  let ?sv = "new_server\<lparr>fd_addrs := [?a1 \<mapsto> f1, ?a2 \<mapsto> f2]\<rparr>" and ?out = "(f1, take (length msg + 2) (payload msg @ 0 # junk))"
  let ?conns = "[c1 \<mapsto> \<lparr>conn_fd = f1, conn_addr = ?a1\<rparr>, c2 \<mapsto> \<lparr>conn_fd = f2, conn_addr = ?a2\<rparr>]"
  let ?rt = "\<lambda>sv. \<lparr>rt_server = sv, rt_conns = ?conns, rt_polled = {c1, c2}, rt_jobs = []\<rparr>"
  have ne: "?a1 \<noteq> ?a2" "?a2 \<noteq> ?a1" using assms(3) by (simp_all add: inet_ntoa_inject eq_commute)
  have len: "length ?a1 \<le> 125" using inet_ntoa_bounds(1) [of ip1] by simp
  have acc: "accept_all ?peers mq_runtime_new = Inr (?rt ?sv)"
    using ne by (simp add: accept_one_def mq_runtime_new_def new_server_def map_insert_def insert_commute)
  let ?sv2 = "?sv\<lparr>relations := [?a1 \<mapsto> [?a2]]\<rparr>"
  have sub: "register_mq os_write 1 ?a1 = Inr (?reg, if os_write ?reg = int (length ?a1) + 2 then 0 else 1)"
      "recv_job junk c2 [?reg] False (?rt ?sv) = Inr (?rt ?sv2, [])"
    using subscribe_frame [OF inet_ntoa_bounds(2) len, of ?sv f1] ne
    by (simp_all add: recv_job_def new_server_def map_insert_def map_list_def fun_upd_twist)
  obtain sv3 where pub: "recv_job junk c1 [frame msg] False (?rt ?sv2) = Inr (?rt sv3, [?out])" "relations sv3 = [?a1 \<mapsto> [?a2]]"
    using publish_eq [OF assms(4,6), of junk ?sv2 "\<lparr>conn_fd = f1, conn_addr = ?a1\<rparr>"] ne assms(2)
    by (simp add: recv_job_def new_server_def map_list_def map_touch_def Let_def)
  have "?R (mq_start\<lparr>w_rt := ?rt ?sv\<rparr>)" "at_rest (mq_start\<lparr>w_rt := ?rt ?sv\<rparr>)"
    using served_accept [OF reach_start assms(1), of ?peers] acc assms(2) by (simp_all add: mq_start_def mq_runtime_new_def)
  from served_recv [OF this assms(1), of c2 False "[?reg]" junk] sub(2) len
  obtain s2 where s2: "?R s2" "at_rest s2" "w_rt s2 = ?rt ?sv2" "w_out s2 = []" by (auto simp: BUFSIZE_def mq_start_def)
  from served_recv [OF s2(1,2) assms(1), of c1 False "[frame msg]" junk] s2(3,4) pub(1) assms(6)
  obtain s3 where s3: "?R s3" "w_rt s3 = ?rt sv3" "w_out s3 = [?out]" by (auto simp: BUFSIZE_def frame_def)
  have "recv_job junk c1 [frame msg] False (?rt ?sv2) = Inr (w_rt s3, w_out s3)" using pub(1) s3 by simp
  moreover have "relations (rt_server (w_rt s3)) = [?a1 \<mapsto> [?a2]]" using pub(2) s3(2) by simp
  ultimately show ?thesis using sub acc s3(1,3) mq_send_frame [OF assms(4-6), of os_write] by blast
qed

section \<open>Properties\<close>

text \<open>
  C16: the server never forwards. In every state a running server reaches, with any number of workers and connections and
  whatever is sent, every descriptor written to is one on which a message starting with the byte 1 was read
  before: a client that only subscribes is never sent anything.
\<close>

theorem mq_loop_never_forwards:
  assumes "reach mq_init (mq_step n may_close) s" and "(fd, bytes) \<in> set (w_out s)"
  shows "fd \<in> w_spoke s"
  using mql.reach_inv [OF assms(1)] assms(2) by (force simp: mq_inv_def)

text \<open>
  C17: a session from the start. A publisher and a subscriber on different hosts connect, the subscriber sends what
  \<^verbatim>\<open>register_mq\<close> writes for the publisher's address, and the publisher sends a message of at most 126 bytes with \<^verbatim>\<open>send\<close>. The
  running server accepts both, records the subscription and nothing else, and answers the publisher with its own message and a
  terminator, cut to the length of the frame; these are its only writes.
\<close>

theorem mq_session:
  assumes "0 < n" and "c1 \<noteq> c2" and "ip1 \<noteq> ip2" and "0 \<notin> set msg" and "0x25 \<notin> set msg" and "length msg \<le> 126"
  shows "\<exists>reg r1 out r2 rt1 rt2 s. register_mq os_write 1 (inet_ntoa ip1) = Inr (reg, r1) \<and>
    mq_send os_write msg = Inr (out, r2) \<and>
    accept_all [(c1, f1, ip1, p1), (c2, f2, ip2, p2)] mq_runtime_new = Inr rt1 \<and>
    recv_job junk c2 [reg] False rt1 = Inr (rt2, []) \<and> recv_job junk c1 [out] False rt2 = Inr (w_rt s, w_out s) \<and>
    reach mq_init (mq_step n False) s \<and>
    relations (rt_server (w_rt s)) = [inet_ntoa ip1 \<mapsto> [inet_ntoa ip2]] \<and>
    w_out s = [(f1, take (length msg + 2) (payload msg @ 0 # junk))]"
  using session_run [OF assms] .

theorem mq_session_witness:
  "\<exists>s. reach mq_init (mq_step 1 False) s \<and> w_out s = [(5, [104, 105, 0, 7])]"
  using mq_session [of 1 3 4 "(10, 0, 0, 1)" "(10, 0, 0, 2)" "[104, 105]" "\<lambda>_. 0" 5 0 6 0 "[7]"]
  by (auto simp: payload_def)

lemma one_client: "\<exists>s. reach mq_init (mq_step 1 b) s \<and> at_rest s \<and> c \<in> rt_polled (w_rt s)"
proof -
  obtain rt where rt: "accept_all [(c, f, ip, p)] (w_rt mq_start) = Inr rt" "c \<in> rt_polled rt"
    using accept_all_server [of "[(c, f, ip, p)]" "w_rt mq_start"] by auto
  have "rt_conns (w_rt mq_start) = Map.empty" by (simp add: mq_start_def mq_runtime_new_def)
  then have "reach mq_init (mq_step 1 b) (mq_start\<lparr>w_rt := rt\<rparr>)" "at_rest (mq_start\<lparr>w_rt := rt\<rparr>)"
    using served_accept [OF reach_start _ _ _ rt(1), where n = 1] by simp_all
  then show ?thesis using rt(2) by (intro exI [of _ "mq_start\<lparr>w_rt := rt\<rparr>"]) simp
qed

text \<open>
  no worker runs \<^verbatim>\<open>recv_msg\<close> on a deleted connection as long as no peer closes: the connection of every such job
  exists, and so do all connections in the poller.
\<close>

theorem mq_loop_connections_exist:
  assumes "reach mq_init (mq_step n False) s"
  shows "(w_run s w = Some (Recv_msg c) \<or> Recv_msg c \<in> set (rt_jobs (w_rt s)) \<or> c \<in> rt_polled (w_rt s)) \<longrightarrow>
    (\<exists>mc. rt_conns (w_rt s) c = Some mc)"
  using mqs.reach_inv [OF assms] unfolding mq_safe_def by blast

text \<open>
  C18: but when a peer closes, a worker can use a deleted connection. From every state at rest that a server with a
  worker reaches, and for every connection in its poller, it can get there: the connection is reported twice before it is read,
  the first job finds the end of input and deletes the connection, and the second runs on freed memory.
\<close>

theorem mq_loop_use_after_free:
  assumes R: "reach mq_init (mq_step n True) s" and rest: "at_rest s" and "0 < n" and c: "c \<in> rt_polled (w_rt s)"
  shows "\<exists>s'. reach mq_init (mq_step n True) s' \<and> w_fault s' = Some Use_after_free \<and> rt_conns (w_rt s') c = None"
proof -
  let ?R = "reach mq_init (mq_step n True)" and ?j = "Recv_msg c"
  have r: "w_fault s = None" "w_run s = (\<lambda>_. None)" "rt_jobs (w_rt s) = []" using rest by (simp_all add: at_rest_def)
  obtain mc where mc: "rt_conns (w_rt s) c = Some mc" using mql.reach_inv [OF R] c by (auto simp: mq_inv_def)
  let ?rt = "\<lambda>js. (w_rt s)\<lparr>rt_jobs := js\<rparr>"
  let ?del = "(w_rt s)\<lparr>rt_jobs := [?j], rt_polled := rt_polled (w_rt s) - {c}, rt_conns := (rt_conns (w_rt s))(c := None)\<rparr>"
  have 1: "?R (s\<lparr>w_rt := ?rt [?j]\<rparr>)"
    using reach_step [OF R mq_poll_conn [OF r(1) c, of _ _ True]] r(3) by (simp add: poll_one_def)
  have 2: "?R (s\<lparr>w_rt := ?rt [?j, ?j]\<rparr>)"
    using reach_step [OF 1 mq_poll_conn [of _ c _ _ True]] c r(1) by (simp add: poll_one_def)
  have 3: "?R (s\<lparr>w_rt := ?rt [?j], w_run := [0 \<mapsto> ?j]\<rparr>)"
    using reach_step [OF 2 mq_take [of _ 0 n ?j "[?j]"]] r(1,2) assms(3) by simp
  have "recv_job [] c [] True (?rt [?j]) = Inr (?del, [])"
    using mc by (simp add: recv_job_def recv_msg_def)
  then have 4: "?R (s\<lparr>w_rt := ?del, w_run := (\<lambda>_. None)\<rparr>)"
    using reach_step [OF 3 mq_recv [of _ 0 c True True "[]" "[]" ?del "[]"]] r(1) by simp
  have 5: "?R (s\<lparr>w_rt := ?del\<lparr>rt_jobs := []\<rparr>, w_run := [0 \<mapsto> ?j]\<rparr>)"
    using reach_step [OF 4 mq_take [of _ 0 n ?j "[]"]] r(1) assms(3) by simp
  have "recv_job [] c [] True (?del\<lparr>rt_jobs := []\<rparr>) = Inl Use_after_free" by (simp add: recv_job_def)
  then have "?R (s\<lparr>w_rt := ?del\<lparr>rt_jobs := []\<rparr>, w_run := [0 \<mapsto> ?j], w_fault := Some Use_after_free\<rparr>)"
    using reach_step [OF 5 mq_fault [of _ 0 c True True "[]" "[]" Use_after_free]] r(1) by simp
  then show ?thesis by force
qed

theorem mq_loop_use_after_free_witness:
  "\<exists>s'. reach mq_init (mq_step 1 True) s' \<and> w_fault s' = Some Use_after_free \<and> rt_conns (w_rt s') 3 = None"
proof -
  obtain s where "reach mq_init (mq_step 1 True) s" "at_rest s" "3 \<in> rt_polled (w_rt s)" using one_client by blast
  then show ?thesis using mq_loop_use_after_free [of 1 s 3] by simp
qed

theorem mq_loop_connections_exist_witness:
  "\<exists>s mc. reach mq_init (mq_step 1 False) s \<and> 3 \<in> rt_polled (w_rt s) \<and> rt_conns (w_rt s) 3 = Some mc"
proof -
  obtain s where s: "reach mq_init (mq_step 1 False) s" "3 \<in> rt_polled (w_rt s)" using one_client by blast
  then show ?thesis using mq_loop_connections_exist [OF s(1), of 0 3] by blast
qed

theorem mq_loop_never_forwards_witness:
  "\<exists>s. reach mq_init (mq_step 1 False) s \<and> w_out s = [(5, [104, 105, 0, 7])] \<and> 5 \<in> w_spoke s"
proof -
  obtain s where s: "reach mq_init (mq_step 1 False) s" "w_out s = [(5, [104, 105, 0, 7])]"
    using session_run [of 1 3 4 "(10, 0, 0, 1)" "(10, 0, 0, 2)" "[104, 105]" "\<lambda>_. 0" 5 0 6 0 "[7]"]
    by (auto simp: payload_def)
  then show ?thesis using mq_loop_never_forwards [OF s(1), of 5 "[104, 105, 0, 7]"] by auto
qed

end
