(* ===== verification/Mq_Test.thy ===== *)
theory Mq_Test
  imports Mq_Loop
begin

text \<open>
  The client program \<^verbatim>\<open>test_mq_client.cpp\<close>, up to the point where it waits for its threads, and what its registration
  does at the server.
\<close>

section \<open>Definitions\<close>

text \<open>
  The name given to \<^verbatim>\<open>register_mq\<close>: for a subscriber the part of the address before the colon, copied into 128
  bytes. Without a colon the length is \<^verbatim>\<open>npos\<close>, and the copy leaves both arrays.
\<close>

definition publisher_arg :: "c_int \<Rightarrow> byte list \<Rightarrow> byte list result" where
  "publisher_arg role ser_ip_port =
     (if role \<noteq> 0 then
        (case str_find COLON ser_ip_port of
           None \<Rightarrow> Inl Out_of_bounds
         | Some index \<Rightarrow> c_memcpy (replicate 128 0) 0 (ser_ip_port @ [0]) 0 index)
      else Inr (replicate 128 0))"

text \<open>
  \<^verbatim>\<open>main\<close> with its arguments, the program's name first: \<open>None\<close> for the usage message, otherwise the role and what was
  written to the server. A failed \<^verbatim>\<open>connect\<close> or \<^verbatim>\<open>register_mq\<close> ends in \<^verbatim>\<open>handle_error\<close>, which exits.
\<close>

definition test_mq_client_main :: "int \<Rightarrow> int \<Rightarrow> (byte list \<Rightarrow> 16 word \<Rightarrow> int) \<Rightarrow> (byte list \<Rightarrow> int) \<Rightarrow> byte list list \<Rightarrow>
    (c_int \<times> byte list) option result" where
  "test_mq_client_main junk os_socket os_connect os_write argv =
     (case argv of
        _ # ser_ip_port # arg2 # _ \<Rightarrow>
          let role = atoi (arg2 @ [0]);
              (mc, ret) = mq_connect os_socket os_connect (mq_client_new junk ser_ip_port)
          in if ret \<noteq> 0 then Inl Exited
             else res_bind (publisher_arg role ser_ip_port) (\<lambda>publisher_name.
                  res_bind (register_mq os_write (sint role) publisher_name) (\<lambda>(out, ret).
                  if ret \<noteq> 0 then Inl Exited else Inr (Some (role, out))))
      | _ \<Rightarrow> Inr None)"

section \<open>Registration\<close>

lemma publisher_arg_host:
  assumes "COLON \<notin> set ip" and "length ip \<le> 128" and "role \<noteq> 0"
  shows "publisher_arg role (ip @ COLON # p) = Inr (ip @ replicate (128 - length ip) 0)"
  using assms str_find_append [OF assms(1), of p] by (simp add: publisher_arg_def c_memcpy_def mem_write_def)

lemma c_str_padded: "0 \<notin> set a \<Longrightarrow> c_str (a @ replicate k 0) = a"
  by (simp add: c_str_replicate_nul c_str_all_no_nul)

lemma register_mq_c_str: "register_mq os_write role a = register_mq os_write role (c_str a)"
proof -
  have "c_str (c_str a) = c_str a" by (rule c_str_all_no_nul) simp
  then show ?thesis by (simp only: register_mq_def role_frame_def)
qed

lemma inet_ntoa_no_colon: "COLON \<notin> set (inet_ntoa ip)"
proof -
  have "COLON \<notin> set (to_string n)" for n
    using to_string_digits(1) [of n] digit_not_sep by (auto simp: list_all_iff)
  then show ?thesis by (cases ip) (simp add: inet_ntoa_def DOT_def COLON_def)
qed

text \<open>
  The test client, run as a subscriber of \<^verbatim>\<open>host:port\<close>, subscribes to the host of the server itself. With a connection that works it
  writes one frame; received by a server that knows a peer of this host, it adds the client to the subscribers of
  that host, and to no others. When the connection fails it exits without writing.
\<close>

theorem test_client_subscribes:
  assumes "argv = [prog, inet_ntoa ip @ COLON # to_string p, to_string 1]" and "p < 2 ^ 31"
    and "\<forall>out. os_write out = int (length out)"
    and "rt_conns rt c = Some mc" and "fd_addrs (rt_server rt) (inet_ntoa ip) = Some f"
  shows "if os_connect (inet_ntoa ip) (of_nat p) < 0 then test_mq_client_main junk fd os_connect os_write argv = Inl Exited
    else \<exists>out rt'. test_mq_client_main junk fd os_connect os_write argv = Inr (Some (1, out)) \<and>
      recv_job rest c [out] False rt = Inr (rt', []) \<and>
      relations (rt_server rt') = (relations (rt_server rt))
        (inet_ntoa ip \<mapsto> map_list (relations (rt_server rt)) (inet_ntoa ip) @ [conn_addr mc])"
proof -
  let ?ip = "inet_ntoa ip" and ?out = "0x4 # inet_ntoa ip @ [0]"
  note nc = inet_ntoa_no_colon [of ip] and b = inet_ntoa_bounds [of ip]
  have len: "length ?ip \<le> 125" "length ?ip \<le> 128" using b(1) by simp_all
  note sub = subscribe_frame [OF b(2) len(1) assms(5)]
  have conn: "snd (mq_connect fd os_connect (mq_client_new junk (?ip @ COLON # to_string p))) =
      (if os_connect ?ip (of_nat p) < 0 then -1 else 0)"
    using atoi_to_string [OF assms(2), of "[]"] str_find_append [OF nc]
    by (simp add: mq_connect_def mq_client_new_def get_ip_port_def ucast_of_nat_16 Let_def)
  then obtain mc' where conn': "mq_connect fd os_connect (mq_client_new junk (?ip @ COLON # to_string p)) =
      (mc', if os_connect ?ip (of_nat p) < 0 then -1 else 0)"
    by (cases "mq_connect fd os_connect (mq_client_new junk (?ip @ COLON # to_string p))") simp
  have role: "atoi (to_string 1 @ [0]) = 1" using atoi_to_string [of 1 "[]"] by simp
  have "register_mq os_write 1 (?ip @ replicate (128 - length ?ip) 0) = Inr (?out, 0)"
    using sub(1) assms(3) b(2) by (subst register_mq_c_str) (simp add: c_str_padded)
  then have "test_mq_client_main junk fd os_connect os_write argv =
      (if os_connect ?ip (of_nat p) < 0 then Inl Exited else Inr (Some (1, ?out)))"
    using conn' role publisher_arg_host [OF nc len(2), of 1]
    by (simp add: test_mq_client_main_def assms(1) Let_def)
  moreover have "recv_job rest c [?out] False rt = Inr (rt\<lparr>rt_server := (rt_server rt)\<lparr>
      fd_addrs := map_insert (fd_addrs (rt_server rt)) (conn_addr mc) (conn_fd mc),
      relations := (relations (rt_server rt))(?ip \<mapsto> map_list (relations (rt_server rt)) ?ip @ [conn_addr mc])\<rparr>\<rparr>, [])"
    using sub(2) [of rest mc] assms(4) by (simp add: recv_job_def)
  ultimately show ?thesis by simp
qed

theorem test_client_subscribes_witness:
  "\<exists>out rt'. test_mq_client_main 0 7 (\<lambda>_ _. 0) (\<lambda>out. int (length out)) [[], inet_ntoa (10, 0, 0, 1) @ COLON # to_string 16667, to_string 1] =
      Inr (Some (1, out)) \<and> recv_job [] 3 [out] False ex_runtime = Inr (rt', [])"
  using test_client_subscribes [OF refl, of 16667 "\<lambda>out. int (length out)" ex_runtime 3
      "\<lparr>conn_fd = 6, conn_addr = inet_ntoa (10, 0, 0, 2)\<rparr>" "(10, 0, 0, 1)" 5 "\<lambda>_ _. 0" 0 7 "[]" "[]"]
  by (auto simp: ex_runtime_def new_server_def)

end
