(* ===== verification/Job_Queue.thy ===== *)
theory Job_Queue
  imports Prelude
begin

text \<open>
  \<^verbatim>\<open>job_queue.cpp\<close>: the bounded task queue shared by producers and workers, with its mutex and
  its two condition variables. The critical sections are functions on the queue; a step relation
  interleaves the calls of any number of threads, with blocking, wake-ups by
  \<^verbatim>\<open>pthread_cond_signal\<close> and spurious wake-ups. The queue is shown to be a bounded FIFO buffer
  under every interleaving; wake-ups are never lost for a single consumer (or producer), and can
  be lost with two.
\<close>

section \<open>The queue\<close>

record 'a task_queue =
  q_empty :: bool
  q_full :: bool
  max_queue_size :: int
  q_elems :: "'a list"

definition new_task_queue :: "'a task_queue" where
  "new_task_queue = \<lparr>q_empty = True, q_full = False, max_queue_size = 2000, q_elems = []\<rparr>"

definition is_full :: "'a task_queue \<Rightarrow> bool" where
  "is_full q = q_full q"

definition is_empty :: "'a task_queue \<Rightarrow> bool" where
  "is_empty q = q_empty q"

definition get_queue :: "'a task_queue \<Rightarrow> 'a list" where
  "get_queue q = q_elems q"

text \<open>
  The critical section of \<^verbatim>\<open>push\<close> after its waiting loop. The second component tells whether
  \<^verbatim>\<open>not_empty\<close> is signalled.
\<close>

definition push_body :: "'a \<Rightarrow> 'a task_queue \<Rightarrow> 'a task_queue \<times> bool" where
  "push_body qe q =
     (let q = q\<lparr>q_elems := get_queue q @ [qe]\<rparr>;
          sig = q_empty q;
          q = q\<lparr>q_empty := False\<rparr>;
          q = (if int (length (q_elems q)) = max_queue_size q then q\<lparr>q_full := True\<rparr> else q)
      in (q, sig))"

text \<open>
  The critical section of \<^verbatim>\<open>pop\<close>; \<open>None\<close> is the undefined \<^verbatim>\<open>front\<close> of an empty \<^verbatim>\<open>std::queue\<close>. The
  last component tells whether \<^verbatim>\<open>not_full\<close> is signalled.
\<close>

definition pop_body :: "'a task_queue \<Rightarrow> ('a \<times> 'a task_queue \<times> bool) option" where
  "pop_body q = (case get_queue q of
      [] \<Rightarrow> None
    | qe_front # rest \<Rightarrow>
        (let q = q\<lparr>q_elems := rest\<rparr>;
             q = (if int (length (q_elems q)) = 0 then q\<lparr>q_empty := True\<rparr> else q);
             sig = q_full q;
             q = q\<lparr>q_full := False\<rparr>
         in Some (qe_front, q, sig)))"

text \<open>The flags say what the list says.\<close>

definition wf_queue :: "'a task_queue \<Rightarrow> bool" where
  "wf_queue q \<longleftrightarrow> 0 < max_queue_size q \<and> int (length (q_elems q)) \<le> max_queue_size q \<and>
     (q_empty q \<longleftrightarrow> q_elems q = []) \<and> (q_full q \<longleftrightarrow> int (length (q_elems q)) = max_queue_size q)"

section \<open>Interface: a bounded FIFO buffer\<close>

locale bounded_fifo =
  fixes invar :: "'q \<Rightarrow> bool"
    and elems :: "'q \<Rightarrow> 'a list"
    and bound :: "'q \<Rightarrow> int"
    and full :: "'q \<Rightarrow> bool"
    and empty :: "'q \<Rightarrow> bool"
    and push :: "'a \<Rightarrow> 'q \<Rightarrow> 'q \<times> bool"
    and pop :: "'q \<Rightarrow> ('a \<times> 'q \<times> bool) option"
  assumes full_iff: "invar q \<Longrightarrow> full q \<longleftrightarrow> int (length (elems q)) = bound q"
    and empty_iff: "invar q \<Longrightarrow> empty q \<longleftrightarrow> elems q = []"
    and push_spec: "invar q \<Longrightarrow> \<not> full q \<Longrightarrow> push x q = (q', s) \<Longrightarrow>
          invar q' \<and> elems q' = elems q @ [x] \<and> bound q' = bound q \<and> (s \<longleftrightarrow> elems q = [])"
    and pop_spec: "invar q \<Longrightarrow> \<not> empty q \<Longrightarrow>
          \<exists>x q' s. pop q = Some (x, q', s) \<and> invar q' \<and> elems q = x # elems q' \<and>
            bound q' = bound q \<and> (s \<longleftrightarrow> full q)"
begin

lemma pop_Some:
  assumes "invar q" and "\<not> empty q" and "pop q = Some (x, q', s)"
  shows "invar q'" "elems q = x # elems q'" "bound q' = bound q" "s \<longleftrightarrow> full q"
  using pop_spec [OF assms(1,2)] assms(3) by auto

lemma push_then_pop:
  assumes "invar q" and "\<not> full q" and "push x q = (q', s)"
  shows "\<exists>y q'' s'. pop q' = Some (y, q'', s') \<and> y # elems q'' = elems q @ [x]"
proof -
  have q': "invar q'" "elems q' = elems q @ [x]" using push_spec [OF assms] by auto
  then have "\<not> empty q'" using empty_iff by simp
  then show ?thesis using pop_spec [OF q'(1)] q'(2) by force
qed

end

lemma wf_new_task_queue [simp]: "wf_queue new_task_queue"
  by (simp add: wf_queue_def new_task_queue_def)

interpretation tq: bounded_fifo wf_queue get_queue max_queue_size is_full is_empty push_body pop_body
proof unfold_locales
  fix q :: "'a task_queue" and q' :: "'a task_queue" and x s
  show "wf_queue q \<Longrightarrow> is_full q \<longleftrightarrow> int (length (get_queue q)) = max_queue_size q"
    "wf_queue q \<Longrightarrow> is_empty q \<longleftrightarrow> get_queue q = []"
    by (simp_all add: wf_queue_def is_full_def is_empty_def get_queue_def)
  show "wf_queue q' \<and> get_queue q' = get_queue q @ [x] \<and> max_queue_size q' = max_queue_size q \<and>
      (s \<longleftrightarrow> get_queue q = [])"
    if "wf_queue q" "\<not> is_full q" "push_body x q = (q', s)"
    using that by (auto simp: wf_queue_def is_full_def get_queue_def push_body_def Let_def
        split: if_splits)
  show "\<exists>x q' s. pop_body q = Some (x, q', s) \<and> wf_queue q' \<and> get_queue q = x # get_queue q' \<and>
      max_queue_size q' = max_queue_size q \<and> (s \<longleftrightarrow> is_full q)"
    if "wf_queue q" "\<not> is_empty q"
    using that by (auto simp: wf_queue_def is_full_def is_empty_def get_queue_def pop_body_def Let_def
        neq_Nil_conv)
qed

section \<open>Threads\<close>

datatype 'a call = Call_push 'a | Call_pop

text \<open>
  Where a thread stands: outside of the queue, at \<^verbatim>\<open>pthread_mutex_lock\<close>, at the test of the
  waiting loop (holding the mutex), asleep in \<^verbatim>\<open>pthread_cond_wait\<close>, woken and waiting for the
  mutex, or at \<^verbatim>\<open>pthread_mutex_unlock\<close>.
\<close>

datatype 'a pc = Outside | At_lock "'a call" | At_test "'a call" | In_wait "'a call"
  | Woken "'a call" | At_unlock "'a call"

text \<open>\<open>in_log\<close> and \<open>out_log\<close> record the completed insertions and removals; the code has no such logs.\<close>

record 'a jq_state =
  tq_state :: "'a task_queue"
  queue_mutex :: "nat option"
  pcs :: "nat \<Rightarrow> 'a pc"
  in_log :: "'a list"
  out_log :: "(nat \<times> 'a) list"

text \<open>The condition of the waiting loop, and the sleepers on the two condition variables.\<close>

primrec must_wait :: "'a task_queue \<Rightarrow> 'a call \<Rightarrow> bool" where
  "must_wait q (Call_push x) = q_full q"
| "must_wait q Call_pop = q_empty q"

definition on_not_full :: "(nat \<Rightarrow> 'a pc) \<Rightarrow> nat set" where
  "on_not_full f = {t. \<exists>x. f t = In_wait (Call_push x)}"

definition on_not_empty :: "(nat \<Rightarrow> 'a pc) \<Rightarrow> nat set" where
  "on_not_empty f = {t. f t = In_wait Call_pop}"

text \<open>\<^verbatim>\<open>pthread_cond_signal\<close> unblocks at least one of the threads blocked on the variable, if any.\<close>

definition signal_ok :: "bool \<Rightarrow> nat set \<Rightarrow> nat set \<Rightarrow> bool" where
  "signal_ok sig ws W \<longleftrightarrow> (if sig then W \<subseteq> ws \<and> (ws \<noteq> {} \<longrightarrow> W \<noteq> {}) else W = {})"

definition wake :: "nat set \<Rightarrow> (nat \<Rightarrow> 'a pc) \<Rightarrow> nat \<Rightarrow> 'a pc" where
  "wake W f t = (if t \<in> W then (case f t of In_wait c \<Rightarrow> Woken c | p \<Rightarrow> p) else f t)"

text \<open>\<open>P\<close> are the threads that may call \<^verbatim>\<open>push\<close>, \<open>C\<close> those that may call \<^verbatim>\<open>pop\<close>.\<close>

inductive jq_step :: "nat set \<Rightarrow> nat set \<Rightarrow> 'a jq_state \<Rightarrow> 'a jq_state \<Rightarrow> bool"
  for P C :: "nat set" where
  call: "pcs s t = Outside \<Longrightarrow> (case c of Call_push x \<Rightarrow> t \<in> P | Call_pop \<Rightarrow> t \<in> C) \<Longrightarrow>
    jq_step P C s (s\<lparr>pcs := (pcs s)(t := At_lock c)\<rparr>)"
| lock: "pcs s t = At_lock c \<or> pcs s t = Woken c \<Longrightarrow> queue_mutex s = None \<Longrightarrow>
    jq_step P C s (s\<lparr>queue_mutex := Some t, pcs := (pcs s)(t := At_test c)\<rparr>)"
| wait: "pcs s t = At_test c \<Longrightarrow> must_wait (tq_state s) c \<Longrightarrow>
    jq_step P C s (s\<lparr>queue_mutex := None, pcs := (pcs s)(t := In_wait c)\<rparr>)"
| push: "pcs s t = At_test (Call_push x) \<Longrightarrow> \<not> must_wait (tq_state s) (Call_push x) \<Longrightarrow>
    push_body x (tq_state s) = (q', sig) \<Longrightarrow> signal_ok sig (on_not_empty (pcs s)) W \<Longrightarrow>
    jq_step P C s (s\<lparr>tq_state := q', pcs := (wake W (pcs s))(t := At_unlock (Call_push x)),
      in_log := in_log s @ [x]\<rparr>)"
| pop: "pcs s t = At_test Call_pop \<Longrightarrow> \<not> must_wait (tq_state s) Call_pop \<Longrightarrow>
    pop_body (tq_state s) = Some (x, q', sig) \<Longrightarrow> signal_ok sig (on_not_full (pcs s)) W \<Longrightarrow>
    jq_step P C s (s\<lparr>tq_state := q', pcs := (wake W (pcs s))(t := At_unlock Call_pop),
      out_log := out_log s @ [(t, x)]\<rparr>)"
| unlock: "pcs s t = At_unlock c \<Longrightarrow>
    jq_step P C s (s\<lparr>queue_mutex := None, pcs := (pcs s)(t := Outside)\<rparr>)"
| spurious: "pcs s t = In_wait c \<Longrightarrow>
    jq_step P C s (s\<lparr>pcs := (pcs s)(t := Woken c)\<rparr>)"

definition jq_start :: "'a jq_state" where
  "jq_start = \<lparr>tq_state = new_task_queue, queue_mutex = None, pcs = (\<lambda>_. Outside),
               in_log = [], out_log = []\<rparr>"

definition jq_init :: "'a jq_state \<Rightarrow> bool" where
  "jq_init s \<longleftrightarrow> s = jq_start"

inductive_cases jq_stepE: "jq_step P C s s'"

section \<open>Invariants\<close>

definition holds_mutex :: "'a pc \<Rightarrow> bool" where
  "holds_mutex p = (case p of At_test c \<Rightarrow> True | At_unlock c \<Rightarrow> True | _ \<Rightarrow> False)"

definition jq_inv :: "'a jq_state \<Rightarrow> bool" where
  "jq_inv s \<longleftrightarrow> wf_queue (tq_state s) \<and> max_queue_size (tq_state s) = 2000 \<and>
     (\<forall>t. holds_mutex (pcs s t) \<longleftrightarrow> queue_mutex s = Some t)"

lemma holds_mutex_simps [simp]:
  "\<not> holds_mutex Outside" "\<not> holds_mutex (At_lock c)" "holds_mutex (At_test c)"
  "\<not> holds_mutex (In_wait c)" "\<not> holds_mutex (Woken c)" "holds_mutex (At_unlock c)"
  by (simp_all add: holds_mutex_def)

lemma holds_mutex_wake [simp]: "holds_mutex (wake W f t) = holds_mutex (f t)"
  by (simp add: wake_def split: pc.splits)

lemma must_wait_flags: "q_full = is_full" "q_empty = is_empty"
  by (simp_all add: is_full_def is_empty_def fun_eq_iff)

lemma mutex_step:
  assumes "\<And>t. holds_mutex (pcs s t) \<longleftrightarrow> queue_mutex s = Some t" and "jq_step P C s s'"
  shows "holds_mutex (pcs s' t) \<longleftrightarrow> queue_mutex s' = Some t"
  using assms(2)
proof cases
  case (unlock u c)
  then have "queue_mutex s = Some u" using assms(1) [of u] by simp
  with unlock show ?thesis using assms(1) by simp
next
  case (wait u c)
  then have "queue_mutex s = Some u" using assms(1) [of u] by simp
  with wait show ?thesis using assms(1) by simp
next
  case (push u x q' sig W)
  then have "queue_mutex s = Some u" using assms(1) [of u] by simp
  with push show ?thesis using assms(1) by auto
next
  case (pop u x q' sig W)
  then have "queue_mutex s = Some u" using assms(1) [of u] by simp
  with pop show ?thesis using assms(1) by auto
next
  case (call u c)
  then show ?thesis using assms(1) [of t] assms(1) [of u] by auto
next
  case (lock u c)
  then show ?thesis using assms(1) [of t] by auto
next
  case (spurious u c)
  then show ?thesis using assms(1) [of t] assms(1) [of u] by auto
qed

lemma queue_step:
  assumes "wf_queue (tq_state s)" and "jq_step P C s s'"
  shows "wf_queue (tq_state s') \<and> max_queue_size (tq_state s') = max_queue_size (tq_state s)"
  using assms(2)
proof cases
  case (push t x q' sig W)
  then show ?thesis
    using assms(1) tq.push_spec [of "tq_state s" x q' sig] by (simp add: must_wait_flags)
next
  case (pop t x q' sig W)
  then show ?thesis
    using assms(1) tq.pop_Some [of "tq_state s" x q' sig] by (simp add: must_wait_flags)
qed (use assms(1) in auto)

lemma jq_inv_step: "jq_inv s \<Longrightarrow> jq_step P C s s' \<Longrightarrow> jq_inv s'"
  using queue_step [of s P C s'] mutex_step [of s P C s'] by (simp add: jq_inv_def)

text \<open>The abstract buffer: the values put in, those waiting, those taken out.\<close>

type_synonym 'a buffer_state = "'a list \<times> 'a list \<times> 'a list"

inductive buf_step :: "'a buffer_state \<Rightarrow> 'a buffer_state \<Rightarrow> bool" where
  put: "length q < 2000 \<Longrightarrow> buf_step (i, q, out) (i @ [x], q @ [x], out)"
| get: "buf_step (i, x # q, out) (i, q, out @ [x])"

definition buf_init :: "'a buffer_state \<Rightarrow> bool" where
  "buf_init b \<longleftrightarrow> b = ([], [], [])"

definition jq_abs :: "'a jq_state \<Rightarrow> 'a buffer_state" where
  "jq_abs s = (in_log s, q_elems (tq_state s), map snd (out_log s))"

lemma jq_abs_step:
  assumes "jq_inv s" and "jq_step P C s s'"
  shows "jq_abs s' = jq_abs s \<or> buf_step (jq_abs s) (jq_abs s')"
  using assms(2)
proof cases
  case (push t x q' sig W)
  then have "length (q_elems (tq_state s)) < 2000"
    using assms(1) by (auto simp: jq_inv_def wf_queue_def)
  with push show ?thesis
    using assms(1) tq.push_spec [of "tq_state s" x q' sig]
    by (simp add: jq_inv_def must_wait_flags jq_abs_def get_queue_def buf_step.put)
next
  case (pop t x q' sig W)
  then show ?thesis
    using assms(1) tq.pop_Some(2) [of "tq_state s" x q' sig]
    by (simp add: jq_inv_def must_wait_flags jq_abs_def get_queue_def buf_step.get)
qed (auto simp: jq_abs_def)

interpretation jqs: refinement_system jq_init "jq_step P C" jq_inv buf_init buf_step jq_abs for P C
proof unfold_locales
  show "jq_init s \<Longrightarrow> jq_inv s" for s :: "'a jq_state"
    by (simp add: jq_init_def jq_inv_def jq_start_def new_task_queue_def wf_queue_def)
  show "jq_init s \<Longrightarrow> buf_init (jq_abs s)" for s :: "'a jq_state"
    by (simp add: jq_init_def jq_start_def jq_abs_def buf_init_def new_task_queue_def)
qed (auto intro: jq_inv_step dest: jq_abs_step)

interpretation buf: invariant_system buf_init buf_step "\<lambda>(i, q, out). i = out @ q \<and> length q \<le> 2000"
  by unfold_locales (auto simp: buf_init_def elim: buf_step.cases)

section \<open>Wake-ups\<close>

fun pc_call :: "'a pc \<Rightarrow> 'a call option" where
  "pc_call Outside = None"
| "pc_call (At_lock c) = Some c"
| "pc_call (At_test c) = Some c"
| "pc_call (In_wait c) = Some c"
| "pc_call (Woken c) = Some c"
| "pc_call (At_unlock c) = Some c"

definition roles :: "nat set \<Rightarrow> nat set \<Rightarrow> 'a jq_state \<Rightarrow> bool" where
  "roles P C s \<longleftrightarrow> (\<forall>t. pc_call (pcs s t) = Some Call_pop \<longrightarrow> t \<in> C) \<and>
     (\<forall>t x. pc_call (pcs s t) = Some (Call_push x) \<longrightarrow> t \<in> P)"

lemma pc_call_wake [simp]: "pc_call (wake W f t) = pc_call (f t)"
  by (simp add: wake_def split: pc.splits)

lemma roles_upd:
  assumes "roles P C s" and "\<And>u. u \<noteq> t \<Longrightarrow> pc_call (pcs s' u) = pc_call (pcs s u)"
    and "pc_call (pcs s' t) = None \<or> pc_call (pcs s' t) = pc_call (pcs s t)"
  shows "roles P C s'"
  using assms unfolding roles_def by (metis option.distinct(1))

lemma roles_step:
  assumes R: "roles P C s" and "jq_step P C s s'"
  shows "roles P C s'"
  using assms(2)
proof cases
  case (call t c)
  then show ?thesis using R by (auto simp: roles_def split: call.splits)
next
  case (lock t c)
  then show ?thesis by (intro roles_upd [OF R, of t]) auto
next
  case (wait t c)
  then show ?thesis by (intro roles_upd [OF R, of t]) auto
next
  case (push t x q' sig W)
  then show ?thesis by (intro roles_upd [OF R, of t]) auto
next
  case (pop t x q' sig W)
  then show ?thesis by (intro roles_upd [OF R, of t]) auto
next
  case (unlock t c)
  then show ?thesis by (intro roles_upd [OF R, of t]) auto
next
  case (spurious t c)
  then show ?thesis by (intro roles_upd [OF R, of t]) auto
qed

lemma rolesD:
  assumes "roles P C s"
  shows "on_not_empty (pcs s) \<subseteq> C" "on_not_full (pcs s) \<subseteq> P"
  using assms by (auto simp: on_not_empty_def on_not_full_def roles_def)

lemma signal_single:
  assumes "signal_ok sig ws W" and "ws \<subseteq> {c}" and "sig"
  shows "W = ws"
  using assms by (auto simp: signal_ok_def)

text \<open>A sleeper of a lone consumer faces an empty queue, one of a lone producer a full one.\<close>

definition sleepers_ok :: "nat set \<Rightarrow> nat set \<Rightarrow> 'a jq_state \<Rightarrow> bool" where
  "sleepers_ok P C s \<longleftrightarrow> jq_inv s \<and> roles P C s \<and>
     ((\<exists>c. C \<subseteq> {c}) \<longrightarrow> on_not_empty (pcs s) \<noteq> {} \<longrightarrow> q_elems (tq_state s) = []) \<and>
     ((\<exists>p. P \<subseteq> {p}) \<longrightarrow> on_not_full (pcs s) \<noteq> {} \<longrightarrow> int (length (q_elems (tq_state s))) = 2000)"

lemma on_cond_upd:
  "on_not_empty (f(t := p)) = (if p = In_wait Call_pop then insert t (on_not_empty f) else on_not_empty f - {t})"
  "on_not_full (f(t := p)) = (if \<exists>x. p = In_wait (Call_push x) then insert t (on_not_full f) else on_not_full f - {t})"
  by (auto simp: on_not_empty_def on_not_full_def)

lemma wake_simps [simp]:
  "wake {} f = f" "(wake W (f(t := p)))(t := p') = (wake W f)(t := p')"
  by (auto simp: wake_def fun_eq_iff)

lemma wake_In_wait: "wake W f t = In_wait c \<longleftrightarrow> t \<notin> W \<and> f t = In_wait c"
  by (cases "f t") (auto simp: wake_def)

lemma on_cond_wake:
  "on_not_empty (wake W f) = on_not_empty f - W" "on_not_full (wake W f) = on_not_full f - W"
  by (auto simp: on_not_empty_def on_not_full_def wake_In_wait)

lemma on_cond_disjoint: "on_not_empty f \<inter> on_not_full f = {}"
  by (auto simp: on_not_empty_def on_not_full_def)

lemma sleepers_push:
  assumes S: "sleepers_ok P C s" and t: "pcs s t = At_test (Call_push x)" and nf: "\<not> q_full (tq_state s)"
    and b: "push_body x (tq_state s) = (q', sig)" and sg: "signal_ok sig (on_not_empty (pcs s)) W"
  shows "((\<exists>c. C \<subseteq> {c}) \<longrightarrow> on_not_empty (pcs s) - W = {}) \<and> ((\<exists>p. P \<subseteq> {p}) \<longrightarrow> on_not_full (pcs s) = {})"
proof -
  have q: "wf_queue (tq_state s)" "max_queue_size (tq_state s) = 2000"
    and R: "on_not_empty (pcs s) \<subseteq> C" "on_not_full (pcs s) \<subseteq> P"
    using S rolesD [of P C s] by (simp_all add: sleepers_ok_def jq_inv_def)
  have sig: "sig \<longleftrightarrow> q_elems (tq_state s) = []"
    using tq.push_spec [OF q(1) _ b] nf by (simp add: must_wait_flags get_queue_def)
  have "on_not_empty (pcs s) - W = {}" if "C \<subseteq> {c}" for c
  proof (cases sig)
    case True
    then show ?thesis using signal_single [OF sg, of c] R(1) that by auto
  next
    case False
    then show ?thesis using S sig that by (auto simp: sleepers_ok_def)
  qed
  moreover have "on_not_full (pcs s) = {}" if "P \<subseteq> {p}" for p
    using S nf q that by (auto simp: sleepers_ok_def wf_queue_def)
  ultimately show ?thesis by blast
qed

lemma sleepers_pop:
  assumes S: "sleepers_ok P C s" and t: "pcs s t = At_test Call_pop" and ne: "\<not> q_empty (tq_state s)"
    and b: "pop_body (tq_state s) = Some (x, q', sig)" and sg: "signal_ok sig (on_not_full (pcs s)) W"
  shows "((\<exists>c. C \<subseteq> {c}) \<longrightarrow> on_not_empty (pcs s) = {}) \<and> ((\<exists>p. P \<subseteq> {p}) \<longrightarrow> on_not_full (pcs s) - W = {})"
proof -
  have q: "wf_queue (tq_state s)" "max_queue_size (tq_state s) = 2000"
    and R: "on_not_empty (pcs s) \<subseteq> C" "on_not_full (pcs s) \<subseteq> P"
    using S rolesD [of P C s] by (simp_all add: sleepers_ok_def jq_inv_def)
  have sig: "sig \<longleftrightarrow> int (length (q_elems (tq_state s))) = 2000"
    using tq.pop_Some(4) [OF q(1) _ b] ne q by (simp add: must_wait_flags [symmetric] wf_queue_def)
  have "on_not_full (pcs s) - W = {}" if "P \<subseteq> {p}" for p
  proof (cases sig)
    case True
    then show ?thesis using signal_single [OF sg, of p] R(2) that by auto
  next
    case False
    then show ?thesis using S sig that by (auto simp: sleepers_ok_def)
  qed
  moreover have "on_not_empty (pcs s) = {}" if "C \<subseteq> {c}" for c
    using S ne q that by (auto simp: sleepers_ok_def wf_queue_def)
  ultimately show ?thesis by blast
qed

lemma sleepers_step:
  assumes S: "sleepers_ok P C s" and st: "jq_step P C s s'"
  shows "sleepers_ok P C s'"
proof -
  have I: "jq_inv s'" "roles P C s'"
    using S jq_inv_step [OF _ st] roles_step [OF _ st] by (simp_all add: sleepers_ok_def)
  show ?thesis
    using st
  proof cases
    case (push t x q' sig W)
    then show ?thesis
      using sleepers_push [OF S push(2) _ push(4,5)] I by (simp add: sleepers_ok_def on_cond_upd on_cond_wake) blast
  next
    case (pop t x q' sig W)
    then show ?thesis
      using sleepers_pop [OF S pop(2) _ pop(4,5)] I by (simp add: sleepers_ok_def on_cond_upd on_cond_wake) blast
  next
    case (wait t c)
    have "wf_queue (tq_state s)" "max_queue_size (tq_state s) = 2000"
      using S by (simp_all add: sleepers_ok_def jq_inv_def)
    then show ?thesis
      using wait S I by (cases c) (auto simp: sleepers_ok_def on_cond_upd wf_queue_def)
  qed (use S I in \<open>auto simp: sleepers_ok_def on_cond_upd\<close>)
qed

interpretation slp: invariant_system jq_init "jq_step P C" "sleepers_ok P C" for P C
proof unfold_locales
  show "jq_init s \<Longrightarrow> sleepers_ok P C s" for s :: "'a jq_state"
    using jqs.inv_init [of s]
    by (simp add: sleepers_ok_def jq_init_def jq_start_def roles_def on_not_empty_def on_not_full_def)
qed (auto intro: sleepers_step)

section \<open>Whole calls\<close>

text \<open>Uncontended calls as sequences of steps.\<close>

abbreviation jq_reach :: "nat set \<Rightarrow> nat set \<Rightarrow> 'a jq_state \<Rightarrow> bool" where
  "jq_reach P C \<equiv> reach jq_init (jq_step P C)"

lemma reach_to:
  assumes "jq_reach P C s" and "jq_step P C s s1" and "s1 = s'"
  shows "jq_reach P C s'"
  using assms by (auto intro: reach_step)

lemma pop_sleeps:
  assumes R: "jq_reach P C s" and "pcs s t = Outside" and "t \<in> C" and "queue_mutex s = None"
    and "q_empty (tq_state s)"
  shows "jq_reach P C (s\<lparr>pcs := (pcs s)(t := In_wait Call_pop)\<rparr>)"
proof -
  have "jq_reach P C (s\<lparr>pcs := (pcs s)(t := At_lock Call_pop)\<rparr>)"
    by (rule reach_to [OF R jq_step.call [where t = t and c = "Call_pop"]]) (use assms in auto)
  then have "jq_reach P C (s\<lparr>queue_mutex := Some t, pcs := (pcs s)(t := At_test Call_pop)\<rparr>)"
    by (rule reach_to [OF _ jq_step.lock [where t = t and c = "Call_pop"]]) (use assms in auto)
  then show ?thesis
    by (rule reach_to [OF _ jq_step.wait [where t = t and c = "Call_pop"]]) (use assms in auto)
qed

lemma push_returns:
  assumes R: "jq_reach P C s" and "pcs s t = Outside" and "t \<in> P" and "queue_mutex s = None"
    and "\<not> q_full (tq_state s)" and "push_body x (tq_state s) = (q', sig)"
    and sg: "signal_ok sig (on_not_empty (pcs s)) W"
  shows "jq_reach P C (s\<lparr>tq_state := q', pcs := (wake W (pcs s))(t := Outside), in_log := in_log s @ [x]\<rparr>)"
proof -
  let ?c = "Call_push x"
  have "on_not_empty ((pcs s)(t := At_test ?c)) = on_not_empty (pcs s)"
    using assms(2) by (auto simp: on_not_empty_def)
  note sg' = sg [folded this]
  have "jq_reach P C (s\<lparr>pcs := (pcs s)(t := At_lock ?c)\<rparr>)"
    by (rule reach_to [OF R jq_step.call [where t = t and c = "?c"]]) (use assms in auto)
  then have "jq_reach P C (s\<lparr>queue_mutex := Some t, pcs := (pcs s)(t := At_test ?c)\<rparr>)"
    by (rule reach_to [OF _ jq_step.lock [where t = t and c = "?c"]]) (use assms in auto)
  then have "jq_reach P C (s\<lparr>tq_state := q', queue_mutex := Some t,
      pcs := (wake W (pcs s))(t := At_unlock ?c), in_log := in_log s @ [x]\<rparr>)"
    by (rule reach_to [OF _ jq_step.push [where t = t and x = x and q' = q' and sig = sig and W = W]]) (use assms sg' in auto)
  then show ?thesis
    by (rule reach_to [OF _ jq_step.unlock [where t = t and c = "?c"]]) (use assms in auto)
qed

lemma woken_pop_returns:
  assumes R: "jq_reach P C s" and "pcs s t = Woken Call_pop" and "queue_mutex s = None"
    and "\<not> q_empty (tq_state s)" and "pop_body (tq_state s) = Some (x, q', False)"
  shows "jq_reach P C (s\<lparr>tq_state := q', pcs := (pcs s)(t := Outside), out_log := out_log s @ [(t, x)]\<rparr>)"
proof -
  have "jq_reach P C (s\<lparr>queue_mutex := Some t, pcs := (pcs s)(t := At_test Call_pop)\<rparr>)"
    by (rule reach_to [OF R jq_step.lock [where t = t and c = "Call_pop"]]) (use assms in auto)
  then have "jq_reach P C (s\<lparr>tq_state := q', queue_mutex := Some t,
      pcs := (pcs s)(t := At_unlock Call_pop), out_log := out_log s @ [(t, x)]\<rparr>)"
    by (rule reach_to [OF _ jq_step.pop [where t = t and x = x and q' = q' and sig = False and W = "{}"]]) (use assms in \<open>auto simp: signal_ok_def\<close>)
  then show ?thesis
    by (rule reach_to [OF _ jq_step.unlock [where t = t and c = "Call_pop"]]) (use assms in auto)
qed

text \<open>A state in which one value has been pushed and the consumer sleeps no more.\<close>

definition one_pushed :: "nat jq_state" where
  "one_pushed = jq_start\<lparr>tq_state := new_task_queue\<lparr>q_empty := False, q_elems := [7]\<rparr>, in_log := [7]\<rparr>"

lemma reach_one_pushed: "jq_reach {0} {1} one_pushed"
proof -
  have "jq_reach {0} {1} (jq_start :: nat jq_state)" by (rule reach.reach_init) (simp add: jq_init_def)
  then show ?thesis
    using push_returns [of "{0}" "{1}" jq_start 0 7 "new_task_queue\<lparr>q_empty := False, q_elems := [7]\<rparr>" True "{}"]
    by (simp add: one_pushed_def jq_start_def new_task_queue_def push_body_def get_queue_def Let_def
        signal_ok_def on_not_empty_def fun_upd_idem)
qed

section \<open>A burst of insertions\<close>

text \<open>Threads \<open>m\<close> to \<open>n\<close> sleep in \<^verbatim>\<open>pop\<close>, the others are outside; a queue that holds \<open>xs\<close>.\<close>

definition asleep :: "nat \<Rightarrow> nat \<Rightarrow> nat \<Rightarrow> 'a pc" where
  "asleep m n t = (if m \<le> t \<and> t \<le> n then In_wait Call_pop else Outside)"

definition queue_of :: "'a list \<Rightarrow> 'a task_queue" where
  "queue_of xs = new_task_queue\<lparr>q_empty := (xs = []), q_elems := xs\<rparr>"

lemma push_queue_of:
  "length xs < 1999 \<Longrightarrow> push_body x (queue_of xs) = (queue_of (xs @ [x]), xs = [])"
  by (simp add: push_body_def queue_of_def get_queue_def new_task_queue_def Let_def)

lemma pop_queue_of: "pop_body (queue_of (x # xs)) = Some (x, queue_of xs, False)"
  by (simp add: pop_body_def queue_of_def get_queue_def new_task_queue_def Let_def)

lemma queue_of_flags [simp]: "q_empty (queue_of xs) = (xs = [])" "\<not> q_full (queue_of xs)" "q_elems (queue_of xs) = xs"
  by (simp_all add: queue_of_def new_task_queue_def)

lemma all_sleep: "n \<le> k \<Longrightarrow> jq_reach {0} {1..k} (jq_start\<lparr>pcs := asleep 1 n\<rparr> :: 'a jq_state)"
proof (induction n)
  case 0
  have "asleep 1 0 = (\<lambda>_. Outside :: 'a pc)" by (auto simp: asleep_def)
  then have "jq_start\<lparr>pcs := asleep 1 0\<rparr> = (jq_start :: 'a jq_state)" by (simp add: jq_start_def)
  then show ?case by (intro reach.reach_init) (simp add: jq_init_def)
next
  case (Suc n)
  have upd: "(asleep 1 n)(Suc n := In_wait Call_pop) = (asleep 1 (Suc n) :: nat \<Rightarrow> 'a pc)"
    by (auto simp: asleep_def fun_eq_iff)
  have out: "asleep 1 n (Suc n) = (Outside :: 'a pc)" by (simp add: asleep_def)
  show ?case
    using pop_sleeps [OF Suc.IH, of "Suc n"] Suc.prems out
    by (simp add: upd [unfolded One_nat_def] jq_start_def new_task_queue_def)
qed

lemma burst:
  assumes "jq_reach P C s" and "pcs s t = Outside" and "t \<in> P" and "queue_mutex s = None"
    and "tq_state s = queue_of ys" and "ys \<noteq> []" and "length ys + length xs < 2000"
  shows "jq_reach P C (s\<lparr>tq_state := queue_of (ys @ xs), in_log := in_log s @ xs\<rparr>)"
  using assms
proof (induction xs arbitrary: s ys)
  case (Cons x xs)
  let ?s = "s\<lparr>tq_state := queue_of (ys @ [x]), in_log := in_log s @ [x]\<rparr>"
  have "wake {} (pcs s) = pcs s" by (simp add: wake_def fun_eq_iff)
  then have "jq_reach P C ?s"
    using push_returns [OF Cons.prems(1-4), of x "queue_of (ys @ [x])" False "{}"] Cons.prems(2,5-7) push_queue_of [of ys x]
    by (simp add: signal_ok_def fun_upd_idem)
  from Cons.IH [OF this, of "ys @ [x]"] Cons.prems show ?case by simp
next
  case Nil
  then have "s\<lparr>tq_state := queue_of (ys @ []), in_log := in_log s @ []\<rparr> = s" by (cases s) simp
  with Nil.prems(1) show ?case by (simp only:)
qed

section \<open>Properties\<close>

text \<open>
  C7: under every interleaving of any number of threads, with spurious wake-ups, the queue is a
  FIFO buffer: the values taken out so far followed by those in the queue are the values put in, in
  their order; the queue never holds more than 2000 and the flags \<^verbatim>\<open>empty\<close> and \<^verbatim>\<open>full\<close> are exact.
\<close>

theorem job_queue_fifo:
  assumes "reach jq_init (jq_step P C) s"
  shows "in_log s = map snd (out_log s) @ q_elems (tq_state s) \<and> length (q_elems (tq_state s)) \<le> 2000 \<and>
    (q_empty (tq_state s) \<longleftrightarrow> q_elems (tq_state s) = []) \<and>
    (q_full (tq_state s) \<longleftrightarrow> length (q_elems (tq_state s)) = 2000)"
proof -
  have "jq_inv s" using assms by (rule jqs.reach_inv)
  then show ?thesis
    using buf.reach_inv [OF jqs.reach_abs [OF assms]] by (auto simp: jq_abs_def jq_inv_def wf_queue_def)
qed

theorem job_queue_fifo_witness:
  "in_log one_pushed = [7] \<and> in_log one_pushed = map snd (out_log one_pushed) @ q_elems (tq_state one_pushed)"
  using job_queue_fifo [OF reach_one_pushed] by (simp add: one_pushed_def)

text \<open>
  At most one thread is between \<^verbatim>\<open>lock\<close> and \<^verbatim>\<open>unlock\<close>, and a thread that has passed the waiting
  loop of \<^verbatim>\<open>pop\<close> finds an element: \<^verbatim>\<open>front\<close> is never called on an empty queue.
\<close>

theorem job_queue_safe:
  assumes "reach jq_init (jq_step P C) s"
  shows "(holds_mutex (pcs s t) \<longrightarrow> holds_mutex (pcs s u) \<longrightarrow> t = u) \<and>
    (\<not> must_wait (tq_state s) Call_pop \<longrightarrow> pop_body (tq_state s) \<noteq> None)"
proof -
  have I: "jq_inv s" using assms by (rule jqs.reach_inv)
  then have "wf_queue (tq_state s)" by (simp add: jq_inv_def)
  then show ?thesis
    using I tq.pop_spec [of "tq_state s"] by (auto simp: jq_inv_def must_wait_flags)
qed

theorem job_queue_safe_witness:
  "\<not> must_wait (tq_state one_pushed) Call_pop \<and> pop_body (tq_state one_pushed) \<noteq> None"
  using job_queue_safe [OF reach_one_pushed]
  by (simp add: one_pushed_def jq_start_def new_task_queue_def)

text \<open>
  C8: no wake-up is lost when one thread pops: it sleeps only while the queue is empty. Likewise one
  pushing thread sleeps only while the queue is full, so one producer and one consumer never sleep
  at the same time.
\<close>

theorem job_queue_no_lost_wakeup:
  assumes "reach jq_init (jq_step {p} {c}) s"
  shows "(pcs s t = In_wait Call_pop \<longrightarrow> q_elems (tq_state s) = []) \<and>
    (pcs s t = In_wait (Call_push x) \<longrightarrow> length (q_elems (tq_state s)) = 2000) \<and>
    \<not> (pcs s t = In_wait Call_pop \<and> pcs s u = In_wait (Call_push x))"
proof -
  have "sleepers_ok {p} {c} s" using assms by (rule slp.reach_inv)
  then show ?thesis
    by (auto simp: sleepers_ok_def on_not_empty_def on_not_full_def)
qed

theorem job_queue_no_lost_wakeup_witness:
  "pcs one_pushed 1 \<noteq> In_wait Call_pop \<and> q_elems (tq_state one_pushed) = [7]"
  using job_queue_no_lost_wakeup [OF reach_one_pushed, of 1 7 0]
  by (auto simp: one_pushed_def jq_start_def)

text \<open>
  C9: wake-ups are lost when several consumers sleep. For any number of consumers and any burst of
  jobs that fits the queue: if all consumers sleep when a producer pushes the first job, one is
  woken; the further pushes find the queue not empty and signal nobody. So a state is reachable in which
  one consumer has the first job, all the others sleep, the producer is done, and the rest of
  the jobs wait. The 20 workers of a stage and the three loops of \<^verbatim>\<open>stage::init\<close> are such a case.
\<close>

theorem job_queue_lost_wakeup:
  assumes "1 \<le> n" and "length xs < 1999"
  shows "\<exists>s. reach jq_init (jq_step {0} {1..n}) s \<and> q_elems (tq_state s) = xs \<and> out_log s = [(1, x)] \<and>
     in_log s = x # xs \<and> queue_mutex s = None \<and> pcs s 0 = Outside \<and> pcs s 1 = Outside \<and>
     (\<forall>t \<in> {2..n}. pcs s t = In_wait Call_pop)"
proof -
  let ?R = "jq_reach {0} {1..n}"
  let ?s0 = "jq_start\<lparr>pcs := asleep 1 n\<rparr>"
  let ?f = "(asleep 2 n)(1 := Woken Call_pop)"
  have f: "(wake {1} (asleep 1 n))(0 := Outside) = (?f :: nat \<Rightarrow> 'a pc)"
    using assms(1) by (auto simp: wake_def asleep_def fun_eq_iff)
  have W: "signal_ok True (on_not_empty (asleep 1 n :: nat \<Rightarrow> 'a pc)) {1}"
    using assms(1) by (auto simp: signal_ok_def on_not_empty_def asleep_def)
  have out: "asleep 1 n 0 = (Outside :: 'a pc)" by (simp add: asleep_def)
  have q: "new_task_queue = queue_of []" by (simp add: queue_of_def new_task_queue_def)
  have "?R ?s0" by (rule all_sleep) simp
  then have "?R (jq_start\<lparr>tq_state := queue_of [x], pcs := ?f, in_log := [x]\<rparr>)"
    using push_returns [of "{0}" "{1..n}" ?s0 0 x "queue_of [x]" True "{1}"] W push_queue_of [of "[]" x] f out
    by (simp add: jq_start_def q)
  from burst [OF this, of 0 "[x]" xs]
  have "?R (jq_start\<lparr>tq_state := queue_of (x # xs), pcs := ?f, in_log := x # xs\<rparr>)"
    using assms(2) by (simp add: jq_start_def asleep_def)
  from woken_pop_returns [OF this, of 1 x "queue_of xs"]
  have "?R (jq_start\<lparr>tq_state := queue_of xs, pcs := ?f(1 := Outside), in_log := x # xs, out_log := [(1, x)]\<rparr>)"
    using pop_queue_of [of x xs] by (simp add: jq_start_def)
  then show ?thesis
    by (intro exI [of _ "jq_start\<lparr>tq_state := queue_of xs, pcs := ?f(1 := Outside), in_log := x # xs, out_log := [(1, x)]\<rparr>"])
      (simp add: jq_start_def asleep_def)
qed

theorem job_queue_lost_wakeup_witness:
  "\<exists>s. reach jq_init (jq_step {0} {1..20}) s \<and> q_elems (tq_state s) = [5, 6 :: nat] \<and> out_log s = [(1, 4)] \<and>
     pcs s 20 = In_wait Call_pop"
  using job_queue_lost_wakeup [of 20 "[5, 6 :: nat]" 4] by auto

end
