(* ===== verification/Stage.thy ===== *)
theory Stage
  imports Job_Queue
begin

text \<open>
  A stage: messages arrive at the \<^verbatim>\<open>receiver\<close>, \<^verbatim>\<open>stage_handler::run\<close> fetches them one by one and
  submits a job per message, \<^verbatim>\<open>handlerFunc\<close> applies the stage's function and hands the result to the
  \<^verbatim>\<open>sender\<close>, whose bytes arrive at the next stage. The element being handled is a member of the
  handler that all jobs share.
\<close>

section \<open>Elements\<close>

record element =
  ie_bytes :: "byte list"
  ie_len :: nat

text \<open>\<^verbatim>\<open>strncpy\<close>: the string up to \<open>n\<close> characters, padded with zeros to \<open>n\<close>.\<close>

definition strncpy :: "byte list \<Rightarrow> nat \<Rightarrow> byte list" where
  "strncpy ele n = take n (c_str ele) @ replicate (n - length (c_str ele)) 0"

definition new_element :: element where
  "new_element = \<lparr>ie_bytes = replicate 256 0, ie_len = 0\<rparr>"

definition make_element :: "byte list \<Rightarrow> nat \<Rightarrow> element result" where
  "make_element ele len =
     res_bind (mem_write (replicate 256 0) 0 (strncpy ele len)) (\<lambda>b. Inr \<lparr>ie_bytes = b, ie_len = len\<rparr>)"

definition getElement :: "element \<Rightarrow> byte list" where
  "getElement e = ie_bytes e"

definition ie_length :: "element \<Rightarrow> nat" where
  "ie_length e = ie_len e"

section \<open>Receiver\<close>

text \<open>
  The element \<^verbatim>\<open>receiver::run\<close> makes of a message: \<^verbatim>\<open>zmq_recv\<close> stores at most 256 bytes and returns the size
  of the whole message.
\<close>

definition recv_element :: "byte list \<Rightarrow> element result" where
  "recv_element msg =
     (let buf = take 256 msg @ replicate (256 - length msg) 0;
          nrecv = length msg;
          len = (if 256 \<le> nrecv then 255 else nrecv);
          buf = buf[255 := 0]
      in make_element buf (len + 1))"

text \<open>Its critical section. The flag tells whether a waiting \<^verbatim>\<open>fetchOne\<close> is signalled.\<close>

definition enqueue :: "element list \<Rightarrow> element \<Rightarrow> element list \<times> bool" where
  "enqueue elements ie = (let is_signal = (elements = []) in (elements @ [ie], is_signal))"

text \<open>One turn of the loop for a message.\<close>

definition receive :: "element list \<Rightarrow> byte list \<Rightarrow> (element list \<times> bool) result" where
  "receive elements msg = res_bind (recv_element msg) (\<lambda>ie. Inr (enqueue elements ie))"

text \<open>\<^verbatim>\<open>fetchOne\<close>, \<open>None\<close> while it waits.\<close>

definition fetchOne :: "element list \<Rightarrow> (element \<times> element list) option" where
  "fetchOne elements = (case elements of [] \<Rightarrow> None | ie # rest \<Rightarrow> Some (ie, rest))"

section \<open>Sender\<close>

text \<open>
  \<^verbatim>\<open>zmq_send\<close> is given \<^verbatim>\<open>ie->length()\<close> bytes of the element; \<open>ret\<close> and \<open>again\<close> (the error number is
  \<^verbatim>\<open>EAGAIN\<close>) are what it leaves. The result is what was handed over and the value \<^verbatim>\<open>sendMsg\<close> returns.
\<close>

definition sendMsg :: "int \<Rightarrow> bool \<Rightarrow> element \<Rightarrow> (byte list \<times> bool) result" where
  "sendMsg ret again ie =
     (if ie_length ie \<le> length (getElement ie)
      then Inr (take (ie_length ie) (getElement ie), \<not> (ret \<noteq> 0 \<and> again))
      else Inl Out_of_bounds)"

section \<open>Handler\<close>

text \<open>
  \<open>f\<close> is the function of the stage: it gets the bytes of the element and returns a C string or
  \<^verbatim>\<open>NULL\<close>. \<open>sh_jobs\<close> counts the submitted jobs that have not run; a job holds only the handler itself.
\<close>

record stage_handler =
  sh_elements :: "element list"
  sh_ie :: element
  sh_jobs :: nat
  sh_handled :: "element list"
  sh_sent :: "byte list list"

definition new_stage_handler :: stage_handler where
  "new_stage_handler = \<lparr>sh_elements = [], sh_ie = new_element, sh_jobs = 0, sh_handled = [], sh_sent = []\<rparr>"

definition handler_result :: "(byte list \<Rightarrow> byte list option) \<Rightarrow> element \<Rightarrow> element option result" where
  "handler_result f ie =
     (case f (getElement ie) of
        None \<Rightarrow> Inr None
      | Some res_msg \<Rightarrow>
          res_bind (c_strlen res_msg) (\<lambda>n. res_bind (make_element res_msg n) (\<lambda>e. Inr (Some e))))"

text \<open>One turn of the loop of \<^verbatim>\<open>stage_handler::run\<close>, and one execution of \<^verbatim>\<open>handlerFunc\<close> by a worker.\<close>

definition dispatch :: "stage_handler \<Rightarrow> stage_handler option" where
  "dispatch sh = (case fetchOne (sh_elements sh) of
      None \<Rightarrow> None
    | Some (ie, rest) \<Rightarrow> Some (sh\<lparr>sh_elements := rest, sh_ie := ie, sh_jobs := sh_jobs sh + 1\<rparr>))"

text \<open>
  The job is open until \<^verbatim>\<open>handlerFunc\<close> returns; \<open>ret\<close> and \<open>again\<close> are what \<^verbatim>\<open>zmq_send\<close> leaves, and the
  bytes handed over are recorded in \<open>sh_sent\<close>. \<open>None\<close>: there is no job to run.
\<close>

definition handlerFunc ::
    "(byte list \<Rightarrow> byte list option) \<Rightarrow> int \<Rightarrow> bool \<Rightarrow> stage_handler \<Rightarrow> stage_handler result option" where
  "handlerFunc f ret again sh =
     (if sh_jobs sh = 0 then None
      else Some (
        let sh' = sh\<lparr>sh_jobs := sh_jobs sh - 1, sh_handled := sh_handled sh @ [sh_ie sh]\<rparr> in
        res_bind (handler_result f (sh_ie sh)) (\<lambda>r. case r of
          None \<Rightarrow> Inr sh'
        | Some ie \<Rightarrow> res_bind (sendMsg ret again ie) (\<lambda>(bytes, _). Inr (sh'\<lparr>sh_sent := sh_sent sh @ [bytes]\<rparr>)))))"

inductive sh_step :: "(byte list \<Rightarrow> byte list option) \<Rightarrow> stage_handler \<Rightarrow> stage_handler \<Rightarrow> bool" for f where
  sh_dispatch: "dispatch sh = Some sh' \<Longrightarrow> sh_step f sh sh'"
| sh_execute: "handlerFunc f ret again sh = Some (Inr sh') \<Longrightarrow> sh_step f sh sh'"

definition sh_start :: "element list \<Rightarrow> stage_handler \<Rightarrow> bool" where
  "sh_start es sh \<longleftrightarrow> sh = new_stage_handler\<lparr>sh_elements := es\<rparr>"

section \<open>Lemmas\<close>

lemma strncpy_string: "0 \<notin> set s \<Longrightarrow> n \<le> length s \<Longrightarrow> strncpy (s @ 0 # x) n = take n s"
  by (simp add: strncpy_def c_str_no_nul)

lemma length_strncpy [simp]: "length (strncpy ele n) = n"
  by (simp add: strncpy_def)

lemma make_element_eq:
  "make_element ele len =
     (if len \<le> 256 then Inr \<lparr>ie_bytes = strncpy ele len @ replicate (256 - len) 0, ie_len = len\<rparr>
      else Inl Out_of_bounds)"
  by (simp add: make_element_def mem_write_def)

lemma c_str_nul: "c_str (a @ 0 # y) = c_str a"
  by (induction a) (auto simp: c_str_def)

lemma c_str_take: "c_str (take n a) = take n (c_str a)"
  by (induction a arbitrary: n) (auto simp: c_str_def take_Cons split: nat.splits)

lemma c_str_strncpy: "c_str (strncpy ele n @ replicate k 0) = take n (c_str ele)"
proof -
  have "c_str (take n (c_str ele)) = take n (c_str ele)"
    using nul_notin_c_str [of ele] by (intro c_str_all_no_nul) (auto dest: in_set_takeD)
  then show ?thesis
    using c_str_replicate_nul [of "take n (c_str ele)" "n - length (c_str ele) + k"]
    by (simp add: strncpy_def replicate_add)
qed

lemma receive_eq:
  "\<exists>ie. receive es msg = Inr (es @ [ie], es = []) \<and> c_str (getElement ie) = take 255 (c_str msg)"
proof -
  let ?buf = "(take 256 msg @ replicate (256 - length msg) 0)[255 := 0]"
  let ?n = "(if 256 \<le> length msg then 255 else length msg) + 1"
  have buf: "?buf = take 255 msg @ 0 # replicate (255 - length msg) 0"
    by (rule nth_equalityI) (auto simp: nth_list_update nth_append nth_Cons' min_def)
  have "c_str ?buf = take 255 (c_str msg)"
  proof -
    have "c_str (take 255 msg @ 0 # y) = c_str (take 255 msg)" for y
      by (rule c_str_nul)
    then show ?thesis unfolding buf by (simp add: c_str_take)
  qed
  moreover have "take ?n (take 255 (c_str msg)) = take 255 (c_str msg)"
    using length_c_str_le [of msg] by simp
  ultimately show ?thesis
    by (simp add: receive_def recv_element_def enqueue_def make_element_eq getElement_def c_str_strncpy Let_def)
qed

lemma hop_sent:
  assumes "f (getElement ie) = Some (s @ 0 # x)" and "0 \<notin> set s" and "length s \<le> 256"
  shows "\<exists>e. handler_result f ie = Inr (Some e) \<and> sendMsg ret again e = Inr (s, \<not> (ret \<noteq> 0 \<and> again))"
proof -
  have "c_strlen (s @ 0 # x) = Inr (length s)" using c_str_no_nul [OF assms(2)] by (simp add: c_strlen_def)
  then show ?thesis
    using assms strncpy_string [OF assms(2), of "length s" x]
    by (simp add: handler_result_def make_element_eq sendMsg_def ie_length_def getElement_def)
qed

text \<open>A handler's counts: every element is waiting, current, or gone by; no job runs without a dispatch.\<close>

definition sh_inv :: "element list \<Rightarrow> stage_handler \<Rightarrow> bool" where
  "sh_inv es sh \<longleftrightarrow> (\<exists>fetched. es = fetched @ sh_elements sh \<and>
     sh_ie sh = (if fetched = [] then new_element else last fetched) \<and>
     length (sh_handled sh) + sh_jobs sh = length fetched \<and> set (sh_handled sh) \<subseteq> set fetched)"

lemma sh_inv_step:
  assumes "sh_inv es sh" and "sh_step f sh sh'"
  shows "sh_inv es sh'"
proof -
  obtain fetched where F: "es = fetched @ sh_elements sh"
      "sh_ie sh = (if fetched = [] then new_element else last fetched)"
      "length (sh_handled sh) + sh_jobs sh = length fetched" "set (sh_handled sh) \<subseteq> set fetched"
    using assms(1) by (auto simp: sh_inv_def)
  show ?thesis
    using assms(2)
  proof cases
    case sh_dispatch
    then obtain ie rest where "sh_elements sh = ie # rest"
        "sh' = sh\<lparr>sh_elements := rest, sh_ie := ie, sh_jobs := sh_jobs sh + 1\<rparr>"
      by (auto simp: dispatch_def fetchOne_def split: list.splits)
    then show ?thesis using F by (auto simp: sh_inv_def intro!: exI [of _ "fetched @ [ie]"])
  next
    case sh_execute
    then have "sh_jobs sh \<noteq> 0" and "sh_jobs sh' = sh_jobs sh - 1"
        and "sh_handled sh' = sh_handled sh @ [sh_ie sh]" and "sh_elements sh' = sh_elements sh" and "sh_ie sh' = sh_ie sh"
      by (auto simp: handlerFunc_def res_bind_Inr_iff Let_def split: if_splits option.splits)
    moreover from this(1) have "fetched \<noteq> []" using F(3) by auto
    ultimately show ?thesis using F by (auto simp: sh_inv_def)
  qed
qed

interpretation shs: invariant_system "sh_start es" "sh_step f" "sh_inv es" for es f
proof unfold_locales
  show "sh_start es sh \<Longrightarrow> sh_inv es sh" for sh
    by (simp add: sh_start_def sh_inv_def new_stage_handler_def)
qed (rule sh_inv_step)

section \<open>Properties\<close>

text \<open>
  For received elements \<open>es\<close>, in every reachable state of the handler each element handled so far
  is one of those fetched, there are never more handled than fetched, and at the end, with nothing
  waiting and no job open, exactly as many calls were made as elements received.
\<close>

theorem stage_handler_counts:
  assumes "reach (sh_start es) (sh_step f) sh"
  shows "set (sh_handled sh) \<subseteq> set es \<and> length (sh_handled sh) \<le> length es \<and>
    (sh_elements sh = [] \<longrightarrow> sh_jobs sh = 0 \<longrightarrow> length (sh_handled sh) = length es)"
  using shs.reach_inv [OF assms] by (auto simp: sh_inv_def)

text \<open>
  C36: but the jobs share the current element: for any two elements a run is possible in which the
  second is handled twice and the first never, so that the answer to the second is sent twice.
\<close>

theorem stage_handler_loses_message:
  assumes "f (getElement b) = Some (s @ 0 # x)" and "0 \<notin> set s" and "length s \<le> 256"
  shows "\<exists>sh. reach (sh_start [a, b]) (sh_step f) sh \<and> sh_elements sh = [] \<and> sh_jobs sh = 0 \<and>
    sh_handled sh = [b, b] \<and> sh_sent sh = [s, s]"
proof -
  let ?s = "\<lambda>es ie n h w. \<lparr>sh_elements = es, sh_ie = ie, sh_jobs = n, sh_handled = h, sh_sent = w\<rparr>"
  let ?R = "reach (sh_start [a, b]) (sh_step f)"
  obtain e where e: "handler_result f b = Inr (Some e)" "sendMsg 0 False e = Inr (s, True)"
    using hop_sent [of f b s x 0 False] assms by auto
  have "?R (?s [a, b] new_element 0 [] [])"
    by (rule reach.reach_init) (simp add: sh_start_def new_stage_handler_def)
  then have "?R (?s [b] a 1 [] [])"
    by (rule reach.reach_step) (auto intro!: sh_dispatch simp: dispatch_def fetchOne_def)
  then have "?R (?s [] b 2 [] [])"
    by (rule reach.reach_step) (auto intro!: sh_dispatch simp: dispatch_def fetchOne_def)
  then have "?R (?s [] b 1 [b] [s])"
    by (rule reach.reach_step) (auto intro!: sh_execute [where ret = 0 and again = False] simp: handlerFunc_def e)
  then have "?R (?s [] b 0 [b, b] [s, s])"
    by (rule reach.reach_step) (auto intro!: sh_execute [where ret = 0 and again = False] simp: handlerFunc_def e)
  then show ?thesis by (intro exI conjI, assumption) simp_all
qed

theorem stage_handler_loses_message_witness:
  "\<exists>sh. reach (sh_start [new_element, new_element]) (sh_step (\<lambda>_. Some [0x6F, 0])) sh \<and> sh_sent sh = [[0x6F], [0x6F]]"
  using stage_handler_loses_message [of "\<lambda>_. Some [0x6F, 0]" new_element "[0x6F]" "[]" new_element] by auto

text \<open>
  A hop between stages: when a stage's function returns a C string of at most 256 characters, the
  sender hands exactly its characters to the socket, and the receiver of the next stage appends an
  element that reads as the same string, cut to 255 characters; a longer result overruns the
  element.
\<close>

theorem stage_hop_roundtrip:
  assumes "f (getElement ie) = Some (s @ 0 # x)" and "0 \<notin> set s"
  shows "if length s \<le> 256
    then \<exists>e ie'. handler_result f ie = Inr (Some e) \<and> sendMsg ret again e = Inr (s, \<not> (ret \<noteq> 0 \<and> again)) \<and>
           receive es s = Inr (es @ [ie'], es = []) \<and> c_str (getElement ie') = take 255 s
    else handler_result f ie = Inl Out_of_bounds"
proof (cases "length s \<le> 256")
  case True
  then show ?thesis
    using assms hop_sent [of f ie s x ret again] receive_eq [of es s] c_str_all_no_nul [OF assms(2)] by auto
next
  case False
  have "c_strlen (s @ 0 # x) = Inr (length s)" using c_str_no_nul [OF assms(2)] by (simp add: c_strlen_def)
  with False show ?thesis using assms(1) by (simp add: handler_result_def make_element_eq)
qed

theorem stage_hop_roundtrip_witness:
  "\<exists>e ie'. handler_result Some \<lparr>ie_bytes = [0x68, 0x69, 0], ie_len = 3\<rparr> = Inr (Some e) \<and>
     sendMsg 2 False e = Inr ([0x68, 0x69], True) \<and> receive [] [0x68, 0x69] = Inr ([ie'], True) \<and>
     c_str (getElement ie') = [0x68, 0x69]"
  using stage_hop_roundtrip [of Some "\<lparr>ie_bytes = [0x68, 0x69, 0], ie_len = 3\<rparr>" "[0x68, 0x69]" "[]" 2 False "[]"]
  by (simp add: getElement_def)

theorem stage_handler_counts_witness:
  "\<exists>sh. reach (sh_start [new_element]) (sh_step (\<lambda>_. None)) sh \<and> sh_handled sh = [new_element] \<and> length (sh_handled sh) = 1"
proof -
  let ?s = "\<lambda>es n h. \<lparr>sh_elements = es, sh_ie = new_element, sh_jobs = n, sh_handled = h, sh_sent = []\<rparr>"
  let ?R = "reach (sh_start [new_element]) (sh_step (\<lambda>_. None))"
  have "?R (?s [new_element] 0 [])"
    by (rule reach.reach_init) (simp add: sh_start_def new_stage_handler_def)
  then have "?R (?s [] 1 [])"
    by (rule reach.reach_step) (auto intro!: sh_dispatch simp: dispatch_def fetchOne_def)
  then have r: "?R (?s [] 0 [new_element])"
    by (rule reach.reach_step) (auto intro!: sh_execute simp: handlerFunc_def handler_result_def)
  have "length (sh_handled (?s [] 0 [new_element])) = 1" using stage_handler_counts [OF r] by simp
  with r show ?thesis by (metis stage_handler.select_convs(4))
qed

end
