(* ===== verification/Logging.thy ===== *)
theory Logging
  imports Job_Queue
begin

text \<open>
  \<^verbatim>\<open>log.cpp\<close>: a message is formatted with a growing buffer, put into a line of at most 128 bytes, copied
  into a record of \<^verbatim>\<open>LOG_LEN\<close> bytes and queued; the log thread writes whole records. \<open>msg\<close> below is
  the text \<^verbatim>\<open>vsnprintf\<close> produces from the format and its arguments.
\<close>

section \<open>Definitions\<close>

definition LOG_LEN :: nat where
  "LOG_LEN = 256"

record log_state =
  is_async :: bool
  log_tq :: "byte list task_queue"
  log_file :: "byte list"

definition set_async :: "log_state \<Rightarrow> bool \<Rightarrow> log_state" where
  "set_async s async = s\<lparr>is_async := async\<rparr>"

definition debug_prefix :: "byte list" where
  "debug_prefix = [0x44, 0x45, 0x42, 0x55, 0x47, 0x20, 0x3A, 0x20]"

text \<open>\<^verbatim>\<open>sprintf(buf, "DEBUG : %s\n", p)\<close> into 128 bytes, and the string it leaves there.\<close>

definition debug_line :: "byte list \<Rightarrow> byte list result" where
  "debug_line p =
     res_bind (mem_write (replicate 128 0) 0 (debug_prefix @ c_str p @ [0x0A, 0])) (\<lambda>buf. Inr (c_str buf))"

text \<open>\<^verbatim>\<open>write_log\<close>. In the asynchronous mode \<^verbatim>\<open>push\<close> blocks while the queue is full: \<open>None\<close>.\<close>

definition write_log :: "log_state \<Rightarrow> byte list \<Rightarrow> log_state option result" where
  "write_log s log =
     (if is_async s then
        res_bind (mem_write (replicate LOG_LEN 0) 0 log) (\<lambda>alc.
        if is_full (log_tq s) then Inr None
        else Inr (Some (s\<lparr>log_tq := fst (push_body alc (log_tq s))\<rparr>)))
      else Inr (Some (s\<lparr>log_file := log_file s @ log\<rparr>)))"

text \<open>
  The loop of \<^verbatim>\<open>debug\<close>: \<^verbatim>\<open>vsnprintf\<close> reports the length it needs; \<open>ok\<close> tells whether \<^verbatim>\<open>realloc\<close> succeeds. The
  result is the formatted string, \<open>None\<close> when memory is exhausted.
\<close>

function debug_loop :: "bool \<Rightarrow> byte list \<Rightarrow> nat \<Rightarrow> byte list option" where
  "debug_loop ok msg sz =
     (let n = length msg in
      if n < sz then Some msg
      else let sz = n + 1 in if \<not> ok then None else debug_loop ok msg sz)"
  by auto
termination by (relation "measure (\<lambda>(ok, msg, sz). length msg + 1 - sz)") auto

declare debug_loop.simps [simp del]

definition debug :: "bool \<Rightarrow> log_state \<Rightarrow> byte list \<Rightarrow> log_state option result" where
  "debug ok s msg =
     (case debug_loop ok msg 100 of
        None \<Rightarrow> Inr (Some s)
      | Some p \<Rightarrow> res_bind (debug_line p) (\<lambda>buf. write_log s buf))"

text \<open>
  \<^verbatim>\<open>init\<close>: the name of the file, \<^verbatim>\<open>sprintf\<close> into 128 bytes, and the value returned; \<open>fd\<close> is what \<^verbatim>\<open>open\<close> returns,
  \<open>created\<close> tells whether \<^verbatim>\<open>pthread_create\<close> succeeds.
\<close>

definition log_output :: "byte list" where
  "log_output = bytes_of ''./log/server''"

definition log_file_name :: "nat \<Rightarrow> byte list result" where
  "log_file_name pid =
     res_bind (mem_write (replicate 128 0) 0 (log_output @ bytes_of ''_'' @ to_string pid @ bytes_of ''.log'' @ [0]))
       (\<lambda>out. Inr (c_str out))"

definition log_init :: "log_state \<Rightarrow> nat \<Rightarrow> int \<Rightarrow> bool \<Rightarrow> int result" where
  "log_init s pid fd created =
     res_bind (log_file_name pid) (\<lambda>out.
     if fd = -1 then Inr (-1)
     else if is_async s then Inr (of_bool created)
     else Inr 0)"

text \<open>
  The log thread: at the test of its loop, in \<^verbatim>\<open>pop\<close>, about to write the record it has taken, or at its end.
  \<open>lt_deleted\<close> tells whether \<^verbatim>\<open>tq\<close> has been deleted; \<^verbatim>\<open>tq\<close> is never NULL, it is allocated with the program.
\<close>

datatype log_pc = Log_test | Log_pop | Log_write "byte list" | Log_exit

record log_thread =
  lt_log :: log_state
  lt_running :: bool
  lt_pc :: log_pc
  lt_deleted :: bool

text \<open>
  A step of \<^verbatim>\<open>log_from_queue\<close>: \<^verbatim>\<open>pop\<close> blocks on an empty queue (\<open>None\<close>); every record is written with \<^verbatim>\<open>LOG_LEN\<close>
  bytes. Like the result of \<^verbatim>\<open>write\<close> in the source, a failing \<^verbatim>\<open>write\<close> is not looked at: it is taken to succeed.
\<close>

definition log_from_queue :: "log_thread \<Rightarrow> log_thread option" where
  "log_from_queue t = (case lt_pc t of
      Log_test \<Rightarrow> Some (t\<lparr>lt_pc := if lt_running t then Log_pop else Log_exit\<rparr>)
    | Log_pop \<Rightarrow>
        (if is_empty (log_tq (lt_log t)) then None
         else case pop_body (log_tq (lt_log t)) of
                None \<Rightarrow> None
              | Some (lc, q, _) \<Rightarrow> Some (t\<lparr>lt_log := (lt_log t)\<lparr>log_tq := q\<rparr>, lt_pc := Log_write lc\<rparr>))
    | Log_write lc \<Rightarrow>
        Some (t\<lparr>lt_log := (lt_log t)\<lparr>log_file := log_file (lt_log t) @ take LOG_LEN lc\<rparr>, lt_pc := Log_test\<rparr>)
    | Log_exit \<Rightarrow> None)"

text \<open>
  \<^verbatim>\<open>pthread_join\<close> returns when the thread, left alone, reaches its end; \<open>None\<close> when it stays blocked. \<^verbatim>\<open>stop\<close> clears
  \<^verbatim>\<open>running\<close>, joins the thread if logging is asynchronous, and deletes the queue.
\<close>

partial_function (option) log_join :: "log_thread \<Rightarrow> log_thread option" where
  "log_join t = (if lt_pc t = Log_exit then Some t else log_from_queue t \<bind> log_join)"

definition stop_running :: "log_thread \<Rightarrow> log_thread" where
  "stop_running t = t\<lparr>lt_running := False\<rparr>"

definition delete_tq :: "log_thread \<Rightarrow> log_thread" where
  "delete_tq t = t\<lparr>lt_deleted := True\<rparr>"

definition log_stop :: "log_thread \<Rightarrow> log_thread option" where
  "log_stop t =
     (let t = stop_running t
      in map_option delete_tq (if is_async (lt_log t) then log_join t else Some t))"

text \<open>
  Callers of \<^verbatim>\<open>debug\<close>, the log thread and a caller of \<^verbatim>\<open>stop\<close>, interleaved, in the asynchronous mode. A call of
  \<^verbatim>\<open>debug\<close> takes effect in the critical section of its \<^verbatim>\<open>push\<close>, and only there touches shared data.
  \<open>lr_accepted\<close> records the messages pushed and \<open>lr_written\<close> the records written, which the code does not.
\<close>

record log_run =
  lr_thread :: log_thread
  lr_accepted :: "byte list list"
  lr_written :: "byte list list"

fun in_hand :: "log_pc \<Rightarrow> byte list list" where
  "in_hand (Log_write lc) = [lc]"
| "in_hand _ = []"

inductive log_step :: "log_run \<Rightarrow> log_run \<Rightarrow> bool" where
  log_debug: "\<not> lt_deleted (lr_thread r) \<Longrightarrow> 0 \<notin> set m \<Longrightarrow> debug ok (lt_log (lr_thread r)) m = Inr (Some s) \<Longrightarrow>
    log_step r (r\<lparr>lr_thread := (lr_thread r)\<lparr>lt_log := s\<rparr>,
      lr_accepted := lr_accepted r @ (if debug_loop ok m 100 = None then [] else [m])\<rparr>)"
| log_turn: "log_from_queue (lr_thread r) = Some t \<Longrightarrow>
    log_step r (r\<lparr>lr_thread := t, lr_written := lr_written r @ in_hand (lt_pc (lr_thread r))\<rparr>)"
| log_stop_call: "log_step r (r\<lparr>lr_thread := stop_running (lr_thread r)\<rparr>)"
| log_stop_joined: "\<not> lt_running (lr_thread r) \<Longrightarrow> lt_pc (lr_thread r) = Log_exit \<Longrightarrow>
    log_step r (r\<lparr>lr_thread := delete_tq (lr_thread r)\<rparr>)"

text \<open>The start: the static members as initialised and the thread just created; the file has contents \<open>f\<close>.\<close>

definition log_start :: "byte list \<Rightarrow> log_run \<Rightarrow> bool" where
  "log_start f r \<longleftrightarrow> r =
     \<lparr>lr_thread = \<lparr>lt_log = \<lparr>is_async = True, log_tq = new_task_queue, log_file = f\<rparr>, lt_running = True,
        lt_pc = Log_test, lt_deleted = False\<rparr>, lr_accepted = [], lr_written = []\<rparr>"

section \<open>Whole runs\<close>

fun debug_all :: "log_state \<Rightarrow> byte list list \<Rightarrow> log_state option result" where
  "debug_all s [] = Inr (Some s)"
| "debug_all s (m # ms) =
     res_bind (debug True s m) (\<lambda>r. case r of None \<Rightarrow> Inr None | Some s \<Rightarrow> debug_all s ms)"

definition log_record :: "byte list \<Rightarrow> byte list" where
  "log_record m = debug_prefix @ m @ 0x0A # replicate (247 - length m) 0"

lemma debug_loop_100: "debug_loop True msg 100 = Some msg"
  by (subst debug_loop.simps, subst debug_loop.simps) (simp add: Let_def)

lemma prefix_facts [simp]: "length debug_prefix = 8" "0 \<notin> set debug_prefix"
  by (simp_all add: debug_prefix_def)

lemma debug_line_eq:
  assumes "0 \<notin> set m"
  shows "debug_line m = (if length m \<le> 118 then Inr (debug_prefix @ m @ [0x0A]) else Inl Out_of_bounds)"
proof -
  have "c_str (debug_prefix @ m @ 0x0A # 0 # x) = debug_prefix @ m @ [0x0A]" for x
    using c_str_no_nul [of "debug_prefix @ m @ [0x0A]" x] assms by simp
  then show ?thesis by (simp add: debug_line_def mem_write_def c_str_all_no_nul [OF assms])
qed

lemma debug_async:
  assumes "0 \<notin> set m" and "is_async s" and "length m \<le> 118" and "\<not> is_full (log_tq s)"
  shows "debug True s m = Inr (Some (s\<lparr>log_tq := fst (push_body (log_record m) (log_tq s))\<rparr>))"
  using assms
  by (simp add: debug_def debug_loop_100 debug_line_eq write_log_def mem_write_def LOG_LEN_def log_record_def)

text \<open>
  C30: a message of more than 118 characters overruns the line buffer of \<^verbatim>\<open>debug\<close>, although the buffer
  before it was grown to fit; every shorter message is queued as a record of 256 bytes that
  starts with the line.
\<close>

theorem debug_line_bound:
  assumes "0 \<notin> set m" and "is_async s" and "wf_queue (log_tq s)" and "\<not> is_full (log_tq s)"
  shows "if length m \<le> 118
    then \<exists>s' rec. debug True s m = Inr (Some s') \<and> get_queue (log_tq s') = get_queue (log_tq s) @ [rec] \<and>
           length rec = LOG_LEN \<and> c_str rec = debug_prefix @ m @ [0x0A]
    else debug True s m = Inl Out_of_bounds"
proof (cases "length m \<le> 118")
  case True
  have "get_queue (fst (push_body (log_record m) (log_tq s))) = get_queue (log_tq s) @ [log_record m]"
    using tq.push_spec [OF assms(3,4)] by (cases "push_body (log_record m) (log_tq s)") simp
  moreover have "length (log_record m) = LOG_LEN" using True by (simp add: log_record_def LOG_LEN_def)
  moreover have "c_str (log_record m) = debug_prefix @ m @ [0x0A]"
    using c_str_replicate_nul [of "debug_prefix @ m @ [0x0A]" "247 - length m"]
      c_str_all_no_nul [of "debug_prefix @ m @ [0x0A]"] assms(1) by (simp add: log_record_def)
  ultimately show ?thesis using debug_async [OF assms(1,2) True assms(4)] True by auto
next
  case False
  then show ?thesis by (simp add: debug_def debug_loop_100 debug_line_eq [OF assms(1)])
qed

definition ex_log :: log_state where
  "ex_log = \<lparr>is_async = True, log_tq = new_task_queue, log_file = []\<rparr>"

lemma ex_log_facts: "is_async ex_log" "wf_queue (log_tq ex_log)" "\<not> is_full (log_tq ex_log)"
  "get_queue (log_tq ex_log) = []" "log_file ex_log = []" "max_queue_size (log_tq ex_log) = 2000"
  by (simp_all add: ex_log_def is_full_def get_queue_def) (simp_all add: new_task_queue_def)

theorem debug_line_bound_witness:
  "\<exists>s' rec. debug True ex_log [0x68, 0x69] = Inr (Some s') \<and> get_queue (log_tq s') = [rec] \<and> length rec = LOG_LEN \<and>
     c_str rec = debug_prefix @ [0x68, 0x69, 0x0A]"
  using debug_line_bound [OF _ ex_log_facts(1-3), of "[0x68, 0x69]"] by (simp add: ex_log_facts(4))

lemma debug_all_queue:
  assumes "is_async s" and "wf_queue (log_tq s)" and "\<forall>m \<in> set ms. 0 \<notin> set m \<and> length m \<le> 118"
    and "int (length (get_queue (log_tq s)) + length ms) \<le> max_queue_size (log_tq s)"
  shows "\<exists>s'. debug_all s ms = Inr (Some s') \<and> wf_queue (log_tq s') \<and> log_file s' = log_file s \<and>
    get_queue (log_tq s') = get_queue (log_tq s) @ map log_record ms"
  using assms
proof (induction ms arbitrary: s)
  case (Cons m ms)
  have nf: "\<not> is_full (log_tq s)" using tq.full_iff [OF Cons.prems(2)] Cons.prems(4) by simp
  obtain q sig where q: "push_body (log_record m) (log_tq s) = (q, sig)" by fastforce
  note push = tq.push_spec [OF Cons.prems(2) nf q]
  have "debug True s m = Inr (Some (s\<lparr>log_tq := q\<rparr>))"
    using debug_async [of m s] Cons.prems(1,3) nf q by simp
  then show ?case using Cons.IH [of "s\<lparr>log_tq := q\<rparr>"] push Cons.prems by simp
qed simp

section \<open>Order of the records\<close>

lemma debug_loop_result: "debug_loop ok m sz = None \<or> debug_loop ok m sz = Some m"
  by (induction ok m sz rule: debug_loop.induct) (subst (1 2) debug_loop.simps, simp add: Let_def)

text \<open>What a call of \<^verbatim>\<open>debug\<close> that returns has done: nothing, if memory is exhausted, or one \<^verbatim>\<open>push\<close>.\<close>

lemma debug_returns:
  assumes "debug ok s m = Inr (Some s')" and "0 \<notin> set m" and "is_async s"
  shows "debug_loop ok m 100 = None \<and> s' = s \<or>
    debug_loop ok m 100 \<noteq> None \<and> \<not> is_full (log_tq s) \<and> length m \<le> 118 \<and>
      s' = s\<lparr>log_tq := fst (push_body (log_record m) (log_tq s))\<rparr>"
  using assms debug_loop_result [of ok m 100]
  by (auto simp: debug_def debug_line_eq write_log_def mem_write_def LOG_LEN_def log_record_def split: if_splits)

definition log_inv :: "byte list \<Rightarrow> log_run \<Rightarrow> bool" where
  "log_inv f r \<longleftrightarrow>
     (let t = lr_thread r; s = lt_log t
      in is_async s \<and> wf_queue (log_tq s) \<and> log_file s = f @ concat (lr_written r) \<and>
         lr_written r @ in_hand (lt_pc t) @ get_queue (log_tq s) = map log_record (lr_accepted r) \<and>
         (\<forall>m \<in> set (lr_accepted r). length m \<le> 118) \<and>
         (lt_pc t = Log_exit \<longrightarrow> \<not> lt_running t) \<and> (lt_deleted t \<longrightarrow> lt_pc t = Log_exit))"

lemma log_record_length [simp]: "length m \<le> 118 \<Longrightarrow> length (log_record m) = LOG_LEN"
  by (simp add: log_record_def LOG_LEN_def)

lemma log_inv_records:
  assumes "log_inv f r" and "lc \<in> set (in_hand (lt_pc (lr_thread r)) @ get_queue (log_tq (lt_log (lr_thread r))))"
  shows "length lc = LOG_LEN"
proof -
  have "lc \<in> set (map log_record (lr_accepted r))"
    using assms unfolding log_inv_def Let_def by (metis in_set_conv_decomp append.assoc)
  then show ?thesis using assms(1) by (auto simp: log_inv_def Let_def)
qed

lemma log_inv_turn:
  assumes inv: "log_inv f r" and step: "log_from_queue (lr_thread r) = Some t"
  shows "log_inv f (r\<lparr>lr_thread := t, lr_written := lr_written r @ in_hand (lt_pc (lr_thread r))\<rparr>)"
proof (cases "lt_pc (lr_thread r)")
  case Log_pop
  let ?q = "log_tq (lt_log (lr_thread r))"
  have wf: "wf_queue ?q" using inv by (simp add: log_inv_def Let_def)
  have ne: "\<not> is_empty ?q" using step Log_pop by (auto simp: log_from_queue_def split: if_splits)
  then obtain lc q sig where q: "pop_body ?q = Some (lc, q, sig)" "wf_queue q" "get_queue ?q = lc # get_queue q"
    using tq.pop_spec [OF wf] by blast
  then have "t = (lr_thread r)\<lparr>lt_log := (lt_log (lr_thread r))\<lparr>log_tq := q\<rparr>, lt_pc := Log_write lc\<rparr>"
    using step Log_pop ne by (simp add: log_from_queue_def)
  then show ?thesis using inv q Log_pop by (auto simp: log_inv_def Let_def)
next
  case (Log_write lc)
  then have "length lc = LOG_LEN" using log_inv_records [OF inv, of lc] by simp
  then show ?thesis using inv step Log_write by (auto simp: log_inv_def Let_def log_from_queue_def)
qed (use inv step in \<open>auto simp: log_inv_def Let_def log_from_queue_def split: if_splits\<close>)

lemma log_inv_step:
  assumes inv: "log_inv f r" and step: "log_step r r'"
  shows "log_inv f r'"
  using step
proof cases
  case (log_debug m ok s)
  have wf: "wf_queue (log_tq (lt_log (lr_thread r)))" and a: "is_async (lt_log (lr_thread r))"
    using inv by (simp_all add: log_inv_def Let_def)
  obtain q sig where q: "push_body (log_record m) (log_tq (lt_log (lr_thread r))) = (q, sig)" by fastforce
  from debug_returns [OF log_debug(4,3) a] show ?thesis
    using inv log_debug(1) q tq.push_spec [OF wf _ q] by (auto simp: log_inv_def Let_def)
next
  case (log_turn t)
  then show ?thesis using log_inv_turn [OF inv] by simp
qed (use inv in \<open>auto simp: log_inv_def Let_def stop_running_def delete_tq_def\<close>)

interpretation lrs: invariant_system "log_start f" log_step "log_inv f"
proof unfold_locales
  show "log_inv f r" if "log_start f r" for r
    using that by (simp add: log_start_def log_inv_def get_queue_def) (simp add: new_task_queue_def)
qed (rule log_inv_step)

text \<open>The log thread alone brings everything that is queued into the file.\<close>

lemma log_turn_possible:
  assumes inv: "log_inv f r" and run: "lt_running (lr_thread r)"
    and ne: "in_hand (lt_pc (lr_thread r)) @ get_queue (log_tq (lt_log (lr_thread r))) \<noteq> []"
  shows "\<exists>t. log_from_queue (lr_thread r) = Some t \<and> lt_running t \<and>
    3 * length (get_queue (log_tq (lt_log t))) + (case lt_pc t of Log_write _ \<Rightarrow> 2 | Log_test \<Rightarrow> 1 | _ \<Rightarrow> 0) <
    3 * length (get_queue (log_tq (lt_log (lr_thread r)))) +
      (case lt_pc (lr_thread r) of Log_write _ \<Rightarrow> 2 | Log_test \<Rightarrow> 1 | _ \<Rightarrow> (0 :: nat))"
proof (cases "lt_pc (lr_thread r)")
  case Log_pop
  let ?q = "log_tq (lt_log (lr_thread r))"
  have wf: "wf_queue ?q" using inv by (simp add: log_inv_def Let_def)
  have ne: "\<not> is_empty ?q" using ne Log_pop tq.empty_iff [OF wf] by simp
  then obtain lc q sig where "pop_body ?q = Some (lc, q, sig)" "get_queue ?q = lc # get_queue q"
    using tq.pop_spec [OF wf] by blast
  then show ?thesis using run ne Log_pop by (simp add: log_from_queue_def)
next
  case Log_exit
  then show ?thesis using inv run by (simp add: log_inv_def Let_def)
qed (use run in \<open>simp_all add: log_from_queue_def\<close>)

lemma log_flushes:
  assumes "log_inv f r" and "lt_running (lr_thread r)"
  shows "\<exists>r'. rtranclp log_step r r' \<and> lr_accepted r' = lr_accepted r \<and>
    log_file (lt_log (lr_thread r')) = f @ concat (map log_record (lr_accepted r))"
  using assms
proof (induction "3 * length (get_queue (log_tq (lt_log (lr_thread r)))) +
      (case lt_pc (lr_thread r) of Log_write _ \<Rightarrow> 2 | Log_test \<Rightarrow> 1 | _ \<Rightarrow> (0 :: nat))"
    arbitrary: r rule: less_induct)
  case less
  show ?case
  proof (cases "in_hand (lt_pc (lr_thread r)) @ get_queue (log_tq (lt_log (lr_thread r))) = []")
    case True
    then show ?thesis using less.prems(1) by (intro exI [of _ r]) (simp add: log_inv_def Let_def)
  next
    case False
    obtain t where t: "log_from_queue (lr_thread r) = Some t" "lt_running t"
        "3 * length (get_queue (log_tq (lt_log t))) + (case lt_pc t of Log_write _ \<Rightarrow> 2 | Log_test \<Rightarrow> 1 | _ \<Rightarrow> 0) <
         3 * length (get_queue (log_tq (lt_log (lr_thread r)))) +
           (case lt_pc (lr_thread r) of Log_write _ \<Rightarrow> 2 | Log_test \<Rightarrow> 1 | _ \<Rightarrow> (0 :: nat))"
      using log_turn_possible [OF less.prems False] by blast
    let ?r = "r\<lparr>lr_thread := t, lr_written := lr_written r @ in_hand (lt_pc (lr_thread r))\<rparr>"
    have "log_step r ?r" using t(1) by (rule log_turn)
    moreover obtain r' where "rtranclp log_step ?r r'" "lr_accepted r' = lr_accepted r"
        "log_file (lt_log (lr_thread r')) = f @ concat (map log_record (lr_accepted r))"
      using less.hyps [of ?r] t(2,3) log_inv_turn [OF less.prems(1) t(1)] by auto
    ultimately show ?thesis by (meson converse_rtranclp_into_rtranclp)
  qed
qed

text \<open>
  C28: asynchronous logging keeps the order. Under every interleaving of callers of \<^verbatim>\<open>debug\<close>, the log thread
  and \<^verbatim>\<open>stop\<close>, what has been added to the file are whole records, and these, the record in the hands of the
  thread and the queued ones are exactly the records of the accepted messages (those whose \<^verbatim>\<open>push\<close> is done; a
  message of more than 118 characters faults before, see above), each once and in order. While \<^verbatim>\<open>stop\<close> has not been
  called the thread can always write all of them, if every \<^verbatim>\<open>write\<close> succeeds; the queue is deleted
  only after the thread has ended.
\<close>

theorem async_log_in_order:
  assumes "reach (log_start f) log_step r"
  shows "log_file (lt_log (lr_thread r)) = f @ concat (lr_written r) \<and>
    lr_written r @ in_hand (lt_pc (lr_thread r)) @ get_queue (log_tq (lt_log (lr_thread r))) =
      map log_record (lr_accepted r) \<and>
    (lt_deleted (lr_thread r) \<longrightarrow> lt_pc (lr_thread r) = Log_exit) \<and>
    (lt_running (lr_thread r) \<longrightarrow>
      (\<exists>r'. rtranclp log_step r r' \<and> lr_accepted r' = lr_accepted r \<and>
        log_file (lt_log (lr_thread r')) = f @ concat (map log_record (lr_accepted r))))"
  using lrs.reach_inv [OF assms] log_flushes by (auto simp: log_inv_def Let_def)

definition ex_run :: log_run where
  "ex_run = \<lparr>lr_thread = \<lparr>lt_log = \<lparr>is_async = True, log_tq = fst (push_body (log_record [0x61]) new_task_queue), log_file = []\<rparr>,
     lt_running = True, lt_pc = Log_test, lt_deleted = False\<rparr>, lr_accepted = [[0x61]], lr_written = []\<rparr>"

theorem async_log_in_order_witness:
  "\<exists>r'. rtranclp log_step ex_run r' \<and> log_file (lt_log (lr_thread r')) = log_record [0x61]"
proof -
  let ?r0 = "\<lparr>lr_thread = \<lparr>lt_log = ex_log, lt_running = True, lt_pc = Log_test, lt_deleted = False\<rparr>,
    lr_accepted = [], lr_written = []\<rparr>"
  have "reach (log_start []) log_step ?r0" by (rule reach_init) (simp add: log_start_def ex_log_def)
  moreover have "log_step ?r0 ex_run"
    using log_debug [of ?r0 "[0x61]" True] debug_async [of "[0x61]" ex_log] ex_log_facts(1,3)
    by (simp add: debug_loop_100 ex_run_def) (simp add: ex_log_def)
  ultimately have "reach (log_start []) log_step ex_run" by (rule reach_step)
  from async_log_in_order [OF this] show ?thesis by (auto simp: ex_run_def)
qed

section \<open>Stopping\<close>

lemma log_join_test:
  assumes "lt_pc t = Log_test" and "\<not> lt_running t"
  shows "log_join t = Some (t\<lparr>lt_pc := Log_exit\<rparr>)"
  using assms by (subst log_join.simps, simp add: log_from_queue_def) (subst log_join.simps, simp)

lemma log_join_write:
  assumes "lt_pc t = Log_write lc" and "\<not> lt_running t"
  shows "log_join t = Some (t\<lparr>lt_log := (lt_log t)\<lparr>log_file := log_file (lt_log t) @ take LOG_LEN lc\<rparr>, lt_pc := Log_exit\<rparr>)"
  using assms by (subst log_join.simps) (simp add: log_from_queue_def log_join_test)

text \<open>
  C29: what \<^verbatim>\<open>stop\<close> does, while nobody else logs. With synchronous logging it returns at once and joins nothing.
  With asynchronous logging it returns without writing anything if the log thread is at the test of
  its loop or has ended; if the thread holds a record, that one is written; if it waits in
  \<^verbatim>\<open>pop\<close>, one queued record is written, or, with an empty queue, the thread is never woken
  and \<^verbatim>\<open>stop\<close> hangs. When it returns the queue is deleted with all the other records, accepted but not written.
\<close>

theorem log_stop_result:
  assumes "wf_queue (log_tq (lt_log t))"
    and "\<forall>lc \<in> set (in_hand (lt_pc t) @ get_queue (log_tq (lt_log t))). length lc = LOG_LEN"
  shows "if \<not> is_async (lt_log t) then log_stop t = Some (t\<lparr>lt_running := False, lt_deleted := True\<rparr>)
    else if lt_pc t = Log_pop \<and> get_queue (log_tq (lt_log t)) = [] then log_stop t = None
    else \<exists>t'. log_stop t = Some t' \<and> lt_pc t' = Log_exit \<and> lt_deleted t' \<and>
      (let queued = get_queue (log_tq (lt_log t))
       in if lt_pc t = Log_pop
          then log_file (lt_log t') = log_file (lt_log t) @ hd queued \<and> get_queue (log_tq (lt_log t')) = tl queued
          else log_file (lt_log t') = log_file (lt_log t) @ concat (in_hand (lt_pc t)) \<and>
               get_queue (log_tq (lt_log t')) = queued)"
proof (cases "is_async (lt_log t)")
  case True
  let ?t = "stop_running t" and ?q = "log_tq (lt_log t)"
  note stop = log_stop_def stop_running_def delete_tq_def Let_def
  show ?thesis
  proof (cases "lt_pc t")
    case Log_pop
    show ?thesis
    proof (cases "get_queue ?q")
      case Nil
      then have "log_join ?t = None"
        using Log_pop tq.empty_iff [OF assms(1)] by (subst log_join.simps) (simp add: log_from_queue_def stop_running_def)
      then show ?thesis using True Log_pop Nil by (simp add: stop)
    next
      case (Cons rec rest)
      then have ne: "\<not> is_empty ?q" using tq.empty_iff [OF assms(1)] by simp
      then obtain q sig where q: "pop_body ?q = Some (rec, q, sig)" "get_queue q = rest"
        using tq.pop_spec [OF assms(1)] Cons by auto
      let ?w = "?t\<lparr>lt_log := (lt_log t)\<lparr>log_tq := q\<rparr>, lt_pc := Log_write rec\<rparr>"
      have "log_join ?t = log_join ?w"
        using Log_pop ne q(1) by (subst log_join.simps) (simp add: log_from_queue_def stop_running_def)
      moreover have "length rec = LOG_LEN" using assms(2) Cons by simp
      ultimately show ?thesis
        using True Log_pop Cons q(2) log_join_write [of ?w rec] by (simp add: stop)
    qed
  next
    case Log_test
    then show ?thesis using True log_join_test [of ?t] by (simp add: stop)
  next
    case (Log_write lc)
    then show ?thesis using True assms(2) log_join_write [of ?t lc] by (simp add: stop)
  next
    case Log_exit
    then have "log_join ?t = Some ?t" by (subst log_join.simps) (simp add: stop_running_def)
    then show ?thesis using True Log_exit by (simp add: stop)
  qed
qed (simp add: log_stop_def stop_running_def delete_tq_def)

theorem log_stop_result_witness:
  "log_stop \<lparr>lt_log = ex_log, lt_running = True, lt_pc = Log_pop, lt_deleted = False\<rparr> = None"
  using log_stop_result [of "\<lparr>lt_log = ex_log, lt_running = True, lt_pc = Log_pop, lt_deleted = False\<rparr>"] ex_log_facts by simp

end
