(* ===== verification/Pipeline.thy ===== *)
theory Pipeline
  imports Stage Logging "HOL-Library.Sublist"
begin

text \<open>
  Stages in a row, joined by ZeroMQ sockets. A step relation interleaves the receivers, the handlers and
  the workers of all stages in any order. What ZeroMQ does to the messages on their way is a parameter, of which
  only the documented behaviour of a PUB/SUB connection is assumed: messages may be lost, but are neither
  reordered nor made up.
\<close>

section \<open>Definitions\<close>

text \<open>
  \<open>links p i\<close> are the messages on their way to the receiver of stage \<open>i\<close>. The remaining fields record what
  the code does not: the messages given to the first stage, the elements each receiver has made, and
  whether some stage has fetched an element while one of its jobs was still open.
\<close>

record pipe =
  stages :: "nat \<Rightarrow> stage_handler"
  links :: "nat \<Rightarrow> byte list list"
  entered :: "byte list list"
  arrived :: "nat \<Rightarrow> element list"
  overtaken :: bool

definition pipe_start :: "pipe \<Rightarrow> bool" where
  "pipe_start p \<longleftrightarrow> p = \<lparr>stages = (\<lambda>_. new_stage_handler), links = (\<lambda>_. []), entered = [], arrived = (\<lambda>_. []), overtaken = False\<rparr>"

text \<open>
  A message: a string that fits into an element with its terminator, and with the text \<^verbatim>\<open>fetchOne\<close> adds to it
  into a line of the log, where a longer one is a fault (see \<open>fetch_log_room\<close> below).
\<close>

definition message :: "byte list \<Rightarrow> bool" where
  "message m \<longleftrightarrow> 0 \<notin> set m \<and> length m \<le> 78"

text \<open>What a publisher does to the links: the bytes a job has handed to \<^verbatim>\<open>zmq_send\<close> are put on the link to the next stage.\<close>

definition new_bytes :: "stage_handler \<Rightarrow> stage_handler \<Rightarrow> byte list list" where
  "new_bytes sh sh' = drop (length (sh_sent sh)) (sh_sent sh')"

inductive pipe_step ::
    "(byte list list \<Rightarrow> byte list list \<Rightarrow> bool) \<Rightarrow> (byte list \<Rightarrow> byte list option) list \<Rightarrow> pipe \<Rightarrow> pipe \<Rightarrow> bool"
  for net fs where
  pipe_enter: "message m \<Longrightarrow>
    pipe_step net fs p (p\<lparr>links := (links p)(0 := links p 0 @ [m]), entered := entered p @ [m]\<rparr>)"
| pipe_net: "net (links p i) l \<Longrightarrow> pipe_step net fs p (p\<lparr>links := (links p)(i := l)\<rparr>)"
| pipe_receive: "i < length fs \<Longrightarrow> links p i = m # ms \<Longrightarrow> recv_element m = Inr ie \<Longrightarrow>
    pipe_step net fs p (p\<lparr>stages := (stages p)(i := (stages p i)\<lparr>sh_elements := fst (enqueue (sh_elements (stages p i)) ie)\<rparr>),
      links := (links p)(i := ms), arrived := (arrived p)(i := arrived p i @ [ie])\<rparr>)"
| pipe_dispatch: "i < length fs \<Longrightarrow> dispatch (stages p i) = Some sh \<Longrightarrow>
    pipe_step net fs p (p\<lparr>stages := (stages p)(i := sh), overtaken := overtaken p \<or> 0 < sh_jobs (stages p i)\<rparr>)"
| pipe_execute: "i < length fs \<Longrightarrow> handlerFunc (fs ! i) ret again (stages p i) = Some (Inr sh) \<Longrightarrow>
    pipe_step net fs p (p\<lparr>stages := (stages p)(i := sh),
      links := (links p)(Suc i := links p (Suc i) @ new_bytes (stages p i) sh)\<rparr>)"

text \<open>The documented behaviour of a PUB/SUB connection.\<close>

definition lossy_fifo :: "(byte list list \<Rightarrow> byte list list \<Rightarrow> bool) \<Rightarrow> bool" where
  "lossy_fifo net \<longleftrightarrow> (\<forall>xs ys. net xs ys \<longrightarrow> subseq ys xs)"

text \<open>\<open>f\<close> computes \<open>g\<close> on messages and returns its result as a C string.\<close>

definition implements :: "(byte list \<Rightarrow> byte list option) \<Rightarrow> (byte list \<Rightarrow> byte list) \<Rightarrow> bool" where
  "implements f g \<longleftrightarrow> (\<forall>b. message (c_str b) \<longrightarrow> message (g (c_str b)) \<and> (\<exists>x. f b = Some (g (c_str b) @ 0 # x)))"

section \<open>One stage\<close>

definition fetch_text :: "byte list" where
  "fetch_text = bytes_of ''receiver : [fetchOne] fetchOne success. ''"

lemma fetch_log_room:
  assumes "0 \<notin> set m"
  shows "debug_line (fetch_text @ m) = (if message m then Inr (debug_prefix @ fetch_text @ m @ [0x0A]) else Inl Out_of_bounds)"
proof -
  have "0 \<notin> set fetch_text" "length fetch_text = 40" by (simp_all add: fetch_text_def bytes_of_def)
  then show ?thesis using assms debug_line_eq [of "fetch_text @ m"] by (auto simp: message_def)
qed

definition str_of :: "element \<Rightarrow> byte list" where
  "str_of e = c_str (getElement e)"

lemma recv_element_message:
  assumes "message m"
  obtains ie where "recv_element m = Inr ie" "str_of ie = m"
proof -
  obtain ie where "receive [] m = Inr ([ie], True)" "c_str (getElement ie) = take 255 (c_str m)"
    using receive_eq [of "[]" m] by auto
  then show ?thesis
    using that assms by (auto simp: receive_def enqueue_def res_bind_Inr_iff str_of_def message_def c_str_all_no_nul)
qed

lemma handlerFunc_message:
  assumes "implements f g" and "message (str_of (sh_ie sh))"
  shows "handlerFunc f ret again sh =
    (if sh_jobs sh = 0 then None
     else Some (Inr (sh\<lparr>sh_jobs := sh_jobs sh - 1, sh_handled := sh_handled sh @ [sh_ie sh],
       sh_sent := sh_sent sh @ [g (str_of (sh_ie sh))]\<rparr>)))"
proof -
  let ?b = "getElement (sh_ie sh)"
  have "message (g (c_str ?b))" "\<exists>x. f ?b = Some (g (c_str ?b) @ 0 # x)"
    using assms by (auto simp: implements_def str_of_def)
  then obtain e where "handler_result f (sh_ie sh) = Inr (Some e)" "sendMsg ret again e = Inr (g (c_str ?b), \<not> (ret \<noteq> 0 \<and> again))"
    using hop_sent [of f "sh_ie sh" "g (c_str ?b)" _ ret again] by (fastforce simp: message_def)
  then show ?thesis by (simp add: handlerFunc_def str_of_def)
qed

text \<open>
  A stage that has received \<open>es\<close>: what it has sent are the results for what its jobs have handled, and
  those are fetched elements. As long as jobs do not overlap they are handled in order, each once.
\<close>

definition stage_inv :: "(byte list \<Rightarrow> byte list) \<Rightarrow> bool \<Rightarrow> element list \<Rightarrow> stage_handler \<Rightarrow> bool" where
  "stage_inv g over es sh \<longleftrightarrow>
     (\<forall>e \<in> set es. message (str_of e)) \<and> sh_sent sh = map (g \<circ> str_of) (sh_handled sh) \<and>
     (\<exists>fetched. es = fetched @ sh_elements sh \<and> set (sh_handled sh) \<subseteq> set fetched \<and>
       (0 < sh_jobs sh \<longrightarrow> fetched \<noteq> [] \<and> sh_ie sh = last fetched) \<and>
       (\<not> over \<longrightarrow> fetched = sh_handled sh @ (if sh_jobs sh = 0 then [] else [sh_ie sh]) \<and> sh_jobs sh \<le> 1))"

lemma stage_inv_over: "stage_inv g over es sh \<Longrightarrow> stage_inv g (over \<or> b) es sh"
  by (auto simp: stage_inv_def)

lemma stage_inv_receive:
  assumes "stage_inv g over es sh" and "message (str_of ie)"
  shows "stage_inv g over (es @ [ie]) (sh\<lparr>sh_elements := fst (enqueue (sh_elements sh) ie)\<rparr>)"
  using assms by (auto simp: stage_inv_def enqueue_def Let_def)

lemma stage_inv_dispatch:
  assumes "stage_inv g over es sh" and "dispatch sh = Some sh'"
  shows "stage_inv g (over \<or> 0 < sh_jobs sh) es sh'" and "sh_sent sh' = sh_sent sh"
proof -
  obtain ie rest where d: "sh_elements sh = ie # rest" "sh' = sh\<lparr>sh_elements := rest, sh_ie := ie, sh_jobs := sh_jobs sh + 1\<rparr>"
    using assms(2) by (auto simp: dispatch_def fetchOne_def split: list.splits)
  then show "sh_sent sh' = sh_sent sh" by simp
  obtain fetched where "es = fetched @ sh_elements sh" "set (sh_handled sh) \<subseteq> set fetched"
      "\<not> over \<longrightarrow> fetched = sh_handled sh @ (if sh_jobs sh = 0 then [] else [sh_ie sh]) \<and> sh_jobs sh \<le> 1"
    using assms(1) by (auto simp: stage_inv_def)
  then show "stage_inv g (over \<or> 0 < sh_jobs sh) es sh'"
    using assms(1) d by (auto simp: stage_inv_def intro!: exI [of _ "fetched @ [ie]"])
qed

lemma stage_inv_execute:
  assumes "implements f g" and "stage_inv g over es sh" and "handlerFunc f ret again sh = Some (Inr sh')"
  shows "stage_inv g over es sh' \<and> (\<exists>m. message (g m) \<and> new_bytes sh sh' = [g m] \<and> sh_sent sh' = sh_sent sh @ [g m])"
proof -
  have j: "0 < sh_jobs sh" using assms(3) by (auto simp: handlerFunc_def split: if_splits)
  then have ie: "sh_ie sh \<in> set es" using assms(2) by (auto simp: stage_inv_def)
  then have m: "message (str_of (sh_ie sh))" using assms(2) by (simp add: stage_inv_def)
  then have "message (g (str_of (sh_ie sh)))" using assms(1) by (simp add: implements_def str_of_def)
  moreover have sh': "sh' = sh\<lparr>sh_jobs := sh_jobs sh - 1, sh_handled := sh_handled sh @ [sh_ie sh],
      sh_sent := sh_sent sh @ [g (str_of (sh_ie sh))]\<rparr>"
    using handlerFunc_message [OF assms(1) m, of ret again] assms(3) j by simp
  ultimately show ?thesis using assms(2) j by (auto simp: stage_inv_def new_bytes_def)
qed

section \<open>All stages\<close>

lemma subseq_set: "subseq xs ys \<Longrightarrow> set xs \<subseteq> set ys"
  by (induction rule: list_emb.induct) auto

text \<open>What comes into stage \<open>i\<close>: the messages given to the first stage, or what the stage before has sent.\<close>

fun source :: "pipe \<Rightarrow> nat \<Rightarrow> byte list list" where
  "source p 0 = entered p"
| "source p (Suc i) = sh_sent (stages p i)"

definition pipe_inv :: "(byte list \<Rightarrow> byte list) list \<Rightarrow> pipe \<Rightarrow> bool" where
  "pipe_inv gs p \<longleftrightarrow>
     (\<forall>i < length gs. stage_inv (gs ! i) (overtaken p) (arrived p i) (stages p i)) \<and>
     (\<forall>i \<le> length gs. subseq (map str_of (arrived p i) @ links p i) (source p i)) \<and>
     (\<forall>i \<le> length gs. \<forall>m \<in> set (links p i). message m)"

lemma source_upd:
  "source (p\<lparr>stages := s\<rparr>) i = (case i of 0 \<Rightarrow> entered p | Suc j \<Rightarrow> sh_sent (s j))"
  "source (p\<lparr>links := l\<rparr>) i = source p i" "source (p\<lparr>arrived := a\<rparr>) i = source p i"
  "source (p\<lparr>overtaken := b\<rparr>) i = source p i"
  "source (p\<lparr>entered := e\<rparr>) i = (case i of 0 \<Rightarrow> e | Suc j \<Rightarrow> source p i)"
  by (cases i; simp)+

lemma pipe_inv_step:
  assumes net: "lossy_fifo net" and fs: "list_all2 implements fs gs" and inv: "pipe_inv gs p" and step: "pipe_step net fs p q"
  shows "pipe_inv gs q"
proof -
  have len: "length fs = length gs" using fs by (rule list_all2_lengthD)
  have st: "stage_inv (gs ! i) (overtaken p) (arrived p i) (stages p i)" if "i < length gs" for i
    using inv that by (simp add: pipe_inv_def)
  have ln: "subseq (map str_of (arrived p i) @ links p i) (source p i)" "\<forall>m \<in> set (links p i). message m"
    if "i \<le> length gs" for i
    using inv that by (simp_all add: pipe_inv_def)
  have lS: "subseq (map str_of (arrived p (Suc i)) @ links p (Suc i)) (sh_sent (stages p i))" if "i < length gs" for i
    using ln(1) [of "Suc i"] that by simp
  from step show ?thesis
  proof cases
    case (pipe_enter m)
    have "subseq ((map str_of (arrived p 0) @ links p 0) @ [m]) (entered p @ [m])"
      using ln(1) [of 0] by (simp only: subseq_append) simp
    then show ?thesis
      using st ln lS pipe_enter by (auto simp: pipe_inv_def source_upd Suc_le_eq split: nat.splits)
  next
    case (pipe_net i l)
    then have sub: "subseq l (links p i)" using net by (simp add: lossy_fifo_def)
    then have "subseq (map str_of (arrived p i) @ l) (map str_of (arrived p i) @ links p i)" by (simp add: subseq_append')
    moreover have "set l \<subseteq> set (links p i)" using sub by (auto dest: subseq_set)
    ultimately show ?thesis
      using st ln lS pipe_net by (auto simp: pipe_inv_def source_upd Suc_le_eq intro: subseq_order.trans)
  next
    case (pipe_receive i m ms ie)
    then have i: "i < length gs" and m: "message m" using len ln(2) [of i] by auto
    obtain ie' where "recv_element m = Inr ie'" "str_of ie' = m" using recv_element_message [OF m] .
    then have ie: "str_of ie = m" using pipe_receive(4) by simp
    have "subseq (map str_of (arrived p i @ [ie]) @ ms) (source p i)" "\<forall>m \<in> set ms. message m"
      using ln [of i] i pipe_receive(3) ie by simp_all
    moreover have "source q j = source p j" for j by (cases j) (simp_all add: pipe_receive(1))
    ultimately show ?thesis
      using st ln stage_inv_receive [OF st [OF i], of ie] ie m by (simp add: pipe_inv_def pipe_receive(1))
  next
    case (pipe_dispatch i sh)
    then have i: "i < length gs" using len by simp
    note d = stage_inv_dispatch [OF st [OF i] pipe_dispatch(3)]
    have "source q j = source p j" for j using d(2) by (cases j) (simp_all add: pipe_dispatch(1))
    then show ?thesis using st ln d(1) by (simp add: pipe_inv_def pipe_dispatch(1) stage_inv_over)
  next
    case (pipe_execute i ret again sh)
    have i: "i < length gs" "implements (fs ! i) (gs ! i)"
      using pipe_execute(2) len fs by (auto simp: list_all2_conv_all_nth)
    obtain m where m: "stage_inv (gs ! i) (overtaken p) (arrived p i) sh" "message m"
        "new_bytes (stages p i) sh = [m]" "sh_sent sh = sh_sent (stages p i) @ [m]"
      using stage_inv_execute [OF i(2) st [OF i(1)] pipe_execute(3)] by blast
    have "subseq ((map str_of (arrived p (Suc i)) @ links p (Suc i)) @ [m]) (source p (Suc i) @ [m])"
      using ln(1) [of "Suc i"] i(1) by (simp only: subseq_append Suc_le_eq)
    moreover have "\<forall>m \<in> set (links p (Suc i)). message m" using ln(2) [of "Suc i"] i(1) by simp
    moreover have "source q j = source p j @ (if j = Suc i then [m] else [])" for j
      using m(4) by (cases j) (simp_all add: pipe_execute(1))
    ultimately show ?thesis using st ln m(1-3) by (simp add: pipe_inv_def pipe_execute(1))
  qed
qed

interpretation pps: invariant_system pipe_start "pipe_step net fs"
  "\<lambda>p. lossy_fifo net \<longrightarrow> list_all2 implements fs gs \<longrightarrow> pipe_inv gs p" for net fs gs
proof unfold_locales
  show "lossy_fifo net \<longrightarrow> list_all2 implements fs gs \<longrightarrow> pipe_inv gs p" if "pipe_start p" for p
  proof -
    have "source p i = []" for i using that by (cases i) (simp_all add: pipe_start_def new_stage_handler_def)
    then show ?thesis using that by (simp add: pipe_start_def pipe_inv_def stage_inv_def new_stage_handler_def)
  qed
qed (blast intro: pipe_inv_step)

text \<open>The functions of the stages up to \<open>i\<close>, applied in turn.\<close>

definition through :: "(byte list \<Rightarrow> byte list) list \<Rightarrow> nat \<Rightarrow> byte list \<Rightarrow> byte list" where
  "through gs n = fold id (take n gs)"

lemma through_0 [simp]: "through gs 0 = id"
  by (simp add: through_def)

lemma through_Suc: "i < length gs \<Longrightarrow> through gs (Suc i) m = (gs ! i) (through gs i m)"
  by (simp add: through_def take_Suc_conv_app_nth)

text \<open>What a stage has sent, in terms of what came to it.\<close>

lemma stage_sent:
  assumes "stage_inv g over es sh" and "subseq (map str_of es @ l) src"
  shows "set (sh_sent sh) \<subseteq> g ` set src" and "\<not> over \<Longrightarrow> subseq (sh_sent sh) (map g src)"
proof -
  obtain fetched where F: "es = fetched @ sh_elements sh" "set (sh_handled sh) \<subseteq> set fetched"
      "\<not> over \<longrightarrow> fetched = sh_handled sh @ (if sh_jobs sh = 0 then [] else [sh_ie sh])"
      and sent: "sh_sent sh = map g (map str_of (sh_handled sh))"
    using assms(1) by (auto simp: stage_inv_def)
  have "str_of ` set es \<subseteq> set src" using subseq_set [OF assms(2)] by auto
  then show "set (sh_sent sh) \<subseteq> g ` set src" using F sent by (auto simp: image_iff) 
  show "subseq (sh_sent sh) (map g src)" if no: "\<not> over"
  proof -
    obtain rest where "es = sh_handled sh @ rest" using F no by auto
    then have "subseq (map str_of (sh_handled sh)) (map str_of es @ l)" by (auto intro: prefix_imp_subseq)
    then show ?thesis unfolding sent using assms(2) by (blast intro: subseq_map subseq_order.trans)
  qed
qed

lemma sent_step:
  assumes "pipe_inv gs p" and "i < length gs"
  shows "set (source p (Suc i)) \<subseteq> (gs ! i) ` set (source p i)"
    and "\<not> overtaken p \<Longrightarrow> subseq (source p (Suc i)) (map (gs ! i) (source p i))"
proof -
  have st: "stage_inv (gs ! i) (overtaken p) (arrived p i) (stages p i)"
      "subseq (map str_of (arrived p i) @ links p i) (source p i)"
    using assms by (simp_all add: pipe_inv_def)
  show "set (source p (Suc i)) \<subseteq> (gs ! i) ` set (source p i)" using stage_sent(1) [OF st] by simp
  show "subseq (source p (Suc i)) (map (gs ! i) (source p i))" if "\<not> overtaken p" using stage_sent(2) [OF st that] by simp
qed

lemma through_map: "i < length gs \<Longrightarrow> map (gs ! i) (map (through gs i) ms) = map (through gs (Suc i)) ms"
  by (simp add: through_Suc)

lemma sent_through:
  assumes "pipe_inv gs p"
  shows "i \<le> length gs \<Longrightarrow> set (source p i) \<subseteq> through gs i ` set (entered p)"
    and "i \<le> length gs \<Longrightarrow> \<not> overtaken p \<Longrightarrow> subseq (source p i) (map (through gs i) (entered p))"
proof (induction i)
  case (Suc i)
  {
    case 1
    then show ?case using sent_step(1) [OF assms, of i] Suc.IH(1) by (fastforce simp: through_Suc)
  next
    case 2
    then have "subseq (map (gs ! i) (source p i)) (map (gs ! i) (map (through gs i) (entered p)))"
      by (intro subseq_map Suc.IH(2)) auto
    then have "subseq (map (gs ! i) (source p i)) (map (through gs (Suc i)) (entered p))"
      using through_map [of i gs "entered p"] 2 by (simp only: Suc_le_eq)
    then show ?case using sent_step(2) [OF assms, of i] 2 by (auto intro: subseq_order.trans simp del: source.simps)
  }
qed simp_all

text \<open>A run in which nothing is lost: a message alone on the link to stage \<open>i\<close> gets to the next one.\<close>

definition at_rest :: "stage_handler \<Rightarrow> bool" where
  "at_rest sh \<longleftrightarrow> sh_elements sh = [] \<and> sh_jobs sh = 0"

lemma pipe_hop:
  assumes "implements (fs ! i) g" and "i < length fs" and "links p i = [m]" and "message m"
    and "at_rest (stages p i)" and "\<not> overtaken p"
  shows "\<exists>q sh. rtranclp (pipe_step net fs) p q \<and> links q = (links p)(i := [], Suc i := links p (Suc i) @ [g m]) \<and>
    \<not> overtaken q \<and> entered q = entered p \<and> stages q = (stages p)(i := sh) \<and> at_rest sh \<and>
    sh_sent sh = sh_sent (stages p i) @ [g m]"
proof -
  obtain ie where ie: "recv_element m = Inr ie" "str_of ie = m" using recv_element_message [OF assms(4)] .
  note rest = assms(5) [unfolded at_rest_def]
  let ?sh = "stages p i"
  let ?sh1 = "?sh\<lparr>sh_elements := [ie]\<rparr>" and ?sh2 = "?sh\<lparr>sh_ie := ie, sh_jobs := 1\<rparr>"
  let ?sh3 = "?sh2\<lparr>sh_jobs := 0, sh_handled := sh_handled ?sh @ [ie], sh_sent := sh_sent ?sh @ [g m]\<rparr>"
  let ?p1 = "p\<lparr>stages := (stages p)(i := ?sh1), links := (links p)(i := []), arrived := (arrived p)(i := arrived p i @ [ie])\<rparr>"
  let ?p2 = "?p1\<lparr>stages := (stages p)(i := ?sh2), overtaken := False\<rparr>"
  let ?p3 = "?p2\<lparr>stages := (stages p)(i := ?sh3), links := (links p)(i := [], Suc i := links p (Suc i) @ [g m])\<rparr>"
  have "pipe_step net fs p ?p1"
    using pipe_receive [OF assms(2), of p m "[]" ie net] assms(3) rest ie(1) by (simp add: enqueue_def)
  moreover have "pipe_step net fs ?p1 ?p2"
  proof -
    have "dispatch ?sh1 = Some ?sh2" using rest by (cases ?sh) (simp add: dispatch_def fetchOne_def)
    then show ?thesis using pipe_dispatch [OF assms(2), of ?p1 ?sh2 net] rest assms(6) by (cases p) simp
  qed
  moreover have "pipe_step net fs ?p2 ?p3"
  proof -
    have "handlerFunc (fs ! i) 0 False ?sh2 = Some (Inr ?sh3)"
      using handlerFunc_message [OF assms(1), of ?sh2 0 False] ie(2) assms(4) by simp
    then show ?thesis using pipe_execute [OF assms(2), of 0 False ?p2 ?sh3 net] by (cases p) (simp add: new_bytes_def)
  qed
  ultimately have "rtranclp (pipe_step net fs) p ?p3" by (meson converse_rtranclp_into_rtranclp rtranclp.rtrancl_refl)
  then show ?thesis using rest by (intro exI [of _ ?p3] exI [of _ ?sh3]) (simp add: at_rest_def)
qed

lemma pipe_pass:
  assumes "list_all2 implements fs gs" and "i < length fs" and "message m"
    and "\<forall>j < length fs. links p j = (if j = i then [m] else []) \<and> at_rest (stages p j)" and "\<not> overtaken p"
  shows "\<exists>q. rtranclp (pipe_step net fs) p q \<and> (\<forall>j < length fs. links q j = [] \<and> at_rest (stages q j)) \<and> \<not> overtaken q \<and>
    entered q = entered p \<and> sh_sent (stages q (length fs - 1)) = sh_sent (stages p (length fs - 1)) @ [fold id (drop i gs) m]"
  using assms(2-5)
proof (induction "length fs - i" arbitrary: i p m)
  case (Suc k)
  have g: "implements (fs ! i) (gs ! i)" and len: "length fs = length gs"
    using assms(1) Suc.prems(1) by (auto simp: list_all2_conv_all_nth)
  have mg: "message ((gs ! i) m)"
    using g Suc.prems(2) c_str_all_no_nul [of m] by (metis implements_def message_def)
  obtain q sh where q: "rtranclp (pipe_step net fs) p q" "links q = (links p)(i := [], Suc i := links p (Suc i) @ [(gs ! i) m])"
      "\<not> overtaken q" "entered q = entered p" "stages q = (stages p)(i := sh)" "at_rest sh"
      "sh_sent sh = sh_sent (stages p i) @ [(gs ! i) m]"
    using pipe_hop [OF g Suc.prems(1) _ Suc.prems(2) _ Suc.prems(4)] Suc.prems(1,3) by metis
  have dr: "drop i gs = gs ! i # drop (Suc i) gs" using Suc.prems(1) len by (simp add: Cons_nth_drop_Suc)
  show ?case
  proof (cases "Suc i = length fs")
    case True
    then have "sh_sent (stages q (length fs - 1)) = sh_sent (stages p (length fs - 1)) @ [fold id (drop i gs) m]"
      using q(5,7) dr len by (simp flip: True)
    then show ?thesis using q Suc.prems(3) True by (intro exI [of _ q]) auto
  next
    case False
    then have S: "Suc i < length fs" using Suc.prems(1) by simp
    have "\<forall>j < length fs. links q j = (if j = Suc i then [(gs ! i) m] else []) \<and> at_rest (stages q j)"
      using q(2,5,6) Suc.prems(3) S by simp
    moreover have "k = length fs - Suc i" using Suc.hyps(2) by simp
    ultimately obtain t where
        "rtranclp (pipe_step net fs) q t" "\<forall>j < length fs. links t j = [] \<and> at_rest (stages t j)" "\<not> overtaken t"
        "entered t = entered q" "sh_sent (stages t (length fs - 1)) =
          sh_sent (stages q (length fs - 1)) @ [fold id (drop (Suc i) gs) ((gs ! i) m)]"
      using Suc.hyps(1) [OF _ S mg _ q(3)] by blast
    moreover have "stages q (length fs - 1) = stages p (length fs - 1)" using q(5) S by simp
    ultimately show ?thesis using q(1,4) dr by (intro exI [of _ t]) (auto intro: rtranclp_trans)
  qed
qed simp

lemma pipe_delivers:
  assumes "list_all2 implements fs gs" and "fs \<noteq> []" and "\<forall>m \<in> set ms. message m"
  shows "\<exists>p. reach pipe_start (pipe_step net fs) p \<and> (\<forall>j < length fs. links p j = [] \<and> at_rest (stages p j)) \<and>
    \<not> overtaken p \<and> entered p = ms \<and> sh_sent (stages p (length fs - 1)) = map (fold id gs) ms"
  using assms(3)
proof (induction ms rule: rev_induct)
  case Nil
  show ?case
    by (intro exI conjI, rule reach_init, simp add: pipe_start_def) (simp_all add: at_rest_def new_stage_handler_def)
next
  case (snoc m ms)
  then have "\<forall>m \<in> set ms. message m" by simp
  from snoc.IH [OF this] obtain p where p: "reach pipe_start (pipe_step net fs) p" "\<forall>j < length fs. links p j = [] \<and> at_rest (stages p j)"
      "\<not> overtaken p" "entered p = ms" "sh_sent (stages p (length fs - 1)) = map (fold id gs) ms"
    by blast
  let ?p = "p\<lparr>links := (links p)(0 := links p 0 @ [m]), entered := entered p @ [m]\<rparr>"
  have "pipe_step net fs p ?p" using snoc.prems by (intro pipe_enter) simp
  then have r: "reach pipe_start (pipe_step net fs) ?p" by (rule reach_step [OF p(1)])
  have f: "0 < length fs" and m: "message m" and o: "\<not> overtaken ?p" using assms(2) snoc.prems p(3) by simp_all
  have l: "\<forall>j < length fs. links ?p j = (if j = 0 then [m] else []) \<and> at_rest (stages ?p j)" using p(2) f by simp
  obtain q where q: "rtranclp (pipe_step net fs) ?p q" "\<forall>j < length fs. links q j = [] \<and> at_rest (stages q j)" "\<not> overtaken q"
      "entered q = entered ?p" "sh_sent (stages q (length fs - 1)) = sh_sent (stages ?p (length fs - 1)) @ [fold id (drop 0 gs) m]"
    using pipe_pass [OF assms(1) f m l o] by blast
  from q(1) r have "reach pipe_start (pipe_step net fs) q" by (induction rule: rtranclp_induct) (auto intro: reach_step)
  then show ?case using q(2-5) p(4,5) by (intro exI [of _ q]) (simp add: id_def)
qed

section \<open>Properties\<close>

text \<open>
  C33: a pipeline composes. For stages whose functions compute \<open>gs\<close> on strings of at most 78 characters, and links that may
  lose messages but keep their order, every message a stage sends, under every interleaving of
  receivers, handlers and workers, is the result of the functions up to that stage on a message that was given to the first one
  (elements being copied atomically); and as long as no stage fetches an element while a job of it is open,
  the messages come in the order of the inputs, none twice. Runs in which nothing is lost exist: all inputs
  leave the last stage, each with the functions of all stages applied.
\<close>

theorem pipeline_composes:
  assumes "lossy_fifo net" and "list_all2 implements fs gs"
  shows "(\<forall>p i. reach pipe_start (pipe_step net fs) p \<longrightarrow> i < length fs \<longrightarrow>
      set (sh_sent (stages p i)) \<subseteq> fold id (take (Suc i) gs) ` set (entered p) \<and>
      (\<not> overtaken p \<longrightarrow> subseq (sh_sent (stages p i)) (map (fold id (take (Suc i) gs)) (entered p)))) \<and>
    (\<forall>ms. fs \<noteq> [] \<longrightarrow> (\<forall>m \<in> set ms. message m) \<longrightarrow>
      (\<exists>p. reach pipe_start (pipe_step net fs) p \<and> entered p = ms \<and>
        sh_sent (stages p (length fs - 1)) = map (fold id gs) ms))"
proof (intro conjI allI impI)
  have len: "length fs = length gs" using assms(2) by (rule list_all2_lengthD)
  fix p i
  assume "reach pipe_start (pipe_step net fs) p" and i: "i < length fs"
  then have inv: "pipe_inv gs p" using pps.reach_inv [of net fs p gs] assms by blast
  show "set (sh_sent (stages p i)) \<subseteq> fold id (take (Suc i) gs) ` set (entered p)"
    using sent_through(1) [OF inv, of "Suc i"] i len by (simp add: through_def)
  show "subseq (sh_sent (stages p i)) (map (fold id (take (Suc i) gs)) (entered p))" if "\<not> overtaken p"
    using sent_through(2) [OF inv, of "Suc i"] i len that by (simp add: through_def)
next
  fix ms
  assume "fs \<noteq> []" and "\<forall>m \<in> set ms. message m"
  from pipe_delivers [OF assms(2) this, of net] show "\<exists>p. reach pipe_start (pipe_step net fs) p \<and> entered p = ms \<and>
      sh_sent (stages p (length fs - 1)) = map (fold id gs) ms"
    by blast
qed

theorem pipeline_composes_witness:
  "lossy_fifo (\<lambda>xs ys. ys = tl xs) \<and>
   (\<exists>p. reach pipe_start (pipe_step (\<lambda>xs ys. ys = tl xs) [\<lambda>b. Some (c_str b @ [0]), \<lambda>b. Some (rev (c_str b) @ [0])]) p \<and>
     sh_sent (stages p 1) = [[0x62, 0x61], [0x63]] \<and> set (sh_sent (stages p 0)) \<subseteq> {[0x61, 0x62], [0x63]})"
proof -
  let ?net = "\<lambda>xs ys. ys = tl xs" and ?fs = "[\<lambda>b. Some (c_str b @ [0]), \<lambda>b. Some (rev (c_str b) @ [0])]"
  have n: "lossy_fifo ?net" unfolding lossy_fifo_def by (metis suffix_imp_subseq suffix_tl)
  have "implements (\<lambda>b. Some (c_str b @ [0])) id" "implements (\<lambda>b. Some (rev (c_str b) @ [0])) rev"
    by (simp_all add: implements_def message_def)
  then have "list_all2 implements ?fs [id, rev]" by simp
  note run = pipeline_composes [OF n this]
  have "\<forall>m \<in> set [[0x61, 0x62], [0x63]]. message m" by (simp add: message_def)
  then obtain p where p: "reach pipe_start (pipe_step ?net ?fs) p" "entered p = [[0x61, 0x62], [0x63]]"
      "sh_sent (stages p (length ?fs - 1)) = map (fold id [id, rev]) [[0x61, 0x62], [0x63]]"
    using conjunct2 [OF run] by blast
  moreover have "set (sh_sent (stages p 0)) \<subseteq> fold id (take (Suc 0) [id, rev]) ` set (entered p)"
    using conjunct1 [OF run] p(1) by (metis length_Cons zero_less_Suc)
  ultimately show ?thesis using n by (intro conjI exI [of _ p]) auto
qed

end
