(* ===== verification/Config_File.thy ===== *)
theory Config_File
  imports Prelude
begin

text \<open>
  The reader of the configuration file in \<^verbatim>\<open>config.cpp\<close>. The constructor \<^verbatim>\<open>Config::Config\<close> returns on its first line
  (\<open>Config_new\<close> in the theory \<open>Seda\<close>), so that this code is not run, and it collects the stages in a local vector that hides
  the member of the same name. What it would read from a file is modelled here.
\<close>

section \<open>Definitions\<close>

text \<open>\<^verbatim>\<open>stage_config\<close>\<close>

record stage_config =
  sc_res :: "byte list"
  sc_des :: "byte list"

definition getResource :: "stage_config \<Rightarrow> byte list" where
  "getResource sc = sc_res sc"

definition getDestination :: "stage_config \<Rightarrow> byte list" where
  "getDestination sc = sc_des sc"

abbreviation NL :: byte where "NL \<equiv> 0x0A"
abbreviation HASH :: byte where "HASH \<equiv> 0x23"
abbreviation EQ_SIGN :: byte where "EQ_SIGN \<equiv> 0x3D"

definition str_resource :: "byte list" where
  "str_resource = [0x72, 0x65, 0x73, 0x6F, 0x75, 0x72, 0x63, 0x65]"

definition str_destination :: "byte list" where
  "str_destination = [0x64, 0x65, 0x73, 0x74, 0x69, 0x6E, 0x61, 0x74, 0x69, 0x6F, 0x6E]"

text \<open>
  \<^verbatim>\<open>fgets\<close> with room for \<open>k\<close> characters before the terminator: the characters up to the first line feed, which is
  included, and the rest of the file.
\<close>

fun fgets :: "nat \<Rightarrow> byte list \<Rightarrow> byte list \<times> byte list" where
  "fgets 0 f = ([], f)"
| "fgets (Suc k) [] = ([], [])"
| "fgets (Suc k) (b # f) = (if b = NL then ([b], f) else (let (l, f') = fgets k f in (b # l, f')))"

text \<open>\<^verbatim>\<open>strchr\<close>: the position of the first such character of the string.\<close>

fun strchr :: "byte \<Rightarrow> byte list \<Rightarrow> nat option" where
  "strchr c [] = None"
| "strchr c (b # bs) = (if b = c then Some 0 else if b = 0 then None else map_option Suc (strchr c bs))"

text \<open>The loop body on the 256 bytes of \<^verbatim>\<open>buf\<close>, with \<^verbatim>\<open>res\<close>, \<^verbatim>\<open>des\<close> and \<^verbatim>\<open>config\<close>.\<close>

type_synonym config_state = "byte list \<times> byte list \<times> stage_config list"

definition config_push :: "config_state \<Rightarrow> config_state" where
  "config_push st = (case st of (res, des, config) \<Rightarrow>
     if length res \<noteq> 0 \<and> length des \<noteq> 0 then ([], [], config @ [\<lparr>sc_res = res, sc_des = des\<rparr>])
     else (res, des, config))"

definition config_line :: "byte list \<Rightarrow> config_state \<Rightarrow> config_state result" where
  "config_line buf st = (case st of (res, des, config) \<Rightarrow>
     res_bind (rd buf 0) (\<lambda>b.
     if b = 0 \<or> b = HASH then Inr st
     else
       (case strchr EQ_SIGN buf of
          None \<Rightarrow> Inl Null_deref
        | Some p \<Rightarrow>
            let buf = buf[p := 0]; v = c_str (drop (p + 1) buf) in
            res_bind (c_memeq buf 0 str_resource) (\<lambda>is_res.
            if is_res then Inr (config_push (v, des, config))
            else res_bind (c_memeq buf 0 str_destination) (\<lambda>is_des.
            if is_des then Inr (config_push (res, v, config)) else Inl Exited)))))"

lemma fgets_shorter: "fgets (Suc k) (b # f) = (l, f') \<Longrightarrow> length f' < length (b # f)"
proof -
  have "length (snd (fgets k f)) \<le> length f" for k f by (induction k f rule: fgets.induct) (auto split: prod.splits)
  then show "fgets (Suc k) (b # f) = (l, f') \<Longrightarrow> length f' < length (b # f)"
    by (auto split: if_splits prod.splits) (metis less_Suc_eq_le snd_conv)
qed

function config_loop :: "byte list \<Rightarrow> config_state \<Rightarrow> config_state result" where
  "config_loop f st =
     (if f = [] then Inr st
      else let (l, f') = fgets 255 f
           in res_bind (config_line (l @ replicate (256 - length l) 0) st) (\<lambda>st. config_loop f' st))"
  by auto
termination
proof (relation "measure (\<lambda>(f, st). length f)", goal_cases)
  case (2 f st p l f')
  then obtain b g where "f = b # g" by (cases f) auto
  moreover have "fgets (Suc 254) f = (l, f')" using 2 by simp
  ultimately show ?case using fgets_shorter [of 254 b g l f'] by simp
qed simp

declare config_loop.simps [simp del]

text \<open>The reader; \<open>None\<close> is a file that cannot be opened.\<close>

definition read_config :: "byte list option \<Rightarrow> stage_config list result" where
  "read_config file = (case file of
     None \<Rightarrow> Inl Exited
   | Some f \<Rightarrow>
       res_bind (config_loop f ([], [], [])) (\<lambda>(res, des, config).
       if length res \<noteq> 0 \<or> length des \<noteq> 0 then Inl Exited else Inr config))"

section \<open>Files\<close>

text \<open>What a file consists of: comments, and stages as two lines.\<close>

datatype item = Comment "byte list" | Stage "byte list" "byte list"

fun render :: "item \<Rightarrow> byte list" where
  "render (Comment c) = HASH # c @ [NL]"
| "render (Stage r d) = str_resource @ EQ_SIGN # r @ NL # str_destination @ EQ_SIGN # d @ [NL]"

definition line_text :: "nat \<Rightarrow> byte list \<Rightarrow> bool" where
  "line_text k t \<longleftrightarrow> NL \<notin> set t \<and> 0 \<notin> set t \<and> length t \<le> k"

fun item_ok :: "item \<Rightarrow> bool" where
  "item_ok (Comment c) = line_text 253 c"
| "item_ok (Stage r d) = (line_text 245 r \<and> line_text 242 d)"

fun item_config :: "item \<Rightarrow> stage_config list" where
  "item_config (Comment c) = []"
| "item_config (Stage r d) = [\<lparr>sc_res = r @ [NL], sc_des = d @ [NL]\<rparr>]"

section \<open>Lines\<close>

lemma fgets_line: "NL \<notin> set t \<Longrightarrow> length t < k \<Longrightarrow> fgets k (t @ NL # f) = (t @ [NL], f)"
proof (induction t arbitrary: k)
  case Nil
  then show ?case by (cases k) auto
next
  case (Cons b t)
  then show ?case by (cases k) auto
qed

lemma config_loop_line:
  assumes "line_text 254 t"
  shows "config_loop (t @ NL # f) st =
    res_bind (config_line (t @ NL # replicate (255 - length t) 0) st) (config_loop f)"
  using assms fgets_line [of t 255 f] by (subst config_loop.simps) (simp add: line_text_def Suc_diff_le)

lemma strchr_first: "c \<notin> set a \<Longrightarrow> 0 \<notin> set a \<Longrightarrow> strchr c (a @ c # b) = Some (length a)"
  by (induction a) auto

lemma strchr_none: "c \<notin> set a \<Longrightarrow> strchr c (a @ 0 # b) = None \<or> c = 0"
  by (induction a) auto

lemma config_comment: "config_line (HASH # b) st = Inr st"
  by (cases st) (simp add: config_line_def rd_def)

lemma memeq_same: "c_memeq (a @ bs @ x) (length a) bs = Inr True"
proof (induction bs arbitrary: a)
  case (Cons b bs)
  from Cons [of "a @ [b]"] show ?case by (simp add: rd_def)
qed simp

lemma c_str_value: "0 \<notin> set v \<Longrightarrow> 0 < k \<Longrightarrow> c_str (v @ NL # replicate k 0) = v @ [NL]"
  using c_str_no_nul [of "v @ [NL]" "replicate (k - 1) 0"] by (cases k) simp_all

lemma config_resource:
  assumes "line_text 245 v"
  shows "config_line (str_resource @ EQ_SIGN # v @ NL # replicate (246 - length v) 0) (res, des, config) =
    Inr (config_push (v @ [NL], des, config))"
proof -
  let ?z = "replicate (246 - length v) 0" and ?v = "v @ NL # replicate (246 - length v) 0"
  have "strchr EQ_SIGN (str_resource @ EQ_SIGN # ?v) = Some 8"
    using strchr_first [of EQ_SIGN str_resource ?v] by (simp add: str_resource_def)
  moreover have "c_memeq (str_resource @ 0 # ?v) 0 str_resource = Inr True"
    using memeq_same [of "[]" str_resource "0 # ?v"] by simp
  moreover have "(str_resource @ EQ_SIGN # ?v)[8 := 0] = str_resource @ 0 # ?v" "drop 9 (str_resource @ 0 # ?v) = ?v"
    by (simp_all add: str_resource_def)
  moreover have "c_str ?v = v @ [NL]" using assms by (intro c_str_value) (auto simp: line_text_def)
  moreover have "rd (str_resource @ EQ_SIGN # ?v) 0 = Inr 0x72" by (simp add: str_resource_def rd_def)
  ultimately show ?thesis by (simp add: config_line_def Let_def)
qed

lemma config_destination:
  assumes "line_text 242 v"
  shows "config_line (str_destination @ EQ_SIGN # v @ NL # replicate (243 - length v) 0) (res, des, config) =
    Inr (config_push (res, v @ [NL], config))"
proof -
  let ?v = "v @ NL # replicate (243 - length v) 0"
  have "strchr EQ_SIGN (str_destination @ EQ_SIGN # ?v) = Some 11"
    using strchr_first [of EQ_SIGN str_destination ?v] by (simp add: str_destination_def)
  moreover have "c_memeq (str_destination @ 0 # ?v) 0 str_destination = Inr True"
    using memeq_same [of "[]" str_destination "0 # ?v"] by simp
  moreover have "c_memeq (str_destination @ 0 # ?v) 0 str_resource = Inr False"
    by (simp add: str_destination_def str_resource_def rd_def)
  moreover have "(str_destination @ EQ_SIGN # ?v)[11 := 0] = str_destination @ 0 # ?v" "drop 12 (str_destination @ 0 # ?v) = ?v"
    by (simp_all add: str_destination_def)
  moreover have "c_str ?v = v @ [NL]" using assms by (intro c_str_value) (auto simp: line_text_def)
  moreover have "rd (str_destination @ EQ_SIGN # ?v) 0 = Inr 0x64" by (simp add: str_destination_def rd_def)
  ultimately show ?thesis by (simp add: config_line_def Let_def)
qed

lemma config_loop_item:
  assumes "item_ok it"
  shows "config_loop (render it @ f) ([], [], config) = config_loop f ([], [], config @ item_config it)"
proof (cases it)
  case (Comment c)
  then have "line_text 254 (HASH # c)" using assms by (simp add: line_text_def)
  from config_loop_line [OF this, of f "([], [], config)"] show ?thesis by (simp add: Comment config_comment)
next
  case (Stage r d)
  let ?rest = "str_destination @ EQ_SIGN # d @ NL # f"
  have ok: "line_text 245 r" "line_text 242 d" using assms by (simp_all add: Stage)
  then have t: "line_text 254 (str_resource @ EQ_SIGN # r)" "line_text 254 (str_destination @ EQ_SIGN # d)"
    by (auto simp: line_text_def str_resource_def str_destination_def)
  have "config_loop (str_resource @ EQ_SIGN # r @ NL # ?rest) ([], [], config) = config_loop ?rest (r @ [NL], [], config)"
    using config_loop_line [OF t(1), of ?rest] config_resource [OF ok(1)] by (simp add: config_push_def str_resource_def)
  also have "\<dots> = config_loop f ([], [], config @ item_config it)"
    using config_loop_line [OF t(2), of f] config_destination [OF ok(2)] by (simp add: config_push_def str_destination_def Stage)
  finally show ?thesis by (simp add: Stage)
qed

lemma config_loop_items:
  "\<forall>it \<in> set items. item_ok it \<Longrightarrow>
   config_loop (concat (map render items) @ f) ([], [], config) = config_loop f ([], [], config @ concat (map item_config items))"
  by (induction items arbitrary: config) (simp_all add: config_loop_item)

section \<open>Properties\<close>

text \<open>
  Reading a configuration file that consists of comments and stages, a stage being a line for its resource and one
  for its destination, with lines of at most 255 characters: the reader returns the stages in the order of the
  file, but every resource and destination ends with the line feed of its line.
\<close>

theorem read_config_roundtrip:
  assumes "\<forall>it \<in> set items. item_ok it"
  shows "read_config (Some (concat (map render items))) = Inr (concat (map item_config items))"
  using config_loop_items [OF assms, of "[]" "[]"] by (simp add: read_config_def config_loop.simps)

theorem read_config_roundtrip_witness:
  "read_config (Some (concat (map render [Comment [0x61], Stage [0x62] [0x63, EQ_SIGN]]))) =
   Inr [\<lparr>sc_res = [0x62, NL], sc_des = [0x63, EQ_SIGN, NL]\<rparr>]"
  using read_config_roundtrip [of "[Comment [0x61], Stage [0x62] [0x63, EQ_SIGN]]"] by (simp add: line_text_def)

text \<open>
  A blank line stops the reader: it searches the line for an equals sign, finds none, and writes through the null pointer. The file
  \<^verbatim>\<open>config/stage_config.ini\<close> of the repository is such a file, with a blank line after each stage.
\<close>

theorem read_config_blank_line:
  assumes "\<forall>it \<in> set items. item_ok it"
  shows "read_config (Some (concat (map render items) @ NL # f)) = Inl Null_deref"
proof -
  have "(replicate 255 0 :: byte list) = 0 # replicate 254 0" using replicate_Suc [of 254 0] by simp
  then have "strchr EQ_SIGN (NL # replicate 255 0) = None" using strchr_none [of EQ_SIGN "[NL]"] by simp
  then have "config_loop ([] @ NL # f) st = Inl Null_deref" for st
    using config_loop_line [of "[]" f st] by (cases st) (simp add: line_text_def config_line_def rd_def)
  then show ?thesis using config_loop_items [OF assms, of "NL # f" "[]"] by (simp add: read_config_def)
qed

text \<open>The first four lines of the file of the repository.\<close>

definition stage_1 :: "item list" where
  "stage_1 = [Comment (bytes_of '' stage 1''), Stage (bytes_of ''tcp://localhost:5667'') (bytes_of ''tcp://localhost:5668'')]"

theorem read_config_blank_line_witness:
  "read_config (Some (concat (map render stage_1) @ [NL])) = Inl Null_deref"
  using read_config_blank_line [of stage_1 "[]"] by (simp add: stage_1_def line_text_def bytes_of_def)

end
