(* ===== verification/Http_Request.thy ===== *)
theory Http_Request
  imports Prelude
begin

text \<open>
  \<^verbatim>\<open>http_request.cpp\<close>: the state machine that reads an HTTP request, with checked access to the
  receive buffer, the 64 bytes of \<^verbatim>\<open>url\<close> and the 128 bytes of \<^verbatim>\<open>t_content\<close>. The position \<open>i\<close> of the loop and
  \<^verbatim>\<open>begin\<close> are local to a call; the state \<^verbatim>\<open>rhs\<close> survives it. \<^verbatim>\<open>http_server.cpp\<close> has a second copy of
  the same machine.
\<close>

section \<open>Definitions\<close>

datatype read_http_status = READ_HTTP_START | METHORD | URL | PROTO | VERSION | REQUEST_HEAD
  | CONTENT | READ_HTTP_FINISH | READ_HTTP_ERROR

datatype http_method = GET | POST

datatype http_proto = HTTP | HTTPS

text \<open>\<open>None\<close> in \<open>method\<close> and \<open>proto\<close> is the value before any assignment.\<close>

record http_request =
  rhs :: read_http_status
  req_method :: "http_method option"
  req_proto :: "http_proto option"
  url :: "byte list"
  content :: "byte list \<rightharpoonup> byte list"

definition new_http_request :: http_request where
  "new_http_request = \<lparr>rhs = READ_HTTP_START, req_method = None, req_proto = None,
                       url = replicate 64 0, content = Map.empty\<rparr>"

definition getUrl :: "http_request \<Rightarrow> byte list" where
  "getUrl r = url r"

definition get_map_contents :: "http_request \<Rightarrow> (byte list \<rightharpoonup> byte list)" where
  "get_map_contents r = content r"

abbreviation SP :: byte where "SP \<equiv> 0x20"
abbreviation CR :: byte where "CR \<equiv> 0x0D"
abbreviation LF :: byte where "LF \<equiv> 0x0A"
abbreviation SLASH :: byte where "SLASH \<equiv> 0x2F"
abbreviation AMP :: byte where "AMP \<equiv> 0x26"
abbreviation EQUALS :: byte where "EQUALS \<equiv> 0x3D"

definition str_GET :: "byte list" where "str_GET = [0x47, 0x45, 0x54]"
definition str_POST :: "byte list" where "str_POST = [0x50, 0x4F, 0x53, 0x54]"
definition str_HTTP :: "byte list" where "str_HTTP = [0x48, 0x54, 0x54, 0x50]"

text \<open>The fields that \<^verbatim>\<open>strsep(&p, "&")\<close> returns one after the other; an empty string has one, empty, field.\<close>

fun fields :: "byte list \<Rightarrow> byte list \<Rightarrow> byte list list" where
  "fields acc [] = [rev acc]"
| "fields acc (c # cs) = (if c = AMP then rev acc # fields [] cs else fields (c # acc) cs)"

text \<open>One field: \<^verbatim>\<open>*param = 0\<close> writes through \<^verbatim>\<open>NULL\<close> when there is no \<^verbatim>\<open>=\<close>; \<^verbatim>\<open>insert\<close> keeps an older binding.\<close>

definition add_param :: "(byte list \<rightharpoonup> byte list) \<Rightarrow> byte list \<Rightarrow> (byte list \<rightharpoonup> byte list) result" where
  "add_param m p =
     (if EQUALS \<notin> set p then Inl Null_deref
      else let k = takeWhile (\<lambda>c. c \<noteq> EQUALS) p;
               v = tl (dropWhile (\<lambda>c. c \<noteq> EQUALS) p)
           in Inr (if m k = None then m(k \<mapsto> v) else m))"

fun add_params :: "(byte list \<rightharpoonup> byte list) \<Rightarrow> byte list list \<Rightarrow> (byte list \<rightharpoonup> byte list) result" where
  "add_params m [] = Inr m"
| "add_params m (p # ps) = res_bind (add_param m p) (\<lambda>m. add_params m ps)"

text \<open>\<^verbatim>\<open>get_params(buf + off, len)\<close>.\<close>

definition get_params :: "http_request \<Rightarrow> byte list \<Rightarrow> nat \<Rightarrow> nat \<Rightarrow> http_request result" where
  "get_params r buf off len =
     res_bind (c_memcpy (replicate 128 0) 0 buf off len) (\<lambda>t_content.
     res_bind (c_strlen (drop off buf)) (\<lambda>_.
     res_bind (add_params (content r) (fields [] (c_str (drop off buf)))) (\<lambda>m.
     Inr (r\<lparr>content := m\<rparr>))))"

definition read_method :: "byte list \<Rightarrow> nat \<Rightarrow> http_request \<Rightarrow> http_request result" where
  "read_method buf begin r =
     res_bind (c_memeq buf begin str_GET) (\<lambda>g.
       if g then Inr (r\<lparr>req_method := Some GET\<rparr>)
       else res_bind (c_memeq buf begin str_POST) (\<lambda>p.
         if p then Inr (r\<lparr>req_method := Some POST\<rparr>) else Inr (r\<lparr>rhs := READ_HTTP_ERROR\<rparr>)))"

definition read_proto :: "byte list \<Rightarrow> nat \<Rightarrow> nat \<Rightarrow> http_request \<Rightarrow> http_request result" where
  "read_proto buf begin i r =
     res_bind (c_memeq buf begin str_HTTP) (\<lambda>h.
       if h \<and> i - begin = 4 then Inr (r\<lparr>req_proto := Some HTTP\<rparr>)
       else if h \<and> i - begin = 5 then Inr (r\<lparr>req_proto := Some HTTPS\<rparr>)
       else Inr r)"

text \<open>The body of the loop: the request, \<open>i\<close> at the end of the body and \<^verbatim>\<open>begin\<close>.\<close>

definition parse_step ::
    "byte list \<Rightarrow> nat \<Rightarrow> http_request \<Rightarrow> nat \<Rightarrow> nat \<Rightarrow> (http_request \<times> nat \<times> nat) result" where
  "parse_step buf nread r i begin = (
     let r = (if rhs r = READ_HTTP_START then r\<lparr>rhs := METHORD\<rparr> else r) in
     case rhs r of
       READ_HTTP_START \<Rightarrow> Inr (r, i, begin)
     | METHORD \<Rightarrow>
         res_bind (rd buf i) (\<lambda>c.
           if c = SP then res_bind (read_method buf begin r) (\<lambda>r. Inr (r\<lparr>rhs := URL\<rparr>, i, i + 1))
           else Inr (r, i, begin))
     | URL \<Rightarrow>
         res_bind (rd buf i) (\<lambda>c.
           if c = SP then
             res_bind (c_memcpy (url r) 0 buf begin (i - begin)) (\<lambda>u.
               Inr (r\<lparr>url := u, rhs := PROTO\<rparr>, i, i + 1))
           else Inr (r, i, begin))
     | PROTO \<Rightarrow>
         res_bind (rd buf i) (\<lambda>c.
           if c = SLASH then res_bind (read_proto buf begin i r) (\<lambda>r. Inr (r\<lparr>rhs := VERSION\<rparr>, i, i + 1))
           else Inr (r, i, begin))
     | VERSION \<Rightarrow>
         res_bind (rd buf i) (\<lambda>c.
           if c = CR then res_bind (rd buf (i + 1)) (\<lambda>d.
             if d = LF then Inr (r\<lparr>rhs := REQUEST_HEAD\<rparr>, i + 1, i + 2) else Inr (r, i + 1, begin))
           else Inr (r, i, begin))
     | REQUEST_HEAD \<Rightarrow>
         res_bind (rd buf i) (\<lambda>c.
           if c = CR then res_bind (rd buf (i + 1)) (\<lambda>d.
             if d = LF then
               res_bind (rd buf (i + 2)) (\<lambda>e.
                 if e = CR then res_bind (rd buf (i + 3)) (\<lambda>f.
                   if f = LF then
                     Inr (r\<lparr>rhs := if i + 3 = nread - 1 \<or> i + 3 = nread then READ_HTTP_FINISH else CONTENT\<rparr>,
                          i + 1, i + 3)
                   else Inr (r, i + 1, i + 3))
                 else Inr (r, i + 1, i + 2))
             else Inr (r, i + 1, begin))
           else Inr (r, i, begin))
     | CONTENT \<Rightarrow>
         res_bind (rd buf i) (\<lambda>c.
           res_bind (if c = LF then Inr r else get_params r buf (i + 1) (nread - i - 1)) (\<lambda>r.
           Inr (r\<lparr>rhs := READ_HTTP_FINISH\<rparr>, i, begin)))
     | READ_HTTP_FINISH \<Rightarrow> Inr (r, i, begin)
     | READ_HTTP_ERROR \<Rightarrow> Inr (r, i, begin))"

lemma parse_step_advances: "parse_step buf nread r i b = Inr (r', i', b') \<Longrightarrow> i \<le> i'"
  by (auto simp: parse_step_def res_bind_Inr_iff Let_def split: read_http_status.splits if_splits)

function parse_loop ::
    "byte list \<Rightarrow> nat \<Rightarrow> http_request \<Rightarrow> nat \<Rightarrow> nat \<Rightarrow> http_request result" where
  "parse_loop buf nread r i begin =
     (if i < nread then
        res_bind (parse_step buf nread r i begin) (\<lambda>(r, i, begin). parse_loop buf nread r (i + 1) begin)
      else Inr r)"
  by auto
termination
  by (relation "measure (\<lambda>(buf, nread, r, i, b). nread - i)") (auto dest!: parse_step_advances)

declare parse_loop.simps [simp del]

definition read_http_status_machine ::
    "http_request \<Rightarrow> byte list \<Rightarrow> nat \<Rightarrow> (http_request \<times> read_http_status) result" where
  "read_http_status_machine r buf nread =
     res_bind (parse_loop buf nread r 0 0) (\<lambda>r. Inr (r, rhs r))"

section \<open>Segments of a request\<close>

lemma parse_skip:
  assumes "\<And>j. j < k \<Longrightarrow> parse_step buf n r (i + j) b = Inr (r, i + j, b)" and "i + k \<le> n"
  shows "parse_loop buf n r i b = parse_loop buf n r (i + k) b"
  using assms
proof (induction k arbitrary: i)
  case (Suc k)
  have "parse_loop buf n r i b = parse_loop buf n r (i + 1) b"
    using Suc.prems(1) [of 0] Suc.prems(2) by (subst parse_loop.simps) simp
  also have "\<dots> = parse_loop buf n r (i + 1 + k) b"
  proof (rule Suc.IH)
    show "parse_step buf n r (i + 1 + j) b = Inr (r, i + 1 + j, b)" if "j < k" for j
      using Suc.prems(1) [of "Suc j"] that by simp
  qed (use Suc.prems(2) in simp)
  finally show ?case by simp
qed simp

lemma parse_one:
  assumes "parse_step buf n r i b = Inr (r', i', b')" and "i < n"
  shows "parse_loop buf n r i b = parse_loop buf n r' (i' + 1) b'"
  using assms by (subst parse_loop.simps) simp

text \<open>The character each state waits for.\<close>

fun trigger :: "read_http_status \<Rightarrow> byte option" where
  "trigger METHORD = Some SP"
| "trigger URL = Some SP"
| "trigger PROTO = Some SLASH"
| "trigger VERSION = Some CR"
| "trigger REQUEST_HEAD = Some CR"
| "trigger _ = None"

lemma rd_nth [simp]: "i < length buf \<Longrightarrow> rd buf i = Inr (buf ! i)"
  by (simp add: rd_def)

lemma idle_step:
  assumes "trigger (rhs r) = Some t" and "j < length buf" and "buf ! j \<noteq> t"
  shows "parse_step buf n r j b = Inr (r, j, b)"
  using assms by (cases "rhs r") (auto simp: parse_step_def)

lemma skip_to:
  assumes "trigger (rhs r) = Some t" and "buf = a @ w @ x" and "t \<notin> set w" and "length a + length w \<le> n"
  shows "parse_loop buf n r (length a) b = parse_loop buf n r (length a + length w) b"
proof (rule parse_skip)
  fix j
  assume "j < length w"
  then have "buf ! (length a + j) = w ! j" "length a + j < length buf" by (simp_all add: assms(2) nth_append)
  then show "parse_step buf n r (length a + j) b = Inr (r, length a + j, b)"
    using assms(3) \<open>j < length w\<close> by (intro idle_step [OF assms(1)]) (auto dest: nth_mem)
qed (use assms(4) in simp)

lemma nth_after: "(a @ w @ c # x) ! (length a + length w) = c"
  by (simp add: nth_append)

lemma memeq_prefix: "c_memeq (a @ bs @ x) (length a) bs = Inr True"
proof (induction bs arbitrary: a)
  case (Cons b bs)
  from Cons [of "a @ [b]"] show ?case by simp
qed simp

lemma memeq_diff: "b \<noteq> c \<Longrightarrow> c_memeq (a @ c # x) (length a) (b # bs) = Inr False"
  by simp

text \<open>One lemma per state: where the machine stands after the part of the request it reads.\<close>

lemma seg_method:
  assumes "rhs r = READ_HTTP_START" and "buf = m @ SP # x" and "m = str_GET \<or> m = str_POST" and "length m < n"
  shows "parse_loop buf n r 0 0 =
    parse_loop buf n (r\<lparr>req_method := Some (if m = str_GET then GET else POST), rhs := URL\<rparr>) (length m + 1) (length m + 1)"
proof -
  let ?r = "r\<lparr>rhs := METHORD\<rparr>"
  have "parse_loop buf n r 0 0 = parse_loop buf n ?r 0 0"
    using assms(1,4) by (subst (1 2) parse_loop.simps) (auto simp: parse_step_def)
  also have "\<dots> = parse_loop buf n ?r (length m) 0"
    using skip_to [of ?r SP buf "[]" m "SP # x" n 0] assms(2-4) by (auto simp: str_GET_def str_POST_def)
  also have "parse_step buf n ?r (length m) 0 =
      Inr (r\<lparr>req_method := Some (if m = str_GET then GET else POST), rhs := URL\<rparr>, length m, length m + 1)"
    using assms(2,3) by (auto simp: parse_step_def read_method_def str_GET_def str_POST_def)
  note parse_one [OF this assms(4)]
  finally show ?thesis by simp
qed

lemma seg_url:
  assumes "rhs r = URL" and "buf = a @ u @ SP # x" and "SP \<notin> set u" and "length u \<le> length (url r)"
    and "length a + length u < n"
  shows "parse_loop buf n r (length a) (length a) =
    parse_loop buf n (r\<lparr>url := u @ drop (length u) (url r), rhs := PROTO\<rparr>)
      (length a + length u + 1) (length a + length u + 1)"
proof -
  have "parse_loop buf n r (length a) (length a) = parse_loop buf n r (length a + length u) (length a)"
    using skip_to [of r SP buf a u] assms by simp
  also have "parse_step buf n r (length a + length u) (length a) =
      Inr (r\<lparr>url := u @ drop (length u) (url r), rhs := PROTO\<rparr>, length a + length u, length a + length u + 1)"
    using assms(1,2,4) nth_after [of a u SP x]
    by (simp add: parse_step_def c_memcpy_def mem_write_def)
  note parse_one [OF this assms(5)]
  finally show ?thesis by simp
qed

lemma seg_proto:
  assumes "rhs r = PROTO" and "buf = a @ str_HTTP @ SLASH # x" and "length a + 4 < n"
  shows "parse_loop buf n r (length a) (length a) =
    parse_loop buf n (r\<lparr>req_proto := Some HTTP, rhs := VERSION\<rparr>) (length a + 5) (length a + 5)"
proof -
  have len: "length str_HTTP = 4" "SLASH \<notin> set str_HTTP" by (simp_all add: str_HTTP_def)
  have "parse_loop buf n r (length a) (length a) = parse_loop buf n r (length a + 4) (length a)"
    using skip_to [of r SLASH buf a str_HTTP "SLASH # x" n "length a"] assms len by simp
  also have "parse_step buf n r (length a + 4) (length a) =
      Inr (r\<lparr>req_proto := Some HTTP, rhs := VERSION\<rparr>, length a + 4, length a + 5)"
    using assms(1,2) nth_after [of a str_HTTP SLASH x] memeq_prefix [of a str_HTTP "SLASH # x"] len
    by (simp add: parse_step_def read_proto_def)
  note parse_one [OF this]
  finally show ?thesis using assms(3) by (simp add: add.commute)
qed

lemma seg_version:
  assumes "rhs r = VERSION" and "buf = a @ v @ CR # LF # x" and "CR \<notin> set v" and "length a + length v < n"
  shows "parse_loop buf n r (length a) b =
    parse_loop buf n (r\<lparr>rhs := REQUEST_HEAD\<rparr>) (length a + length v + 2) (length a + length v + 2)"
proof -
  have "parse_loop buf n r (length a) b = parse_loop buf n r (length a + length v) b"
    using skip_to [of r CR buf a v] assms by simp
  also have "parse_step buf n r (length a + length v) b =
      Inr (r\<lparr>rhs := REQUEST_HEAD\<rparr>, length a + length v + 1, length a + length v + 2)"
    using assms(1,2) nth_after [of a v CR "LF # x"] nth_after [of a "v @ [CR]" LF x]
    by (simp add: parse_step_def)
  note parse_one [OF this assms(4)]
  finally show ?thesis by simp
qed

lemma head_step:
  assumes "rhs r = REQUEST_HEAD" and "buf = a @ h @ CR # LF # c # d # x"
  shows "parse_step buf n r (length a + length h) b =
    (if c = CR \<and> d = LF then
       Inr (r\<lparr>rhs := if length a + length h + 3 = n - 1 \<or> length a + length h + 3 = n then READ_HTTP_FINISH else CONTENT\<rparr>,
            length a + length h + 1, length a + length h + 3)
     else Inr (r, length a + length h + 1, length a + length h + (if c = CR then 3 else 2)))"
proof -
  define I where "I = length a + length h"
  have "rd buf I = Inr CR" "rd buf (I + 1) = Inr LF" "rd buf (I + 2) = Inr c" "rd buf (I + 3) = Inr d"
    by (simp_all add: assms(2) I_def nth_append rd_def numeral_3_eq_3)
  then show ?thesis
    unfolding I_def [symmetric] using assms(1) by (simp add: parse_step_def)
qed

lemma seg_header:
  assumes "rhs r = REQUEST_HEAD" and "buf = a @ h @ CR # LF # c # d # x" and "CR \<notin> set h" and "c \<noteq> CR"
    and "length a + length h < n"
  shows "parse_loop buf n r (length a) b =
    parse_loop buf n r (length a + length h + 2) (length a + length h + 2)"
proof -
  have "parse_loop buf n r (length a) b = parse_loop buf n r (length a + length h) b"
    using skip_to [of r CR buf a h] assms by simp
  also have "parse_step buf n r (length a + length h) b = Inr (r, length a + length h + 1, length a + length h + 2)"
    using head_step [OF assms(1,2)] assms(4) by simp
  note parse_one [OF this assms(5)]
  finally show ?thesis by simp
qed

lemma seg_last_header:
  assumes "rhs r = REQUEST_HEAD" and "buf = a @ h @ CR # LF # CR # LF # x" and "CR \<notin> set h"
    and "n = length a + length h + 4 + k"
  shows "\<exists>b'. parse_loop buf n r (length a) b =
    parse_loop buf n (r\<lparr>rhs := if k = 0 then READ_HTTP_FINISH else CONTENT\<rparr>) (length a + length h + 2) b'"
proof -
  have n: "length a + length h < n" using assms(4) by simp
  have "parse_loop buf n r (length a) b = parse_loop buf n r (length a + length h) b"
    using skip_to [of r CR buf a h] assms by simp
  also have "parse_step buf n r (length a + length h) b =
      Inr (r\<lparr>rhs := if k = 0 then READ_HTTP_FINISH else CONTENT\<rparr>, length a + length h + 1, length a + length h + 3)"
    using head_step [OF assms(1,2), of n b] assms(4) by simp
  note parse_one [OF this n]
  finally show ?thesis by auto
qed

lemma parse_finished: "rhs r = READ_HTTP_FINISH \<Longrightarrow> i \<le> n \<Longrightarrow> parse_loop buf n r i b = Inr r"
proof (induction "n - i" arbitrary: i)
  case 0
  then show ?case by (subst parse_loop.simps) simp
next
  case (Suc k)
  then have "parse_loop buf n r i b = parse_loop buf n r (i + 1) b"
    by (intro parse_one) (auto simp: parse_step_def)
  with Suc show ?case by simp
qed

text \<open>A request: method, target, version, header lines, blank line, body.\<close>

definition head_lines :: "byte list list \<Rightarrow> byte list" where
  "head_lines hs = concat (map (\<lambda>h. h @ [CR, LF]) hs)"

definition request :: "byte list \<Rightarrow> byte list \<Rightarrow> byte list \<Rightarrow> byte list list \<Rightarrow> byte list \<Rightarrow> byte list" where
  "request m u v hs body =
     m @ SP # u @ SP # str_HTTP @ SLASH # v @ [CR, LF] @ head_lines hs @ [CR, LF] @ body"

definition line_ok :: "byte list \<Rightarrow> bool" where
  "line_ok h \<longleftrightarrow> h \<noteq> [] \<and> CR \<notin> set h"

definition request_ok :: "byte list \<Rightarrow> byte list \<Rightarrow> byte list \<Rightarrow> byte list list \<Rightarrow> bool" where
  "request_ok m u v hs \<longleftrightarrow> (m = str_GET \<or> m = str_POST) \<and> SP \<notin> set u \<and> length u \<le> 64 \<and> CR \<notin> set v \<and>
     list_all line_ok hs"

lemma head_lines_simps [simp]:
  "head_lines [] = []" "head_lines (h # hs) = h @ CR # LF # head_lines hs"
  by (simp_all add: head_lines_def)

lemma seg_headers:
  assumes "rhs r = REQUEST_HEAD" and "buf = a @ head_lines hs @ CR # LF # x" and "list_all line_ok hs" and "hs \<noteq> []"
    and "n = length a + length (head_lines hs) + 2 + k"
  shows "\<exists>b'. parse_loop buf n r (length a) b =
    parse_loop buf n (r\<lparr>rhs := if k = 0 then READ_HTTP_FINISH else CONTENT\<rparr>) (length a + length (head_lines hs)) b'"
  using assms(2-5)
proof (induction hs arbitrary: a b)
  case (Cons h hs)
  show ?case
  proof (cases hs)
    case Nil
    then show ?thesis
      using seg_last_header [OF assms(1), of buf a h x n k b] Cons.prems by (simp add: line_ok_def add.assoc)
  next
    case (Cons h' hs')
    then obtain c w where h': "h' = c # w" "c \<noteq> CR"
      using Cons.prems(2) by (cases h') (auto simp: line_ok_def)
    obtain d y where buf: "buf = a @ h @ CR # LF # c # d # y"
    proof (cases "w @ CR # LF # head_lines hs' @ CR # LF # x")
      case (Cons d y)
      then show ?thesis using that Cons.prems(1) \<open>hs = h' # hs'\<close> h' by simp
    qed simp
    have n: "length a + length h < n" using Cons.prems(4) by simp
    have h: "CR \<notin> set h" using Cons.prems(2) by (simp add: line_ok_def)
    have "parse_loop buf n r (length a) b = parse_loop buf n r (length (a @ h @ [CR, LF])) (length a + length h + 2)"
      using seg_header [OF assms(1) buf h h'(2) n] by simp
    then show ?thesis
      using Cons.IH [of "a @ h @ [CR, LF]"] Cons.prems Cons by (simp add: add.assoc)
  qed
qed simp

text \<open>The request record after the blank line, with \<^verbatim>\<open>rhs\<close> in state \<open>st\<close>.\<close>

definition parsed :: "byte list \<Rightarrow> byte list \<Rightarrow> read_http_status \<Rightarrow> (byte list \<rightharpoonup> byte list) \<Rightarrow> http_request" where
  "parsed m u st M = \<lparr>rhs = st, req_method = Some (if m = str_GET then GET else POST), req_proto = Some HTTP,
                      url = u @ replicate (64 - length u) 0, content = M\<rparr>"

text \<open>From the target to the first header line, wherever the machine stands in the buffer.\<close>

lemma parse_from_target:
  assumes r: "rhs r = URL" "length (url r) = 64" and buf: "buf = a @ u @ SP # str_HTTP @ SLASH # v @ CR # LF # x"
    and u: "SP \<notin> set u" "length u \<le> 64" and v: "CR \<notin> set v" and n: "length a + length u + length v + 8 \<le> n"
  shows "parse_loop buf n r (length a) (length a) =
    parse_loop buf n (r\<lparr>url := u @ drop (length u) (url r), req_proto := Some HTTP, rhs := REQUEST_HEAD\<rparr>)
      (length a + length u + length v + 8) (length a + length u + length v + 8)"
proof -
  have len: "length str_HTTP = 4" by (simp add: str_HTTP_def)
  let ?r2 = "r\<lparr>url := u @ drop (length u) (url r), rhs := PROTO\<rparr>"
  let ?r3 = "?r2\<lparr>req_proto := Some HTTP, rhs := VERSION\<rparr>"
  let ?a2 = "a @ u @ [SP]" and ?a3 = "a @ u @ SP # str_HTTP @ [SLASH]"
  have "parse_loop buf n r (length a) (length a) = parse_loop buf n ?r2 (length ?a2) (length ?a2)"
    using seg_url [of r buf a u "str_HTTP @ SLASH # v @ CR # LF # x" n] buf r u n by (simp add: add.assoc)
  also have "\<dots> = parse_loop buf n ?r3 (length ?a3) (length ?a3)"
    using seg_proto [of ?r2 buf ?a2 "v @ CR # LF # x" n] buf len n by (simp add: ac_simps)
  also have "\<dots> = parse_loop buf n (?r3\<lparr>rhs := REQUEST_HEAD\<rparr>) (length ?a3 + length v + 2) (length ?a3 + length v + 2)"
    using seg_version [of ?r3 buf ?a3 v x n] buf v len n by (simp add: ac_simps)
  finally show ?thesis using len by (simp add: ac_simps)
qed

lemma parse_request_line:
  assumes ok: "request_ok m u v hs" and buf: "buf = m @ SP # u @ SP # str_HTTP @ SLASH # v @ CR # LF # x"
    and n: "length m + length u + length v + 9 \<le> n"
  shows "parse_loop buf n new_http_request 0 0 =
    parse_loop buf n (parsed m u REQUEST_HEAD Map.empty)
      (length m + length u + length v + 9) (length m + length u + length v + 9)"
proof -
  have m: "m = str_GET \<or> m = str_POST" and u: "SP \<notin> set u" "length u \<le> 64" and v: "CR \<notin> set v"
    using ok by (auto simp: request_ok_def)
  define r1 where "r1 = new_http_request\<lparr>req_method := Some (if m = str_GET then GET else POST), rhs := URL\<rparr>"
  have "parse_loop buf n new_http_request 0 0 = parse_loop buf n r1 (length (m @ [SP])) (length (m @ [SP]))"
    using seg_method [OF _ buf m] n by (simp add: new_http_request_def r1_def)
  also have "\<dots> = parse_loop buf n (r1\<lparr>url := u @ drop (length u) (url r1), req_proto := Some HTTP, rhs := REQUEST_HEAD\<rparr>)
      (length m + length u + length v + 9) (length m + length u + length v + 9)"
    using parse_from_target [of r1 buf "m @ [SP]" u v x n] buf u v n by (simp add: r1_def new_http_request_def ac_simps)
  also have "r1\<lparr>url := u @ drop (length u) (url r1), req_proto := Some HTTP, rhs := REQUEST_HEAD\<rparr> = parsed m u REQUEST_HEAD Map.empty"
    by (simp add: parsed_def new_http_request_def r1_def)
  finally show ?thesis .
qed

lemma parse_to_body:
  assumes ok: "request_ok m u v hs" and hs: "hs \<noteq> []" and buf: "buf = request m u v hs body @ rest"
    and n: "n = length (request m u v hs body)"
  shows "\<exists>b. parse_loop buf n new_http_request 0 0 =
    parse_loop buf n (parsed m u (if body = [] then READ_HTTP_FINISH else CONTENT) Map.empty) (n - length body - 2) b"
proof -
  let ?a = "m @ SP # u @ SP # str_HTTP @ SLASH # v @ [CR, LF]"
  have len: "length ?a = length m + length u + length v + 9" by (simp add: str_HTTP_def)
  have "parse_loop buf n new_http_request 0 0 = parse_loop buf n (parsed m u REQUEST_HEAD Map.empty) (length ?a) (length ?a)"
    unfolding len
    by (rule parse_request_line [OF ok]) (auto simp: buf request_def n str_HTTP_def)
  moreover have "\<exists>b'. parse_loop buf n (parsed m u REQUEST_HEAD Map.empty) (length ?a) (length ?a) =
      parse_loop buf n ((parsed m u REQUEST_HEAD Map.empty)\<lparr>rhs := if length body = 0 then READ_HTTP_FINISH else CONTENT\<rparr>)
        (length ?a + length (head_lines hs)) b'"
    by (rule seg_headers [where x = "body @ rest"])
      (use ok hs in \<open>auto simp: buf request_def n parsed_def request_ok_def\<close>)
  moreover have "(parsed m u REQUEST_HEAD Map.empty)\<lparr>rhs := st\<rparr> = parsed m u st Map.empty" for st
    by (simp add: parsed_def)
  moreover have "n - length body - 2 = length ?a + length (head_lines hs)" by (simp add: n request_def)
  ultimately show ?thesis by auto
qed

lemma parse_content:
  assumes "rhs r = CONTENT" and "i < n" and "i < length buf" and "buf ! i \<noteq> LF"
  shows "parse_loop buf n r i b = res_bind (get_params r buf (i + 1) (n - i - 1)) (\<lambda>r. Inr (r\<lparr>rhs := READ_HTTP_FINISH\<rparr>))"
  using assms
  by (subst parse_loop.simps) (cases "get_params r buf (i + 1) (n - i - 1)"; auto simp: parse_step_def parse_finished)

section \<open>Properties\<close>

lemma parse_plain_request:
  assumes "request_ok m u v hs" and "hs \<noteq> []"
  shows "read_http_status_machine new_http_request (request m u v hs [] @ rest) (length (request m u v hs [])) =
    Inr (parsed m u READ_HTTP_FINISH Map.empty, READ_HTTP_FINISH)"
proof -
  let ?n = "length (request m u v hs [])"
  obtain b where "parse_loop (request m u v hs [] @ rest) ?n new_http_request 0 0 =
      parse_loop (request m u v hs [] @ rest) ?n (parsed m u READ_HTTP_FINISH Map.empty) (?n - 2) b"
    using parse_to_body [OF assms refl refl, where body = "[]"] by auto
  also have "\<dots> = Inr (parsed m u READ_HTTP_FINISH Map.empty)"
    by (rule parse_finished) (simp_all add: parsed_def)
  finally show ?thesis by (simp add: read_http_status_machine_def parsed_def)
qed

text \<open>
  C23: every request with a known method, a target of at most 64 bytes, at least one header line and no
  body, received in one piece, is read to its end: the machine finishes with method, protocol and
  target of the request, and without any access outside the buffers.
\<close>

theorem http_request_recognised:
  assumes "request_ok m u v hs" and "hs \<noteq> []"
  shows "read_http_status_machine new_http_request (request m u v hs [] @ rest) (length (request m u v hs [])) =
    Inr (parsed m u READ_HTTP_FINISH Map.empty, READ_HTTP_FINISH)"
  using parse_plain_request [OF assms] .

definition ex_line :: "byte list" where "ex_line = [0x41, 0x3A, 0x62]"

theorem http_request_recognised_witness:
  "read_http_status_machine new_http_request (request str_GET [SLASH] [0x31] [ex_line] [] @ [0])
     (length (request str_GET [SLASH] [0x31] [ex_line] [])) =
   Inr (parsed str_GET [SLASH] READ_HTTP_FINISH Map.empty, READ_HTTP_FINISH)"
  using http_request_recognised [of str_GET "[SLASH]" "[0x31]" "[ex_line]" "[0]"]
  by (simp add: request_ok_def line_ok_def ex_line_def)

lemma parse_body:
  assumes ok: "request_ok m u v hs" and hs: "hs \<noteq> []" and body: "body \<noteq> []" "0 \<notin> set body"
    and buf: "buf = request m u v hs body @ 0 # rest" and n: "n = length (request m u v hs body)"
  shows "read_http_status_machine new_http_request buf n =
    (if 127 < length body then Inl Out_of_bounds
     else res_bind (add_params Map.empty (fields [] (LF # body))) (\<lambda>M.
       Inr (parsed m u READ_HTTP_FINISH M, READ_HTTP_FINISH)))"
proof -
  let ?i = "n - length body - 2"
  obtain b where loop: "parse_loop buf n new_http_request 0 0 =
      parse_loop buf n (parsed m u CONTENT Map.empty) ?i b"
    using parse_to_body [OF ok hs buf n] body(1) by auto
  obtain p where p: "request m u v hs body = p @ CR # LF # body" by (simp add: request_def)
  have n': "n = length p + length body + 2" "?i = length p" and buf': "buf = p @ CR # LF # body @ 0 # rest"
    using p by (simp_all add: n buf)
  have "buf ! ?i = CR" "?i < length buf" "?i < n"
    and off: "drop (?i + 1) buf = LF # body @ 0 # rest" "n - ?i - 1 = Suc (length body)"
    unfolding n'(2) by (simp_all add: buf' nth_append n'(1))
  then have "parse_loop buf n new_http_request 0 0 =
      res_bind (get_params (parsed m u CONTENT Map.empty) buf (?i + 1) (Suc (length body)))
        (\<lambda>r. Inr (r\<lparr>rhs := READ_HTTP_FINISH\<rparr>))"
    using parse_content [of "parsed m u CONTENT Map.empty" ?i n buf b] loop by (simp add: parsed_def)
  moreover have "c_memcpy (replicate 128 0) 0 buf (?i + 1) (Suc (length body)) =
      mem_write (replicate 128 0) 0 (LF # body)"
    unfolding n'(2) by (simp add: c_memcpy_def buf')
  moreover have "c_str (drop (?i + 1) buf) = LF # body" "0 \<in> set (drop (?i + 1) buf)"
    using c_str_no_nul [of "LF # body" rest] body(2) unfolding off(1) by simp_all
  ultimately show ?thesis
    by (cases "add_params Map.empty (fields [] (LF # body))")
      (auto simp: read_http_status_machine_def get_params_def c_strlen_def mem_write_def parsed_def)
qed

lemma fields_plain: "AMP \<notin> set w \<Longrightarrow> fields acc w = [rev acc @ w]"
  by (induction w arbitrary: acc) auto

lemma parse_one_param:
  assumes "request_ok m u v hs" and "hs \<noteq> []" and "0 \<notin> set (k @ w)" and "AMP \<notin> set (k @ w)" and "EQUALS \<notin> set k"
    and "length k + length w \<le> 126"
  shows "read_http_status_machine new_http_request (request m u v hs (k @ EQUALS # w) @ 0 # rest)
      (length (request m u v hs (k @ EQUALS # w))) =
    Inr (parsed m u READ_HTTP_FINISH [LF # k \<mapsto> w], READ_HTTP_FINISH)"
proof -
  let ?b = "k @ EQUALS # w"
  have "fields [] (LF # ?b) = [LF # ?b]" using assms(4) by (simp add: fields_plain)
  moreover have "add_param Map.empty (LF # ?b) = Inr [LF # k \<mapsto> w]"
  proof -
    have "\<And>c. c \<in> set k \<Longrightarrow> c \<noteq> EQUALS" using assms(5) by auto
    then show ?thesis by (simp add: add_param_def Let_def takeWhile_append2 dropWhile_append2)
  qed
  ultimately have "add_params Map.empty (fields [] (LF # ?b)) = Inr [LF # k \<mapsto> w]" by simp
  then show ?thesis
    using parse_body [OF assms(1,2) _ _ refl refl, of ?b rest] assms(3,6)
    by simp
qed

text \<open>
  In a request with a body of one parameter of at most 127 bytes, the parameter is stored under a
  key that starts with the line feed of the blank line, because the body is read from one byte too
  early; a lookup of the key as it was sent finds nothing.
\<close>

theorem http_body_key_has_newline:
  assumes "request_ok m u v hs" and "hs \<noteq> []" and "0 \<notin> set (k @ w)" and "AMP \<notin> set (k @ w)" and "EQUALS \<notin> set k"
    and "LF \<notin> set k" and "length k + length w \<le> 126"
  shows "\<exists>r. read_http_status_machine new_http_request (request m u v hs (k @ EQUALS # w) @ 0 # rest)
      (length (request m u v hs (k @ EQUALS # w))) = Inr (r, READ_HTTP_FINISH) \<and>
    get_map_contents r = [LF # k \<mapsto> w] \<and> get_map_contents r k = None"
  using parse_one_param [OF assms(1-5,7), of rest] assms(6) by (auto simp: parsed_def get_map_contents_def)

theorem http_body_key_has_newline_witness:
  "\<exists>r. read_http_status_machine new_http_request (request str_POST [SLASH] [0x31] [ex_line] [0x61, EQUALS, 0x62] @ [0])
      (length (request str_POST [SLASH] [0x31] [ex_line] [0x61, EQUALS, 0x62])) = Inr (r, READ_HTTP_FINISH) \<and>
    get_map_contents r [0x61] = None \<and> get_map_contents r [LF, 0x61] = Some [0x62]"
  using http_body_key_has_newline [of str_POST "[SLASH]" "[0x31]" "[ex_line]" "[0x61]" "[0x62]" "[]"]
  by (auto simp: request_ok_def line_ok_def ex_line_def)

text \<open>
  a body of more than 127 bytes is copied past the end of the 128 bytes of \<^verbatim>\<open>t_content\<close>, and a body
  with a field without an equals sign makes \<^verbatim>\<open>get_params\<close> write through a null pointer.
\<close>

theorem http_body_faults:
  assumes "request_ok m u v hs" and "hs \<noteq> []" and "body \<noteq> []" and "0 \<notin> set body"
    and "127 < length body \<or> AMP \<notin> set body \<and> EQUALS \<notin> set body"
  shows "read_http_status_machine new_http_request (request m u v hs body @ 0 # rest) (length (request m u v hs body)) =
    Inl (if 127 < length body then Out_of_bounds else Null_deref)"
proof (cases "127 < length body")
  case False
  then have "fields [] (LF # body) = [LF # body]" using assms(5) by (simp add: fields_plain)
  then show ?thesis
    using parse_body [OF assms(1-4) refl refl, of rest] False assms(5) by (simp add: add_param_def)
qed (use parse_body [OF assms(1-4) refl refl, of rest] in simp)

theorem http_body_faults_witness:
  "read_http_status_machine new_http_request (request str_POST [SLASH] [0x31] [ex_line] [0x61] @ [0])
     (length (request str_POST [SLASH] [0x31] [ex_line] [0x61])) = Inl Null_deref"
  using http_body_faults [of str_POST "[SLASH]" "[0x31]" "[ex_line]" "[0x61]" "[]"]
  by (simp add: request_ok_def line_ok_def ex_line_def)

text \<open>
  A target of more than 64 bytes is copied past the end of \<^verbatim>\<open>url\<close>, whatever follows it in the
  request.
\<close>

theorem http_url_overflow:
  assumes "m = str_GET \<or> m = str_POST" and "SP \<notin> set u" and "64 < length u" and "length m + length u + 2 \<le> n"
  shows "read_http_status_machine new_http_request (m @ SP # u @ SP # x) n = Inl Out_of_bounds"
proof -
  let ?buf = "m @ SP # u @ SP # x" and ?a = "m @ [SP]"
  define r where "r = new_http_request\<lparr>req_method := Some (if m = str_GET then GET else POST), rhs := URL\<rparr>"
  have r: "rhs r = URL" "length (url r) = 64" by (simp_all add: r_def new_http_request_def)
  have "parse_loop ?buf n new_http_request 0 0 = parse_loop ?buf n r (length ?a) (length ?a)"
    using seg_method [OF _ refl assms(1), of new_http_request n "u @ SP # x"] assms(4)
    by (simp add: new_http_request_def r_def)
  also have "\<dots> = parse_loop ?buf n r (length ?a + length u) (length ?a)"
    using skip_to [of r SP ?buf ?a u "SP # x" n] r(1) assms(2,4) by simp
  also have "\<dots> = Inl Out_of_bounds"
  proof -
    have "?buf ! (length ?a + length u) = SP" using nth_after [of ?a u SP x] by simp
    then have "parse_step ?buf n r (length ?a + length u) (length ?a) = Inl Out_of_bounds"
      using r assms(3) by (simp add: parse_step_def c_memcpy_def mem_write_def)
    then show ?thesis using assms(4) by (subst parse_loop.simps) simp
  qed
  finally show ?thesis by (simp add: read_http_status_machine_def)
qed

theorem http_url_overflow_witness:
  "read_http_status_machine new_http_request (str_GET @ SP # replicate 65 SLASH @ SP # []) 70 = Inl Out_of_bounds"
  using http_url_overflow [of str_GET "replicate 65 SLASH" 70 "[]"] by (simp add: str_GET_def)

text \<open>
  A complete request without header lines, held in a terminated buffer, is never recognised as
  complete: the machine stays in the state that reads header lines.
\<close>

theorem http_no_headers_incomplete:
  assumes "request_ok m u v []"
  shows "read_http_status_machine new_http_request (request m u v [] [] @ 0 # 0 # rest) (length (request m u v [] [])) =
    Inr (parsed m u REQUEST_HEAD Map.empty, REQUEST_HEAD)"
proof -
  let ?a = "m @ SP # u @ SP # str_HTTP @ SLASH # v @ [CR, LF]"
  let ?buf = "?a @ CR # LF # 0 # 0 # rest" and ?n = "length ?a + 2"
  have len: "length ?a = length m + length u + length v + 9" by (simp add: str_HTTP_def)
  have "parse_loop ?buf ?n new_http_request 0 0 = parse_loop ?buf ?n (parsed m u REQUEST_HEAD Map.empty) (length ?a) (length ?a)"
    unfolding len by (rule parse_request_line [OF assms]) (simp_all add: str_HTTP_def)
  also have "\<dots> = parse_loop ?buf ?n (parsed m u REQUEST_HEAD Map.empty) (length ?a + 2) (length ?a + 2)"
    using seg_header [of "parsed m u REQUEST_HEAD Map.empty" ?buf ?a "[]" 0 0 rest ?n "length ?a"]
    by (simp add: parsed_def)
  also have "\<dots> = Inr (parsed m u REQUEST_HEAD Map.empty)"
    by (subst parse_loop.simps) simp
  finally show ?thesis by (simp add: read_http_status_machine_def request_def parsed_def)
qed

theorem http_no_headers_incomplete_witness:
  "read_http_status_machine new_http_request (request str_GET [SLASH] [0x31] [] [] @ [0, 0])
     (length (request str_GET [SLASH] [0x31] [] [])) = Inr (parsed str_GET [SLASH] REQUEST_HEAD Map.empty, REQUEST_HEAD)"
  using http_no_headers_incomplete [of str_GET "[SLASH]" "[0x31]" "[]"] by (simp add: request_ok_def)

lemma parse_step_no_error:
  "parse_step buf n r i b = Inr (r', i', b') \<Longrightarrow> rhs r \<noteq> READ_HTTP_ERROR \<Longrightarrow> rhs r' \<noteq> READ_HTTP_ERROR"
  by (auto simp: parse_step_def res_bind_Inr_iff Let_def split: read_http_status.splits if_splits)

text \<open>What every step keeps, the loop keeps.\<close>

lemma parse_loop_keeps:
  assumes keeps: "\<And>r i b r' i' b'. parse_step buf n r i b = Inr (r', i', b') \<Longrightarrow> P r \<Longrightarrow> P r'"
  shows "parse_loop buf n r i b = Inr r' \<Longrightarrow> P r \<Longrightarrow> P r'"
  using keeps
proof (induction buf n r i b arbitrary: r' rule: parse_loop.induct)
  case (1 buf n r i b)
  show ?case
  proof (cases "i < n")
    case True
    then obtain r1 i1 b1 where s: "parse_step buf n r i b = Inr (r1, i1, b1)"
        "parse_loop buf n r1 (i1 + 1) b1 = Inr r'"
      using "1.prems"(1) by (subst (asm) parse_loop.simps) (auto simp: res_bind_Inr_iff)
    have "P r1" using "1.prems"(3) [OF s(1) "1.prems"(2)] .
    then show ?thesis by (rule "1.IH" [OF True s(1) refl refl s(2)]) (rule "1.prems"(3))
  next
    case False
    then show ?thesis using "1.prems"(1,2) by (subst (asm) parse_loop.simps) simp
  qed
qed

lemma parse_loop_no_error:
  "parse_loop buf n r i b = Inr r' \<Longrightarrow> rhs r \<noteq> READ_HTTP_ERROR \<Longrightarrow> rhs r' \<noteq> READ_HTTP_ERROR"
  by (rule parse_loop_keeps [where P = "\<lambda>r. rhs r \<noteq> READ_HTTP_ERROR"]) (rule parse_step_no_error)

text \<open>
  The machine never reports an error: from every state but \<^verbatim>\<open>READ_HTTP_ERROR\<close> itself it ends in another
  state, because the error of an unknown method is overwritten at once.
\<close>

theorem http_never_error:
  assumes "read_http_status_machine r buf n = Inr (r', st)" and "rhs r \<noteq> READ_HTTP_ERROR"
  shows "st \<noteq> READ_HTTP_ERROR \<and> rhs r' = st"
  using assms parse_loop_no_error by (auto simp: read_http_status_machine_def res_bind_Inr_iff)

theorem http_never_error_witness:
  "\<exists>r st. read_http_status_machine new_http_request [0x58, SP, SLASH, 0] 3 = Inr (r, st) \<and> st \<noteq> READ_HTTP_ERROR"
proof -
  have "\<exists>r. read_http_status_machine new_http_request [0x58, SP, SLASH, 0] 3 = Inr (r, URL)"
    by (simp add: read_http_status_machine_def parse_loop.simps parse_step_def new_http_request_def read_method_def
        str_GET_def str_POST_def)
  then obtain r where r: "read_http_status_machine new_http_request [0x58, SP, SLASH, 0] 3 = Inr (r, URL)" by blast
  have "rhs new_http_request \<noteq> READ_HTTP_ERROR" by (simp add: new_http_request_def)
  then show ?thesis using http_never_error [OF r] r by blast
qed

section \<open>The order of the states\<close>

text \<open>The enumeration's values are compared as the integers they are in C++.\<close>

fun status_rank :: "read_http_status \<Rightarrow> nat" where
  "status_rank READ_HTTP_START = 0"
| "status_rank METHORD = 1"
| "status_rank URL = 2"
| "status_rank PROTO = 3"
| "status_rank VERSION = 4"
| "status_rank REQUEST_HEAD = 5"
| "status_rank CONTENT = 6"
| "status_rank READ_HTTP_FINISH = 7"
| "status_rank READ_HTTP_ERROR = 8"

lemma status_rank_inject: "status_rank s = status_rank t \<Longrightarrow> s = t"
  by (cases s; cases t) simp_all

instantiation read_http_status :: linorder
begin

definition less_eq_read_http_status :: "read_http_status \<Rightarrow> read_http_status \<Rightarrow> bool" where
  "less_eq_read_http_status s t = (status_rank s \<le> status_rank t)"

definition less_read_http_status :: "read_http_status \<Rightarrow> read_http_status \<Rightarrow> bool" where
  "less_read_http_status s t = (status_rank s < status_rank t)"

instance
  by standard
    (auto simp: less_eq_read_http_status_def less_read_http_status_def intro: status_rank_inject)

end

lemmas status_order = less_eq_read_http_status_def less_read_http_status_def

text \<open>
  What the fields of a request hold in each state: a field is assigned only by the state that reads
  it, the target keeps its 64 bytes, and parameters exist only in a request that is finished.
\<close>

definition http_ok :: "http_request \<Rightarrow> bool" where
  "http_ok r \<longleftrightarrow> rhs r \<le> READ_HTTP_FINISH \<and> length (url r) = 64 \<and>
     (req_method r \<noteq> None \<longrightarrow> URL \<le> rhs r) \<and> (url r \<noteq> replicate 64 0 \<longrightarrow> PROTO \<le> rhs r) \<and>
     (req_proto r \<noteq> None \<longrightarrow> VERSION \<le> rhs r) \<and> (content r \<noteq> Map.empty \<longrightarrow> rhs r = READ_HTTP_FINISH)"

lemma new_http_request_ok: "http_ok new_http_request"
  by (simp add: http_ok_def new_http_request_def status_order)

lemma get_params_frame:
  "get_params r buf off len = Inr r' \<Longrightarrow> \<exists>m. r' = r\<lparr>content := m\<rparr>"
  by (auto simp: get_params_def res_bind_Inr_iff)

lemma read_method_frame: "read_method buf b r = Inr r' \<Longrightarrow> \<exists>m s. r' = r\<lparr>req_method := m, rhs := s\<rparr>"
  by (rule exI [of _ "req_method r'"], rule exI [of _ "rhs r'"])
    (auto simp: read_method_def res_bind_Inr_iff split: if_splits)

lemma read_proto_frame: "read_proto buf b i r = Inr r' \<Longrightarrow> \<exists>p. r' = r\<lparr>req_proto := p\<rparr>"
  by (auto simp: read_proto_def res_bind_Inr_iff intro: exI [of _ "req_proto r"] split: if_splits)

lemma c_memcpy_length: "c_memcpy d i s j n = Inr d' \<Longrightarrow> length d' = length d"
  by (auto simp: c_memcpy_def mem_write_def split: if_splits)

lemmas step_ok = parse_step_def http_ok_def status_order res_bind_Inr_iff Let_def

lemma parse_step_ok:
  assumes step: "parse_step buf n r i b = Inr (r', i', b')" and ok: "http_ok r"
  shows "http_ok r' \<and> rhs r \<le> rhs r'"
proof (cases "rhs r")
  case READ_HTTP_START
  then show ?thesis using step ok
    by (auto simp: step_ok dest!: read_method_frame split: if_splits)
next
  case METHORD
  then show ?thesis using step ok
    by (auto simp: step_ok dest!: read_method_frame split: if_splits)
next
  case URL
  then show ?thesis using step ok
    by (auto simp: step_ok dest!: c_memcpy_length split: if_splits)
next
  case PROTO
  then show ?thesis using step ok
    by (auto simp: step_ok dest!: read_proto_frame split: if_splits)
next
  case VERSION
  then show ?thesis using step ok
    by (auto simp: step_ok split: if_splits)
next
  case REQUEST_HEAD
  then show ?thesis using step ok
    by (auto simp: step_ok split: if_splits)
next
  case CONTENT
  then show ?thesis using step ok
    by (auto simp: step_ok dest!: get_params_frame split: if_splits)
next
  case READ_HTTP_FINISH
  then show ?thesis using step ok by (simp add: parse_step_def)
next
  case READ_HTTP_ERROR
  then show ?thesis using ok by (simp add: http_ok_def status_order)
qed

lemma parse_loop_ok:
  assumes "parse_loop buf n r i b = Inr r'" and "http_ok r"
  shows "http_ok r' \<and> rhs r \<le> rhs r'"
proof (rule parse_loop_keeps [where P = "\<lambda>r'. http_ok r' \<and> rhs r \<le> rhs r'", OF _ assms(1)])
  show "http_ok r2 \<and> rhs r \<le> rhs r2"
    if "parse_step buf n r1 j c = Inr (r2, j', c')" and "http_ok r1 \<and> rhs r \<le> rhs r1" for r1 j c r2 j' c'
    using parse_step_ok [OF that(1)] that(2) by auto
qed (use assms(2) in simp)

text \<open>The reads of a connection: every piece that arrives is given to the machine of the same request.\<close>

fun read_pieces :: "http_request \<Rightarrow> (byte list \<times> nat) list \<Rightarrow> http_request result" where
  "read_pieces r [] = Inr r"
| "read_pieces r ((buf, n) # ps) = res_bind (read_http_status_machine r buf n) (\<lambda>(r, _). read_pieces r ps)"

lemma read_pieces_ok:
  "read_pieces r ps = Inr r' \<Longrightarrow> http_ok r \<Longrightarrow> http_ok r' \<and> rhs r \<le> rhs r'"
proof (induction r ps rule: read_pieces.induct)
  case (2 r buf n ps)
  then obtain r1 st where s: "read_http_status_machine r buf n = Inr (r1, st)" "read_pieces r1 ps = Inr r'"
    by (auto simp: res_bind_Inr_iff)
  then have "http_ok r1 \<and> rhs r \<le> rhs r1"
    using parse_loop_ok "2.prems"(2) by (auto simp: read_http_status_machine_def res_bind_Inr_iff)
  then show ?case using "2.IH" [OF s(1) refl s(2)] by auto
qed simp

text \<open>
  C25: in whatever pieces a request arrives, the state of its reader only moves forward, never to
  \<^verbatim>\<open>READ_HTTP_ERROR\<close>, and the fields stay typed by it: before the target is read there is no protocol, before
  the end no parameter, and the target keeps its 64 bytes.
\<close>

theorem http_status_forward:
  assumes "read_pieces new_http_request ps = Inr r" and "read_pieces r qs = Inr r'"
  shows "rhs r \<le> rhs r' \<and> rhs r' \<le> READ_HTTP_FINISH \<and> length (url r') = 64 \<and>
    (rhs r' \<le> PROTO \<longrightarrow> req_proto r' = None) \<and> (rhs r' < READ_HTTP_FINISH \<longrightarrow> content r' = Map.empty)"
proof -
  have "http_ok r" using read_pieces_ok [OF assms(1)] new_http_request_ok by simp
  then have "http_ok r' \<and> rhs r \<le> rhs r'" using read_pieces_ok [OF assms(2)] by simp
  then show ?thesis by (auto simp: http_ok_def status_order)
qed

lemma read_method_split:
  "read_pieces new_http_request [(str_GET @ [SP], 4)] =
     Inr (new_http_request\<lparr>req_method := Some GET, rhs := URL\<rparr>)"
  by (simp add: read_http_status_machine_def parse_loop.simps parse_step_def new_http_request_def
      read_method_def str_GET_def)

lemma read_target_split:
  "\<exists>r. read_pieces (new_http_request\<lparr>req_method := Some GET, rhs := URL\<rparr>) [([SLASH, SP], 2)] = Inr r \<and> rhs r = PROTO"
  by (simp add: read_http_status_machine_def parse_loop.simps parse_step_def new_http_request_def
      c_memcpy_def mem_write_def)

theorem http_status_forward_witness:
  "\<exists>r. read_pieces (new_http_request\<lparr>req_method := Some GET, rhs := URL\<rparr>) [([SLASH, SP], 2)] = Inr r \<and>
     URL \<le> rhs r \<and> req_proto r = None \<and> content r = Map.empty"
proof -
  obtain r where r: "read_pieces (new_http_request\<lparr>req_method := Some GET, rhs := URL\<rparr>) [([SLASH, SP], 2)] = Inr r"
      "rhs r = PROTO"
    using read_target_split by blast
  show ?thesis
    using http_status_forward [OF read_method_split r(1)] r by (auto simp: status_order)
qed

section \<open>Requests in pieces\<close>

lemma parse_cut_target:
  assumes "m = str_GET \<or> m = str_POST" and "SP \<notin> set u"
  shows "read_http_status_machine new_http_request (m @ SP # u @ x) (length m + 1 + length u) =
    Inr (new_http_request\<lparr>req_method := Some (if m = str_GET then GET else POST), rhs := URL\<rparr>, URL)"
proof -
  let ?buf = "m @ SP # u @ x" and ?n = "length m + 1 + length u"
  let ?r = "new_http_request\<lparr>req_method := Some (if m = str_GET then GET else POST), rhs := URL\<rparr>"
  have "parse_loop ?buf ?n new_http_request 0 0 = parse_loop ?buf ?n ?r (length m + 1) (length m + 1)"
    using seg_method [OF _ refl assms(1), of new_http_request ?n "u @ x"] by (simp add: new_http_request_def)
  also have "\<dots> = parse_loop ?buf ?n ?r ?n (length m + 1)"
    using skip_to [of ?r SP ?buf "m @ [SP]" u x ?n "length m + 1"] assms(2) by simp
  also have "\<dots> = Inr ?r" by (subst parse_loop.simps) simp
  finally show ?thesis by (simp add: read_http_status_machine_def)
qed

text \<open>
  C24: a request that arrives in two pieces, cut in its target. The reader finishes, without an access outside its arrays, but
  what it takes for the target is the second part alone: the first part, of any length, is
  forgotten. Only a cut right before the target is harmless.
\<close>

theorem http_cut_target:
  assumes "request_ok m u2 v hs" and "hs \<noteq> []" and "SP \<notin> set u1"
    and "p2 = u2 @ SP # str_HTTP @ SLASH # v @ [CR, LF] @ head_lines hs @ [CR, LF]"
  shows "read_pieces new_http_request [(m @ SP # u1 @ x1, length m + 1 + length u1), (p2 @ x2, length p2)] =
    Inr (parsed m u2 READ_HTTP_FINISH Map.empty)"
proof -
  have m: "m = str_GET \<or> m = str_POST" and u: "SP \<notin> set u2" "length u2 \<le> 64" and v: "CR \<notin> set v" and hs: "list_all line_ok hs"
    using assms(1) by (auto simp: request_ok_def)
  define r where "r = new_http_request\<lparr>req_method := Some (if m = str_GET then GET else POST), rhs := URL\<rparr>"
  let ?a = "u2 @ SP # str_HTTP @ SLASH # v @ [CR, LF]" and ?n = "length p2" and ?buf = "p2 @ x2"
  let ?r = "r\<lparr>url := u2 @ drop (length u2) (url r), req_proto := Some HTTP, rhs := REQUEST_HEAD\<rparr>"
  have len: "length ?a = length u2 + length v + 8" by (simp add: str_HTTP_def)
  have "parse_loop ?buf ?n r 0 0 = parse_loop ?buf ?n ?r (length ?a) (length ?a)"
    unfolding len using parse_from_target [of r ?buf "[]" u2 v "head_lines hs @ [CR, LF] @ x2" ?n] u v
    by (simp add: r_def new_http_request_def assms(4) str_HTTP_def)
  also obtain b where "\<dots> = parse_loop ?buf ?n (?r\<lparr>rhs := READ_HTTP_FINISH\<rparr>) (length ?a + length (head_lines hs)) b"
    using seg_headers [of ?r ?buf ?a hs x2 ?n 0 "length ?a"] hs assms(2) by (auto simp: assms(4))
  also have "\<dots> = Inr (?r\<lparr>rhs := READ_HTTP_FINISH\<rparr>)" by (rule parse_finished) (simp_all add: assms(4))
  also have "?r\<lparr>rhs := READ_HTTP_FINISH\<rparr> = parsed m u2 READ_HTTP_FINISH Map.empty"
    by (simp add: r_def parsed_def new_http_request_def)
  finally have "read_http_status_machine r ?buf ?n = Inr (parsed m u2 READ_HTTP_FINISH Map.empty, READ_HTTP_FINISH)"
    by (simp add: read_http_status_machine_def parsed_def)
  then show ?thesis using parse_cut_target [OF m assms(3), of x1] by (simp add: r_def)
qed

definition ex_rest :: "byte list" where
  "ex_rest = [0x62] @ SP # str_HTTP @ SLASH # [0x31] @ [CR, LF] @ head_lines [ex_line] @ [CR, LF]"

theorem http_cut_target_witness:
  "read_pieces new_http_request [(str_GET @ SP # [SLASH, 0x61] @ [0], length str_GET + 1 + length [SLASH, 0x61 :: byte]), (ex_rest @ [0], length ex_rest)] =
   Inr (parsed str_GET [0x62] READ_HTTP_FINISH Map.empty)"
  by (rule http_cut_target [of str_GET "[0x62]" "[0x31]" "[ex_line]" "[SLASH, 0x61]" ex_rest])
    (simp_all add: request_ok_def line_ok_def ex_line_def ex_rest_def)

end
