(* ===== verification/Acceptor.thy ===== *)
theory Acceptor
  imports Http_Request Buffer
begin

text \<open>
  \<^verbatim>\<open>connect.cpp\<close> and \<^verbatim>\<open>acceptor.cpp\<close>: a connection and the two jobs that serve it. \<^verbatim>\<open>read_conn\<close> reads
  chunks, parses them and re-arms the one-shot event; \<^verbatim>\<open>write_conn\<close> answers with a file. System calls
  are parameters; their effect on the connection is what the lemmas are about.
\<close>

section \<open>Connections\<close>

datatype ep_event = EP_IN | EP_OUT

record connection =
  conn_req :: http_request
  conn_buf :: buffer
  username :: "byte list"
  password :: "byte list"

definition new_connection :: connection where
  "new_connection = \<lparr>conn_req = new_http_request, conn_buf = new_buffer, username = [], password = []\<rparr>"

definition str_username :: "byte list" where
  "str_username = [0x75, 0x73, 0x65, 0x72, 0x6E, 0x61, 0x6D, 0x65]"

definition str_password :: "byte list" where
  "str_password = [0x70, 0x61, 0x73, 0x73, 0x77, 0x6F, 0x72, 0x64]"

text \<open>\<^verbatim>\<open>content[k]\<close> on a copy of the map: the empty string for an unknown key.\<close>

definition lookup_str :: "(byte list \<rightharpoonup> byte list) \<Rightarrow> byte list \<Rightarrow> byte list" where
  "lookup_str m k = (case m k of None \<Rightarrow> [] | Some v \<Rightarrow> v)"

definition set_user_info_to_handle :: "connection \<Rightarrow> connection" where
  "set_user_info_to_handle c =
     (let content = get_map_contents (conn_req c)
      in c\<lparr>username := lookup_str content str_username, password := lookup_str content str_password\<rparr>)"

section \<open>Reading\<close>

text \<open>The body of the loop of \<^verbatim>\<open>read_conn\<close>, for \<open>nread\<close> bytes in \<open>buf\<close>, and the event it re-arms.\<close>

definition read_chunk :: "connection \<Rightarrow> byte list \<Rightarrow> nat \<Rightarrow> (connection \<times> ep_event) result" where
  "read_chunk c buf nread =
     res_bind (push_back (conn_buf c) buf nread) (\<lambda>b.
     res_bind (read_http_status_machine (conn_req c) buf nread) (\<lambda>(r, _).
     let c = c\<lparr>conn_buf := b, conn_req := r\<rparr> in
     if rhs (conn_req c) = READ_HTTP_FINISH then Inr (set_user_info_to_handle c, EP_OUT)
     else Inr (c, EP_IN)))"

fun read_conn_loop :: "connection \<Rightarrow> byte list \<Rightarrow> byte list list \<Rightarrow> (connection \<times> ep_event list) result" where
  "read_conn_loop c buf [] = Inr (c, [])"
| "read_conn_loop c buf (chunk # chunks) =
     res_bind (mem_write buf 0 chunk) (\<lambda>buf.
     res_bind (read_chunk c buf (length chunk)) (\<lambda>(c, e).
     res_bind (read_conn_loop c buf chunks) (\<lambda>(c, es).
     Inr (c, e # es))))"

text \<open>\<open>chunks\<close> is what the successive calls of \<^verbatim>\<open>read\<close> deliver until one returns 0 (\<open>closed\<close>) or -1.\<close>

definition read_conn :: "connection \<Rightarrow> byte list list \<Rightarrow> bool \<Rightarrow> (connection option \<times> ep_event list) result" where
  "read_conn c chunks closed =
     res_bind (read_conn_loop c (replicate BUFSIZE 0) chunks) (\<lambda>(c, es).
     Inr (if closed then None else Some c, es))"

text \<open>
  Several events on one connection: successive calls of \<^verbatim>\<open>read_conn\<close>, each with the chunks it finds, while
  the client keeps the connection open. The events are those armed by each call.
\<close>

fun read_calls :: "connection \<Rightarrow> byte list list list \<Rightarrow> (connection option \<times> ep_event list list) result" where
  "read_calls c [] = Inr (Some c, [])"
| "read_calls c (chunks # calls) =
     res_bind (read_conn c chunks False) (\<lambda>(oc, es).
     case oc of
       None \<Rightarrow> Inr (None, [es])
     | Some c \<Rightarrow> res_bind (read_calls c calls) (\<lambda>(t, ess). Inr (t, es # ess)))"

section \<open>Writing\<close>

definition doc_root :: "byte list" where
  "doc_root = [0x2F, 0x76, 0x61, 0x72, 0x2F, 0x77, 0x77, 0x77, 0x2F, 0x68, 0x74, 0x6D, 0x6C]"

definition index_page :: "byte list" where
  "index_page = [0x2F, 0x69, 0x6E, 0x64, 0x65, 0x78, 0x2E, 0x68, 0x74, 0x6D, 0x6C]"

text \<open>\<^verbatim>\<open>char filename[64]; sprintf(filename, "/var/www/html%s", (len == 1) ? "/index.html" : url)\<close>\<close>

definition file_name :: "http_request \<Rightarrow> byte list result" where
  "file_name r =
     res_bind (c_strlen (getUrl r)) (\<lambda>len.
     res_bind (mem_write (replicate 64 0) 0
       (doc_root @ (if len = 1 then index_page else c_str (getUrl r)) @ [0])) (\<lambda>filename.
     Inr (c_str filename)))"

text \<open>
  \<^verbatim>\<open>writeBody\<close>: blocks of up to 1023 bytes are read into the same array, which is cleared once, and
  appended as C strings. \<open>file\<close> is what \<^verbatim>\<open>fopen\<close> finds, \<open>None\<close> when it fails.
\<close>

function body_blocks :: "byte list \<Rightarrow> byte list \<Rightarrow> byte list \<Rightarrow> byte list result" where
  "body_blocks rest buf rsp =
     (if rest = [] then Inr rsp
      else res_bind (mem_write buf 0 (take 1023 rest)) (\<lambda>buf.
        body_blocks (drop 1023 rest) buf (rsp @ c_str buf)))"
  by auto
termination by (relation "measure (\<lambda>(rest, buf, rsp). length rest)") auto

declare body_blocks.simps [simp del]

definition writeBody :: "(byte list \<Rightarrow> byte list option) \<Rightarrow> byte list \<Rightarrow> connection \<Rightarrow> byte list result" where
  "writeBody file rsp_content c =
     res_bind (file_name (conn_req c)) (\<lambda>filename.
     case file filename of
       None \<Rightarrow> Inr rsp_content
     | Some bytes \<Rightarrow> body_blocks bytes (replicate 1024 0) rsp_content)"

text \<open>
  The loop around \<^verbatim>\<open>write\<close>: \<open>os_write\<close> holds the results of the successive calls, at most the number of
  bytes asked for, \<open>None\<close> for -1. The outer \<open>None\<close> is a loop that still waits for a result.
\<close>

fun write_loop :: "nat option list \<Rightarrow> byte list \<Rightarrow> byte list \<Rightarrow> byte list option" where
  "write_loop os_write [] sent = Some sent"
| "write_loop [] rsp sent = None"
| "write_loop (None # os_write) rsp sent = Some sent"
| "write_loop (Some nwrite # os_write) rsp sent =
     write_loop os_write (drop nwrite rsp) (sent @ take nwrite rsp)"

definition USE_SENDFILE :: bool where
  "USE_SENDFILE = True"

definition FORCE_CLOSE :: bool where
  "FORCE_CLOSE = False"

text \<open>What becomes of the connection: it is armed again, deleted, or left as it is, disarmed.\<close>

datatype after_write = Armed ep_event | Deleted | Untouched

text \<open>
  The system calls of \<^verbatim>\<open>write_conn\<close>: \<open>os_fopen\<close> gives the contents of a file, \<open>None\<close> when it cannot be opened;
  \<open>os_open\<close> gives a descriptor and \<open>os_bytes\<close> the contents behind it; \<open>os_sendfile\<close> is the number of bytes
  \<^verbatim>\<open>sendfile\<close> puts into the socket when it is asked for so many; \<open>os_write\<close> are the results of \<^verbatim>\<open>write\<close>.
\<close>

record os_calls =
  os_fopen :: "byte list \<Rightarrow> byte list option"
  os_open :: "byte list \<Rightarrow> int"
  os_bytes :: "int \<Rightarrow> byte list"
  os_sendfile :: "nat \<Rightarrow> nat"
  os_write :: "nat option list"

definition rsp_ok :: "byte list" where
  "rsp_ok = bytes_of (''HTTP/1.1 200 OK'' @ [CHR 0x0D, CHR 0x0A] @
     ''Content-Type: text/html'' @ [CHR 0x0D, CHR 0x0A] @ ''Content-Length: '')"

definition rsp_wait :: "byte list" where
  "rsp_wait = bytes_of ''I have already receive your request. please wait...''"

definition rsp_head :: "byte list \<Rightarrow> byte list" where
  "rsp_head rsp_content = rsp_ok @ to_string (length rsp_content) @ [CR, LF, CR, LF]"

definition after_answer :: after_write where
  "after_answer = (if FORCE_CLOSE then Deleted else Armed EP_IN)"

definition write_conn :: "os_calls \<Rightarrow> connection \<Rightarrow> (byte list \<times> after_write) option result" where
  "write_conn os c =
     (if \<not> USE_SENDFILE then
        res_bind (writeBody (os_fopen os) rsp_wait c) (\<lambda>rsp_content.
        Inr (case write_loop (os_write os) (rsp_head rsp_content @ rsp_content) [] of
               None \<Rightarrow> None
             | Some sent \<Rightarrow> Some (sent, after_answer)))
      else
        res_bind (file_name (conn_req c)) (\<lambda>filename.
        let fd = os_open os filename in
        if fd \<le> 0 then Inr (Some ([], Untouched))
        else let stat_size = length (os_bytes os fd)
             in Inr (Some (take (os_sendfile os stat_size) (os_bytes os fd), after_answer))))"

section \<open>Lemmas\<close>

lemma doc_lengths [simp]: "length doc_root = 13" "length index_page = 11" "0 \<notin> set doc_root" "0 \<notin> set index_page"
  by (simp_all add: doc_root_def index_page_def)

lemma read_chunk_ok:
  assumes "wf_buffer (conn_buf c)" and "nread \<le> 1023" and "nread \<le> length buf"
    and "read_http_status_machine (conn_req c) buf nread = Inr (r, READ_HTTP_FINISH)" and "rhs r = READ_HTTP_FINISH"
  shows "\<exists>b. wf_buffer b \<and>
    read_chunk c buf nread = Inr (set_user_info_to_handle (c\<lparr>conn_buf := b, conn_req := r\<rparr>), EP_OUT)"
proof -
  have "nread \<le> length (grown (conn_buf c) nread)"
    using assms(1,2) by (auto simp: grown_def wf_buffer_def BUFSIZE_def)
  then obtain b where "push_back (conn_buf c) buf nread = Inr b"
    using push_back_eq [OF assms(1,3)] by auto
  moreover from this have "wf_buffer b" using wf_push_back [OF assms(1)] by blast
  ultimately show ?thesis using assms(4,5) by (auto simp: read_chunk_def)
qed

lemma machine_finished:
  "rhs r = READ_HTTP_FINISH \<Longrightarrow> read_http_status_machine r buf n = Inr (r, READ_HTTP_FINISH)"
  by (simp add: read_http_status_machine_def parse_finished)

lemma set_user_info_fields [simp]:
  "conn_req (set_user_info_to_handle c) = conn_req c" "conn_buf (set_user_info_to_handle c) = conn_buf c"
  by (simp_all add: set_user_info_to_handle_def Let_def)

text \<open>Once a request is finished, whatever follows is ignored.\<close>

lemma read_conn_loop_finished:
  assumes "rhs (conn_req c) = READ_HTTP_FINISH" and "wf_buffer (conn_buf c)" and "length buf = 1024"
    and "\<forall>chunk \<in> set chunks. length chunk \<le> 1023"
  shows "\<exists>c'. read_conn_loop c buf chunks = Inr (c', replicate (length chunks) EP_OUT) \<and> conn_req c' = conn_req c \<and>
    wf_buffer (conn_buf c')"
  using assms
proof (induction chunks arbitrary: c buf)
  case (Cons chunk chunks)
  obtain buf' where buf': "mem_write buf 0 chunk = Inr buf'" "length buf' = 1024"
    using Cons.prems(3,4) by (simp add: mem_write_def)
  obtain b where b: "wf_buffer b" and
      r: "read_chunk c buf' (length chunk) = Inr (set_user_info_to_handle (c\<lparr>conn_buf := b, conn_req := conn_req c\<rparr>), EP_OUT)"
    using read_chunk_ok [OF Cons.prems(2), of "length chunk" buf'] machine_finished [OF Cons.prems(1)]
      Cons.prems(1,4) buf'(2) by auto
  show ?case
    using Cons.IH [of "set_user_info_to_handle (c\<lparr>conn_buf := b, conn_req := conn_req c\<rparr>)" buf'] Cons.prems b buf' r
    by auto
qed simp

lemma read_calls_finished:
  assumes "rhs (conn_req c) = READ_HTTP_FINISH" and "wf_buffer (conn_buf c)"
    and "\<forall>chunks \<in> set calls. \<forall>chunk \<in> set chunks. length chunk \<le> 1023"
  shows "\<exists>t. read_calls c calls = Inr (Some t, map (\<lambda>chunks. replicate (length chunks) EP_OUT) calls) \<and>
    conn_req t = conn_req c"
  using assms
proof (induction calls arbitrary: c)
  case (Cons chunks calls)
  obtain d where "read_conn_loop c (replicate BUFSIZE 0) chunks = Inr (d, replicate (length chunks) EP_OUT)"
      and d: "conn_req d = conn_req c" "wf_buffer (conn_buf d)"
    using read_conn_loop_finished [OF Cons.prems(1,2), of "replicate BUFSIZE 0" chunks] Cons.prems(3)
    by (auto simp: BUFSIZE_def)
  then have "read_conn c chunks False = Inr (Some d, replicate (length chunks) EP_OUT)" by (simp add: read_conn_def)
  then show ?case using Cons.IH [of d] Cons.prems d by auto
qed simp

text \<open>The answer depends on the parsed request only.\<close>

lemma write_conn_cong: "conn_req t = conn_req c \<Longrightarrow> write_conn os t = write_conn os c"
  by (simp add: write_conn_def writeBody_def)

lemma read_conn_first:
  assumes "length q \<le> 1022" and "read_http_status_machine new_http_request (q @ 0 # 0 # replicate (1022 - length q) 0) (length q) =
      Inr (r, READ_HTTP_FINISH)" and "rhs r = READ_HTTP_FINISH" and "\<forall>chunk \<in> set later. length chunk \<le> 1023"
  shows "\<exists>c. read_conn new_connection (q # later) False = Inr (Some c, replicate (Suc (length later)) EP_OUT) \<and>
    conn_req c = r \<and> wf_buffer (conn_buf c) \<and> (later = [] \<longrightarrow> username c = lookup_str (content r) str_username)"
proof -
  let ?buf = "q @ 0 # 0 # replicate (1022 - length q) 0"
  have w: "mem_write (replicate BUFSIZE 0) 0 q = Inr ?buf"
  proof -
    have "1024 - length q = Suc (Suc (1022 - length q))" using assms(1) by arith
    then show ?thesis using assms(1) by (simp add: mem_write_def BUFSIZE_def)
  qed
  obtain b where b: "wf_buffer b" "read_chunk new_connection ?buf (length q) =
      Inr (set_user_info_to_handle (new_connection\<lparr>conn_buf := b, conn_req := r\<rparr>), EP_OUT)"
    using read_chunk_ok [of new_connection "length q" ?buf r] assms(1-3) by (auto simp: new_connection_def)
  let ?c = "set_user_info_to_handle (new_connection\<lparr>conn_buf := b, conn_req := r\<rparr>)"
  obtain c where c: "read_conn_loop ?c ?buf later = Inr (c, replicate (length later) EP_OUT)" "conn_req c = r" "wf_buffer (conn_buf c)"
    using read_conn_loop_finished [of ?c ?buf later] assms b(1) by auto
  have "username c = lookup_str (content r) str_username" if "later = []"
    using c(1) that by (auto simp: set_user_info_to_handle_def get_map_contents_def Let_def)
  then show ?thesis using w b(2) c by (simp add: read_conn_def)
qed

lemma file_name_parsed:
  assumes "0 \<notin> set u" and "length u \<le> 64"
  shows "file_name (parsed m u st M) =
    (if length u = 1 then Inr (doc_root @ index_page)
     else if length u \<le> 50 then Inr (doc_root @ u) else Inl Out_of_bounds)"
proof (cases "length u = 64")
  case True
  then show ?thesis using assms by (simp add: file_name_def getUrl_def parsed_def c_strlen_def)
next
  case False
  then have "64 - length u = Suc (63 - length u)" using assms(2) by arith
  then have u: "c_str (getUrl (parsed m u st M)) = u" "c_strlen (getUrl (parsed m u st M)) = Inr (length u)"
    using c_str_no_nul [OF assms(1)] by (simp_all add: getUrl_def parsed_def c_strlen_def)
  have str: "c_str (w @ 0 # x) = w" if "0 \<notin> set w" for w x using that by (rule c_str_no_nul)
  show ?thesis
    using assms u str [of "doc_root @ u"] str [of "doc_root @ index_page"]
    by (auto simp: file_name_def mem_write_def)
qed

section \<open>Properties\<close>

text \<open>
  C27: a connection serves only its first request. After a well-formed request without body, of at most
  1022 bytes and read in one piece, neither further data in the same call of \<^verbatim>\<open>read_conn\<close> nor any number of
  later calls with data of any kind change the parsed request: each read arms the connection for
  writing again, and each answer is the answer to the first request.
\<close>

theorem read_conn_first_request_only:
  assumes "request_ok m u v hs" and "hs \<noteq> []" and "length (request m u v hs []) \<le> 1022"
    and "\<forall>chunk \<in> set later. length chunk \<le> 1023"
    and "\<forall>chunks \<in> set calls. \<forall>chunk \<in> set chunks. length chunk \<le> 1023"
  shows "\<exists>c t. read_conn new_connection (request m u v hs [] # later) False =
      Inr (Some c, replicate (Suc (length later)) EP_OUT) \<and> conn_req c = parsed m u READ_HTTP_FINISH Map.empty \<and>
    read_calls c calls = Inr (Some t, map (\<lambda>chunks. replicate (length chunks) EP_OUT) calls) \<and>
    conn_req t = conn_req c \<and> (\<forall>os. write_conn os t = write_conn os c)"
proof -
  obtain c where c: "read_conn new_connection (request m u v hs [] # later) False =
      Inr (Some c, replicate (Suc (length later)) EP_OUT)"
      "conn_req c = parsed m u READ_HTTP_FINISH Map.empty" "wf_buffer (conn_buf c)"
    using read_conn_first [OF assms(3) parse_plain_request [OF assms(1,2)] _ assms(4)] by (auto simp: parsed_def)
  then have "rhs (conn_req c) = READ_HTTP_FINISH" by (simp add: parsed_def)
  from read_calls_finished [OF this c(3) assms(5)] c(1,2) write_conn_cong show ?thesis by blast
qed

theorem read_conn_first_request_only_witness:
  "\<exists>c t. read_conn new_connection [request str_GET [SLASH] [0x31] [ex_line] []] False = Inr (Some c, [EP_OUT]) \<and>
    read_calls c [[request str_GET [SLASH, 0x61] [0x31] [ex_line] []]] = Inr (Some t, [[EP_OUT]]) \<and>
    conn_req t = parsed str_GET [SLASH] READ_HTTP_FINISH Map.empty"
  using read_conn_first_request_only [of str_GET "[SLASH]" "[0x31]" "[ex_line]" "[]" "[[request str_GET [SLASH, 0x61] [0x31] [ex_line] []]]"]
  by (auto simp: request_ok_def line_ok_def ex_line_def request_def str_GET_def str_HTTP_def)

text \<open>
  A login whose first parameter is the user name is not understood: for a posted body
  \<^verbatim>\<open>username=...\<close> the handler's user name stays empty.
\<close>

theorem read_conn_username_lost:
  assumes "request_ok m u v hs" and "hs \<noteq> []" and "0 \<notin> set w" and "AMP \<notin> set w" and "length w \<le> 118"
    and "length (request m u v hs (str_username @ EQUALS # w)) \<le> 1022"
  shows "\<exists>c. read_conn new_connection [request m u v hs (str_username @ EQUALS # w)] False = Inr (Some c, [EP_OUT]) \<and>
    username c = [] \<and> content (conn_req c) (LF # str_username) = Some w"
proof -
  have "read_http_status_machine new_http_request (request m u v hs (str_username @ EQUALS # w) @ 0 # x)
      (length (request m u v hs (str_username @ EQUALS # w))) =
      Inr (parsed m u READ_HTTP_FINISH [LF # str_username \<mapsto> w], READ_HTTP_FINISH)" for x
    by (rule parse_one_param [OF assms(1,2)]) (use assms in \<open>auto simp: str_username_def\<close>)
  from read_conn_first [OF assms(6) this, of "[]"] show ?thesis
    by (auto simp: parsed_def lookup_str_def str_username_def)
qed

theorem read_conn_username_lost_witness:
  "\<exists>c. read_conn new_connection [request str_POST [SLASH] [0x31] [ex_line] (str_username @ EQUALS # [0x62])] False =
     Inr (Some c, [EP_OUT]) \<and> username c = []"
  using read_conn_username_lost [of str_POST "[SLASH]" "[0x31]" "[ex_line]" "[0x62]"]
  by (auto simp: request_ok_def line_ok_def ex_line_def request_def str_POST_def str_HTTP_def str_username_def)

text \<open>
  The path of the answer: for a parsed target of at most 50 bytes it is the document root
  followed by the target, or by the index page for a target of one byte; every longer target
  overruns the 64 bytes of \<^verbatim>\<open>filename\<close>, although the parser accepts it.
\<close>

theorem write_conn_file_name:
  assumes "0 \<notin> set u" and "length u \<le> 64"
  shows "file_name (parsed m u st M) =
    (if length u = 1 then Inr (doc_root @ index_page)
     else if length u \<le> 50 then Inr (doc_root @ u) else Inl Out_of_bounds)"
  using assms by (rule file_name_parsed)

theorem write_conn_file_name_witness:
  "file_name (parsed str_GET [SLASH] READ_HTTP_FINISH Map.empty) = Inr (doc_root @ index_page)"
  using write_conn_file_name [of "[SLASH]"] by simp

end
