(* ===== verification/Event_Loop.thy ===== *)
theory Event_Loop
  imports Acceptor
begin

text \<open>
  \<^verbatim>\<open>acceptor::accept_conn\<close> and \<^verbatim>\<open>acceptor::epoll_loop\<close>: the event thread, the pool's queue and the
  workers that run \<^verbatim>\<open>read_conn\<close> and \<^verbatim>\<open>write_conn\<close>, interleaved. Connections are objects at addresses;
  the events are one-shot, and \<^verbatim>\<open>read_conn\<close> arms its connection again while it is still reading, so
  that a second job for the same connection can exist.
\<close>

section \<open>Definitions\<close>

datatype job = Read_conn nat | Write_conn nat

text \<open>
  Where a worker stands: about to call \<^verbatim>\<open>read\<close>, about to re-arm, about to close, or at the start of
  \<^verbatim>\<open>write_conn\<close>, each with the address of its connection; \<^verbatim>\<open>_buf\<close> is the array on its stack.
\<close>

datatype wstate =
    Idle
  | Reading nat "byte list"
  | Rearming nat "byte list" ep_event
  | Closing nat
  | Writing nat

record acceptor =
  objs :: "nat \<rightharpoonup> connection"  \<comment> \<open>connections that exist\<close>
  armed :: "nat \<rightharpoonup> ep_event"  \<comment> \<open>events enabled in epoll\<close>
  jobs :: "job list"  \<comment> \<open>the queue of the pool\<close>
  workers :: "nat \<Rightarrow> wstate"
  sent :: "(nat \<times> byte list) list"  \<comment> \<open>what was written, by connection\<close>
  received :: "(nat \<times> byte list) list"  \<comment> \<open>what \<^verbatim>\<open>read\<close> delivered, by connection\<close>
  ended :: "nat set"  \<comment> \<open>connections on which a \<^verbatim>\<open>read\<close> returned 0\<close>

definition acceptor_start :: acceptor where
  "acceptor_start = \<lparr>objs = Map.empty, armed = Map.empty, jobs = [], workers = (\<lambda>_. Idle), sent = [], received = [], ended = {}\<rparr>"

text \<open>The body of the loop of \<^verbatim>\<open>accept_conn\<close>, for a connection allocated at \<open>c\<close>, and the loop.\<close>

definition accept_peer :: "nat \<Rightarrow> acceptor \<Rightarrow> acceptor" where
  "accept_peer c s = s\<lparr>objs := (objs s)(c \<mapsto> new_connection), armed := (armed s)(c \<mapsto> EP_IN)\<rparr>"

definition accept_conn :: "nat list \<Rightarrow> acceptor \<Rightarrow> acceptor" where
  "accept_conn peers s = fold accept_peer peers s"

text \<open>
  An event of \<^verbatim>\<open>epoll_wait\<close>: on the listening socket, with the connections waiting there, or on a
  connection, with the bits \<^verbatim>\<open>EPOLLIN\<close> and \<^verbatim>\<open>EPOLLOUT\<close>.
\<close>

datatype event = On_listen "nat list" | On_conn nat bool bool

definition handle_event :: "event \<Rightarrow> acceptor \<Rightarrow> acceptor" where
  "handle_event ev s = (case ev of
      On_listen peers \<Rightarrow> accept_conn peers s
    | On_conn c epollin epollout \<Rightarrow>
        if epollin then s\<lparr>jobs := jobs s @ [Read_conn c]\<rparr>
        else if epollout then s\<lparr>jobs := jobs s @ [Write_conn c]\<rparr>
        else s)"

definition start_job :: "job \<Rightarrow> wstate" where
  "start_job j = (case j of Read_conn c \<Rightarrow> Reading c (replicate BUFSIZE 0) | Write_conn c \<Rightarrow> Writing c)"

text \<open>The connection after \<^verbatim>\<open>write_conn\<close>.\<close>

definition finish_write :: "nat \<Rightarrow> after_write \<Rightarrow> acceptor \<Rightarrow> acceptor" where
  "finish_write c after s = (case after of
      Armed e \<Rightarrow> s\<lparr>armed := (armed s)(c \<mapsto> e)\<rparr>
    | Deleted \<Rightarrow> s\<lparr>objs := (objs s)(c := None), armed := (armed s)(c := None)\<rparr>
    | Untouched \<Rightarrow> s)"

text \<open>
  One step of the event thread or of a worker. A one-shot event is disarmed when it is delivered;
  a step of a worker reads its connection object, which must exist.
\<close>

inductive ev_step :: "os_calls \<Rightarrow> acceptor \<Rightarrow> acceptor \<Rightarrow> bool" for os where
  ev_listen: "distinct peers \<Longrightarrow> set peers \<inter> dom (objs s) = {} \<Longrightarrow> ev_step os s (handle_event (On_listen peers) s)"
| ev_event: "armed s c = Some e \<Longrightarrow>
    ev_step os s (handle_event (On_conn c (e = EP_IN) (e = EP_OUT)) (s\<lparr>armed := (armed s)(c := None)\<rparr>))"
| ev_error: "armed s c = Some e \<Longrightarrow>
    ev_step os s (handle_event (On_conn c False False) (s\<lparr>armed := (armed s)(c := None)\<rparr>))"
| ev_start: "workers s w = Idle \<Longrightarrow> jobs s = j # js \<Longrightarrow>
    ev_step os s (s\<lparr>jobs := js, workers := (workers s)(w := start_job j)\<rparr>)"
| ev_read: "workers s w = Reading c buf \<Longrightarrow> objs s c = Some conn \<Longrightarrow> 0 < length chunk \<Longrightarrow> length chunk \<le> BUFSIZE - 1 \<Longrightarrow>
    mem_write buf 0 chunk = Inr buf' \<Longrightarrow> read_chunk conn buf' (length chunk) = Inr (conn', e) \<Longrightarrow>
    ev_step os s (s\<lparr>objs := (objs s)(c \<mapsto> conn'), workers := (workers s)(w := Rearming c buf' e),
      received := received s @ [(c, chunk)]\<rparr>)"
| ev_rearm: "workers s w = Rearming c buf e \<Longrightarrow> objs s c = Some conn \<Longrightarrow>
    ev_step os s (s\<lparr>armed := (armed s)(c \<mapsto> e), workers := (workers s)(w := Reading c buf)\<rparr>)"
| ev_again: "workers s w = Reading c buf \<Longrightarrow> objs s c = Some conn \<Longrightarrow>
    ev_step os s (s\<lparr>workers := (workers s)(w := Idle)\<rparr>)"
| ev_eof: "workers s w = Reading c buf \<Longrightarrow> objs s c = Some conn \<Longrightarrow>
    ev_step os s (s\<lparr>ended := insert c (ended s), workers := (workers s)(w := Closing c)\<rparr>)"
| ev_close: "workers s w = Closing c \<Longrightarrow> objs s c = Some conn \<Longrightarrow>
    ev_step os s (s\<lparr>armed := (armed s)(c := None), objs := (objs s)(c := None), workers := (workers s)(w := Idle)\<rparr>)"
| ev_write: "workers s w = Writing c \<Longrightarrow> objs s c = Some conn \<Longrightarrow> write_conn os conn = Inr (Some (bytes, after)) \<Longrightarrow>
    ev_step os s (finish_write c after (s\<lparr>sent := sent s @ [(c, bytes)], workers := (workers s)(w := Idle)\<rparr>))"

definition ev_init :: "acceptor \<Rightarrow> bool" where
  "ev_init s \<longleftrightarrow> s = acceptor_start"

fun job_conn :: "job \<Rightarrow> nat" where
  "job_conn (Read_conn c) = c"
| "job_conn (Write_conn c) = c"

fun conn_of :: "wstate \<Rightarrow> nat option" where
  "conn_of Idle = None"
| "conn_of (Reading c _) = Some c"
| "conn_of (Rearming c _ _) = Some c"
| "conn_of (Closing c) = Some c"
| "conn_of (Writing c) = Some c"

text \<open>The next access of worker \<open>w\<close> is to a deleted connection.\<close>

definition uses_freed :: "acceptor \<Rightarrow> nat \<Rightarrow> bool" where
  "uses_freed s w = (case conn_of (workers s w) of None \<Rightarrow> False | Some c \<Rightarrow> objs s c = None)"

section \<open>Invariant\<close>

definition live :: "acceptor \<Rightarrow> nat \<Rightarrow> bool" where
  "live s c \<longleftrightarrow> objs s c \<noteq> None \<or> c \<in> ended s"

text \<open>
  The poller watches existing connections only; every queued or running job belongs to a connection
  that exists or whose end of input was read; only such a connection is being closed.
\<close>

definition acceptor_inv :: "acceptor \<Rightarrow> bool" where
  "acceptor_inv s \<longleftrightarrow> (\<forall>c. armed s c \<noteq> None \<longrightarrow> objs s c \<noteq> None) \<and>
     (\<forall>j \<in> set (jobs s). live s (job_conn j)) \<and>
     (\<forall>w c. conn_of (workers s w) = Some c \<longrightarrow> live s c) \<and>
     (\<forall>w c. workers s w = Closing c \<longrightarrow> c \<in> ended s)"

lemma after_answer [simp]: "after_answer = Armed EP_IN"
  by (simp add: after_answer_def FORCE_CLOSE_def)

lemma write_conn_after: "write_conn os c = Inr (Some (bytes, after)) \<Longrightarrow> after = Armed EP_IN \<or> after = Untouched"
  by (auto simp: write_conn_def res_bind_Inr_iff Let_def split: if_splits option.splits)

lemma conn_of_start_job [simp]: "conn_of (start_job j) = Some (job_conn j)" "start_job j \<noteq> Closing c"
  by (cases j; simp add: start_job_def)+

lemma accept_conn_fields:
  "objs (accept_conn peers s) c = (if c \<in> set peers then Some new_connection else objs s c)"
  "armed (accept_conn peers s) c = (if c \<in> set peers then Some EP_IN else armed s c)"
  "jobs (accept_conn peers s) = jobs s" "workers (accept_conn peers s) = workers s"
  "sent (accept_conn peers s) = sent s" "received (accept_conn peers s) = received s" "ended (accept_conn peers s) = ended s"
  by (induction peers arbitrary: s) (auto simp: accept_conn_def accept_peer_def)

text \<open>A step changes one worker, and keeps the other live connections.\<close>

lemma acceptor_inv_update:
  assumes "acceptor_inv s"
    and "\<And>c. armed t c \<noteq> None \<Longrightarrow> objs t c \<noteq> None"
    and "\<And>c. live s c \<Longrightarrow> live t c"
    and "\<And>j. j \<in> set (jobs t) \<Longrightarrow> j \<in> set (jobs s) \<or> live t (job_conn j)"
    and "workers t = (workers s)(w := ws)"
    and "\<And>c. conn_of ws = Some c \<Longrightarrow> live t c" and "\<And>c. ws = Closing c \<Longrightarrow> c \<in> ended t"
    and "ended s \<subseteq> ended t"
  shows "acceptor_inv t"
  unfolding acceptor_inv_def
proof (intro conjI ballI allI impI)
  show "live t (job_conn j)" if "j \<in> set (jobs t)" for j
    using assms(1,3) assms(4) [OF that] by (auto simp: acceptor_inv_def)
  show "live t c" if "conn_of (workers t v) = Some c" for v c
    using assms(1,3,5,6) that by (auto simp: acceptor_inv_def split: if_splits)
  show "c \<in> ended t" if "workers t v = Closing c" for v c
    using assms(1,5,7,8) that by (auto simp: acceptor_inv_def split: if_splits)
qed (use assms(2) in auto)

lemma acceptor_inv_same_workers:
  assumes "acceptor_inv s" and "workers t = workers s"
    and "\<And>c. armed t c \<noteq> None \<Longrightarrow> objs t c \<noteq> None"
    and "\<And>c. live s c \<Longrightarrow> live t c"
    and "\<And>j. j \<in> set (jobs t) \<Longrightarrow> j \<in> set (jobs s) \<or> live t (job_conn j)"
    and "ended s \<subseteq> ended t"
  shows "acceptor_inv t"
proof (rule acceptor_inv_update [OF assms(1,3,4,5), of 0 "workers s 0"])
  show "live t c" if "conn_of (workers s 0) = Some c" for c
    using assms(1,4) that by (auto simp: acceptor_inv_def)
  show "c \<in> ended t" if "workers s 0 = Closing c" for c
    using assms(1,6) that by (auto simp: acceptor_inv_def)
qed (use assms in auto)

lemma acceptor_inv_step:
  assumes step: "ev_step os s t" and inv: "acceptor_inv s"
  shows "acceptor_inv t"
proof -
  have a: "objs s c \<noteq> None" if "armed s c \<noteq> None" for c
    using inv that by (simp add: acceptor_inv_def)
  have j: "live s (job_conn j)" if "j \<in> set (jobs s)" for j
    using inv that by (simp add: acceptor_inv_def)
  from step show ?thesis
  proof cases
    case (ev_listen peers)
    show ?thesis
      by (rule acceptor_inv_same_workers [OF inv])
        (use ev_listen a in \<open>auto simp: handle_event_def live_def accept_conn_fields split: if_splits\<close>)
  next
    case (ev_event c e)
    show ?thesis
      by (rule acceptor_inv_same_workers [OF inv])
        (use ev_event a in \<open>auto simp: handle_event_def live_def split: if_splits\<close>)
  next
    case (ev_error c e)
    show ?thesis
      by (rule acceptor_inv_same_workers [OF inv])
        (use ev_error a in \<open>auto simp: handle_event_def live_def split: if_splits\<close>)
  next
    case (ev_start w k js)
    show ?thesis
      by (rule acceptor_inv_update [OF inv, of _ w "start_job k"])
        (use ev_start a j in \<open>auto simp: live_def\<close>)
  next
    case (ev_read w c buf conn chunk buf' conn' e)
    show ?thesis
      by (rule acceptor_inv_update [OF inv, of _ w "Rearming c buf' e"])
        (use ev_read a in \<open>auto simp: live_def split: if_splits\<close>)
  next
    case (ev_rearm w c buf e conn)
    show ?thesis
      by (rule acceptor_inv_update [OF inv, of _ w "Reading c buf"])
        (use ev_rearm a in \<open>auto simp: live_def split: if_splits\<close>)
  next
    case (ev_again w c buf conn)
    show ?thesis
      by (rule acceptor_inv_update [OF inv, of _ w Idle]) (use ev_again a in \<open>auto simp: live_def\<close>)
  next
    case (ev_eof w c buf conn)
    show ?thesis
      by (rule acceptor_inv_update [OF inv, of _ w "Closing c"]) (use ev_eof a in \<open>auto simp: live_def\<close>)
  next
    case (ev_close w c conn)
    then have "c \<in> ended s" using inv by (auto simp: acceptor_inv_def)
    then show ?thesis
      by (intro acceptor_inv_update [OF inv, of t w Idle])
        (use ev_close a in \<open>auto simp: live_def split: if_splits\<close>)
  next
    case (ev_write w c conn bytes after)
    show ?thesis
      by (rule acceptor_inv_update [OF inv, of _ w Idle])
        (use ev_write write_conn_after [OF ev_write(4)] a in \<open>auto simp: finish_write_def live_def split: if_splits\<close>)
  qed
qed

interpretation evs: invariant_system ev_init "ev_step os" acceptor_inv
proof unfold_locales
  show "acceptor_inv s" if "ev_init s" for s
    using that by (simp add: ev_init_def acceptor_start_def acceptor_inv_def)
qed (rule acceptor_inv_step)

section \<open>A request from the first byte to the answer\<close>

text \<open>What a call of \<^verbatim>\<open>read_conn\<close> does with a complete request: parse it and ask for \<^verbatim>\<open>EPOLLOUT\<close>.\<close>

lemma read_chunk_request:
  assumes "request_ok m u v hs" and "hs \<noteq> []" and "length (request m u v hs []) \<le> 1022"
  shows "\<exists>buf conn. mem_write (replicate BUFSIZE 0) 0 (request m u v hs []) = Inr buf \<and>
    read_chunk new_connection buf (length (request m u v hs [])) = Inr (conn, EP_OUT) \<and>
    conn_req conn = parsed m u READ_HTTP_FINISH Map.empty"
proof -
  obtain c where "read_conn new_connection [request m u v hs []] False = Inr (Some c, [EP_OUT])"
      "conn_req c = parsed m u READ_HTTP_FINISH Map.empty"
    using read_conn_first [OF assms(3) parse_plain_request [OF assms(1,2)], of "[]"]
    by (auto simp: parsed_def)
  then show ?thesis
    by (auto simp: read_conn_def res_bind_Inr_iff split: prod.splits)
qed





text \<open>A runnable environment: every path opens as descriptor 3, the file is one byte, all of it is sent.\<close>

definition ex_os :: os_calls where
  "ex_os = \<lparr>os_fopen = (\<lambda>_. Some [0x78]), os_open = (\<lambda>_. 3), os_bytes = (\<lambda>_. [0x78]), os_sendfile = (\<lambda>n. n), os_write = []\<rparr>"

section \<open>Properties\<close>



text \<open>
  C14: deleted connections are touched only after the client has closed. In every reachable state the
  poller watches existing connections only, and a worker whose connection is gone works for a
  client whose end of input has been read; as long as no client closes, no job, queued or running,
  refers to a deleted connection.
\<close>

theorem event_loop_no_stray_jobs:
  assumes "reach ev_init (ev_step os) s"
  shows "(\<forall>c. armed s c \<noteq> None \<longrightarrow> objs s c \<noteq> None) \<and>
    (\<forall>w. uses_freed s w \<longrightarrow> (\<exists>c. conn_of (workers s w) = Some c \<and> c \<in> ended s)) \<and>
    (ended s = {} \<longrightarrow> (\<forall>w. \<not> uses_freed s w) \<and> (\<forall>j \<in> set (jobs s). objs s (job_conn j) \<noteq> None))"
  using evs.reach_inv [OF assms]
  by (fastforce simp: acceptor_inv_def uses_freed_def live_def split: option.splits)

theorem event_loop_no_stray_jobs_witness:
  "\<not> uses_freed (handle_event (On_listen [4]) acceptor_start) 0 \<and>
   armed (handle_event (On_listen [4]) acceptor_start) 4 = Some EP_IN"
proof -
  have "reach ev_init (ev_step ex_os) acceptor_start" by (rule reach_init) (simp add: ev_init_def)
  then have "reach ev_init (ev_step ex_os) (handle_event (On_listen [4]) acceptor_start)"
    by (rule reach_step) (rule ev_listen, simp_all add: acceptor_start_def)
  from event_loop_no_stray_jobs [OF this] show ?thesis
    by (auto simp: handle_event_def accept_conn_fields acceptor_start_def)
qed

text \<open>
  C15: a client that sends a request and closes makes a worker use a deleted connection:
  \<^verbatim>\<open>read_conn\<close> arms the connection for writing before it reads the end of input and deletes it, so the job for
  the answer is already queued. One client and one worker are enough.
\<close>

theorem event_loop_use_after_free:
  assumes "request_ok m u v hs" and "hs \<noteq> []" and "length (request m u v hs []) \<le> 1022"
  shows "\<exists>s. reach ev_init (ev_step os) s \<and> workers s 0 = Writing 7 \<and> uses_freed s 0 \<and> (\<forall>w > 0. workers s w = Idle)"
proof -
  let ?q = "request m u v hs []"
  obtain buf conn where r: "mem_write (replicate BUFSIZE 0) 0 ?q = Inr buf"
      "read_chunk new_connection buf (length ?q) = Inr (conn, EP_OUT)"
    using read_chunk_request [OF assms] by blast
  have q: "0 < length ?q" "length ?q \<le> BUFSIZE - 1" using assms(3) by (simp_all add: request_def BUFSIZE_def)
  note st = acceptor_start_def handle_event_def accept_conn_def accept_peer_def
  let ?W = "\<lambda>x. (\<lambda>_. Idle)(0 := x)"
  let ?s1 = "\<lparr>objs = [7 \<mapsto> new_connection], armed = [7 \<mapsto> EP_IN], jobs = [], workers = (\<lambda>_. Idle), sent = [], received = [], ended = {}\<rparr>"
  let ?s2 = "?s1\<lparr>armed := Map.empty, jobs := [Read_conn 7]\<rparr>"
  let ?s3 = "?s1\<lparr>armed := Map.empty, workers := ?W (Reading 7 (replicate BUFSIZE 0))\<rparr>"
  let ?s4 = "?s1\<lparr>objs := [7 \<mapsto> conn], armed := Map.empty, workers := ?W (Rearming 7 buf EP_OUT), received := [(7, ?q)]\<rparr>"
  let ?s5 = "?s1\<lparr>objs := [7 \<mapsto> conn], armed := [7 \<mapsto> EP_OUT], workers := ?W (Reading 7 buf), received := [(7, ?q)]\<rparr>"
  let ?s6 = "?s1\<lparr>objs := [7 \<mapsto> conn], armed := Map.empty, jobs := [Write_conn 7], workers := ?W (Reading 7 buf), received := [(7, ?q)]\<rparr>"
  let ?s7 = "?s6\<lparr>ended := {7}, workers := ?W (Closing 7)\<rparr>"
  let ?s8 = "?s7\<lparr>objs := Map.empty, workers := \<lambda>_. Idle\<rparr>"
  let ?s9 = "?s8\<lparr>jobs := [], workers := ?W (Writing 7)\<rparr>"
  have "reach ev_init (ev_step os) acceptor_start" by (rule reach_init) (simp add: ev_init_def)
  moreover have "ev_step os acceptor_start ?s1" using ev_listen [of "[7]" acceptor_start os] by (simp add: st)
  moreover have "ev_step os ?s1 ?s2" using ev_event [of ?s1 7 EP_IN os] by (simp add: st)
  moreover have "ev_step os ?s2 ?s3" using ev_start [of ?s2 0 "Read_conn 7" "[]" os] by (simp add: start_job_def)
  moreover have "ev_step os ?s3 ?s4"
    using ev_read [of ?s3 0 7 "replicate BUFSIZE 0" new_connection ?q buf conn EP_OUT os] r q by simp
  moreover have "ev_step os ?s4 ?s5" using ev_rearm [of ?s4 0 7 buf EP_OUT conn os] by simp
  moreover have "ev_step os ?s5 ?s6" using ev_event [of ?s5 7 EP_OUT os] by (simp add: st)
  moreover have "ev_step os ?s6 ?s7" using ev_eof [of ?s6 0 7 buf conn os] by simp
  moreover have "ev_step os ?s7 ?s8" using ev_close [of ?s7 0 7 conn os] by (simp add: fun_upd_idem)
  moreover have "ev_step os ?s8 ?s9" using ev_start [of ?s8 0 "Write_conn 7" "[]" os] by (simp add: start_job_def)
  ultimately have "reach ev_init (ev_step os) ?s9" by (meson reach_step)
  then show ?thesis by (intro exI [of _ ?s9]) (simp add: uses_freed_def)
qed

theorem event_loop_use_after_free_witness:
  "\<exists>s. reach ev_init (ev_step ex_os) s \<and> uses_freed s 0"
  using event_loop_use_after_free [of str_GET "[SLASH]" "[0x31]" "[ex_line]" ex_os]
  by (auto simp: request_ok_def line_ok_def ex_line_def request_def str_GET_def str_HTTP_def)

end
