(* ===== verification/Http_Server.thy ===== *)
theory Http_Server
  imports Http_Request Splay_Ops Logging
begin

text \<open>
  \<^verbatim>\<open>http_server.cpp\<close>: the stage functions that parse a request and look it up in the cache. The parser
  is a second text of the machine of \<^verbatim>\<open>http_request.cpp\<close>, on a zero-initialised structure, with the state in a
  local variable and a log line for the target of a \<^verbatim>\<open>GET\<close>; it is modelled on its own and shown equivalent
  to the first. The cache is the splay tree of \<open>Splay_Heap\<close> whose nodes carry C strings.
\<close>

section \<open>Definitions\<close>

datatype connection_state = CON_STATE_CONNECT | CON_STATE_REQUEST_START | CON_STATE_READ | CON_STATE_REQUEST_END
  | CON_STATE_READ_POST | CON_STATE_HANDLE_REQUEST | CON_STATE_RESPONSE_START | CON_STATE_WRITE
  | CON_STATE_RESPONSE_END | CON_STATE_ERROR | CON_STATE_CLOSE

text \<open>\<open>None\<close> in \<open>hh_method\<close> and \<open>hh_proto\<close> is the zero of value initialisation, which no enumerator has.\<close>

record http_head =
  hh_method :: "http_method option"
  hh_proto :: "http_proto option"
  hh_url :: "byte list"
  hh_rhs :: read_http_status
  hh_param :: "byte list \<rightharpoonup> byte list"

record http_struct =
  hst_head :: http_head
  hst_body :: "byte list"
  hst_status :: connection_state

definition new_http_head :: http_head where
  "new_http_head = \<lparr>hh_method = None, hh_proto = None, hh_url = replicate 64 0, hh_rhs = READ_HTTP_START,
                    hh_param = Map.empty\<rparr>"

definition new_http_body :: "byte list" where
  "new_http_body = replicate 1024 0"

definition new_http_struct :: http_struct where
  "new_http_struct = \<lparr>hst_head = new_http_head, hst_body = new_http_body, hst_status = CON_STATE_CONNECT\<rparr>"

text \<open>\<^verbatim>\<open>get_params(hht, buf + off, len)\<close>.\<close>

definition hht_get_params :: "http_head \<Rightarrow> byte list \<Rightarrow> nat \<Rightarrow> nat \<Rightarrow> http_head result" where
  "hht_get_params hht buf off len =
     res_bind (c_memcpy (replicate 128 0) 0 buf off len) (\<lambda>t_content.
     res_bind (c_strlen (drop off buf)) (\<lambda>_.
     res_bind (add_params (hh_param hht) (Http_Request.fields [] (c_str (drop off buf)))) (\<lambda>m.
     Inr (hht\<lparr>hh_param := m\<rparr>))))"

text \<open>
  The log line of the target: \<^verbatim>\<open>%s\<close> reads \<^verbatim>\<open>url\<close> up to a zero byte, and the line passes through the
  buffer of \<^verbatim>\<open>LogUtil::debug\<close>.
\<close>

definition log_url :: "byte list \<Rightarrow> byte list result" where
  "log_url u = res_bind (c_strlen u) (\<lambda>_. debug_line (bytes_of ''http_server.cpp : [read head]. url : '' @ c_str u))"

text \<open>The cases of the \<^verbatim>\<open>switch\<close> that assign the method and the protocol.\<close>

definition head_method :: "byte list \<Rightarrow> nat \<Rightarrow> http_head \<Rightarrow> read_http_status \<Rightarrow> (http_head \<times> read_http_status) result" where
  "head_method buf begin hht st =
     res_bind (c_memeq buf begin str_GET) (\<lambda>g.
       if g then Inr (hht\<lparr>hh_method := Some GET\<rparr>, st)
       else res_bind (c_memeq buf begin str_POST) (\<lambda>p.
         if p then Inr (hht\<lparr>hh_method := Some POST\<rparr>, st) else Inr (hht, READ_HTTP_ERROR)))"

definition head_proto :: "byte list \<Rightarrow> nat \<Rightarrow> nat \<Rightarrow> http_head \<Rightarrow> http_head result" where
  "head_proto buf begin i hht =
     res_bind (c_memeq buf begin str_HTTP) (\<lambda>h.
       if h \<and> i - begin = 4 then Inr (hht\<lparr>hh_proto := Some HTTP\<rparr>)
       else res_bind (c_memeq buf begin str_HTTP) (\<lambda>h.
         if h \<and> i - begin = 5 then Inr (hht\<lparr>hh_proto := Some HTTPS\<rparr>) else Inr hht))"

text \<open>The body of the loop: the head, the local \<^verbatim>\<open>rhs\<close>, \<open>i\<close> at the end of the body and \<^verbatim>\<open>begin\<close>.\<close>

definition hst_step :: "byte list \<Rightarrow> nat \<Rightarrow> http_head \<Rightarrow> read_http_status \<Rightarrow> nat \<Rightarrow> nat \<Rightarrow>
    (http_head \<times> read_http_status \<times> nat \<times> nat) result" where
  "hst_step buf nread hht st i begin = (
     let st = (if st = READ_HTTP_START then METHORD else st) in
     case st of
       READ_HTTP_START \<Rightarrow> Inr (hht, st, i, begin)
     | METHORD \<Rightarrow>
         res_bind (rd buf i) (\<lambda>c.
           if c = SP then res_bind (head_method buf begin hht st) (\<lambda>(hht, st). Inr (hht, URL, i, i + 1))
           else Inr (hht, st, i, begin))
     | URL \<Rightarrow>
         res_bind (rd buf i) (\<lambda>c.
           if c = SP then
             res_bind (c_memcpy (hh_url hht) 0 buf begin (i - begin)) (\<lambda>u.
               let hht = hht\<lparr>hh_url := u\<rparr> in
               res_bind (if hh_method hht = Some GET then log_url (hh_url hht) else Inr []) (\<lambda>_.
                 Inr (hht, PROTO, i, i + 1)))
           else Inr (hht, st, i, begin))
     | PROTO \<Rightarrow>
         res_bind (rd buf i) (\<lambda>c.
           if c = SLASH then res_bind (head_proto buf begin i hht) (\<lambda>hht. Inr (hht, VERSION, i, i + 1))
           else Inr (hht, st, i, begin))
     | VERSION \<Rightarrow>
         res_bind (rd buf i) (\<lambda>c.
           if c = CR then
             let i = i + 1 in
             res_bind (rd buf i) (\<lambda>d.
               if d = LF then Inr (hht, REQUEST_HEAD, i, i + 1) else Inr (hht, st, i, begin))
           else Inr (hht, st, i, begin))
     | REQUEST_HEAD \<Rightarrow>
         res_bind (rd buf i) (\<lambda>c.
           if c = CR then
             let i = i + 1 in
             res_bind (rd buf i) (\<lambda>d.
               if d = LF then
                 let begin = i + 1 in
                 res_bind (rd buf begin) (\<lambda>e.
                   if e = CR then
                     let begin = begin + 1 in
                     res_bind (rd buf begin) (\<lambda>f.
                       if f = LF then
                         let st = (if begin = nread - 1 \<or> begin = nread then READ_HTTP_FINISH else CONTENT) in
                         Inr (hht, st, i, begin)
                       else Inr (hht, st, i, begin))
                   else Inr (hht, st, i, begin))
               else Inr (hht, st, i, begin))
           else Inr (hht, st, i, begin))
     | CONTENT \<Rightarrow>
         res_bind (rd buf i) (\<lambda>c.
           res_bind (if c = LF then Inr hht else hht_get_params hht buf (i + 1) (nread - i - 1)) (\<lambda>hht.
           Inr (hht, READ_HTTP_FINISH, i, begin)))
     | READ_HTTP_FINISH \<Rightarrow> Inr (hht, st, i, begin)
     | READ_HTTP_ERROR \<Rightarrow> Inr (hht, st, i, begin))"

lemma hst_step_advances: "hst_step buf nread hht st i b = Inr (hht', st', i', b') \<Longrightarrow> i \<le> i'"
  by (auto simp: hst_step_def res_bind_Inr_iff Let_def split: read_http_status.splits if_splits)

function hst_loop :: "byte list \<Rightarrow> nat \<Rightarrow> http_head \<Rightarrow> read_http_status \<Rightarrow> nat \<Rightarrow> nat \<Rightarrow>
    (http_head \<times> read_http_status) result" where
  "hst_loop buf nread hht st i begin =
     (if i < nread then
        res_bind (hst_step buf nread hht st i begin) (\<lambda>(hht, st, i, begin). hst_loop buf nread hht st (i + 1) begin)
      else Inr (hht, st))"
  by auto
termination
  by (relation "measure (\<lambda>(buf, nread, hht, st, i, b). nread - i)") (auto dest!: hst_step_advances)

declare hst_loop.simps [simp del]

text \<open>The final state of the local \<^verbatim>\<open>rhs\<close> is dropped.\<close>

definition readHttpRequestStatusMachine :: "byte list \<Rightarrow> http_struct result" where
  "readHttpRequestStatusMachine buf =
     res_bind (c_strlen buf) (\<lambda>nread.
     let hst = new_http_struct in
     res_bind (hst_loop buf nread (hst_head hst) (hh_rhs (hst_head hst)) 0 0) (\<lambda>(hht, _).
     Inr (hst\<lparr>hst_head := hht\<rparr>)))"

definition hashUrl :: "byte list \<Rightarrow> c_int" where
  "hashUrl u = 0"

text \<open>The page a miss would read; \<^verbatim>\<open>sprintf\<close> into 128 bytes.\<close>

definition missed_page :: "byte list \<Rightarrow> byte list result" where
  "missed_page u = res_bind (c_strlen u) (\<lambda>_.
     mem_write (replicate 128 0) 0
       ([0x2F, 0x76, 0x61, 0x72, 0x2F, 0x77, 0x77, 0x77, 0x2F, 0x68, 0x74, 0x6D, 0x6C, 0x2F] @ c_str u @ [0]))"

definition checkCache :: "byte list tree_node \<Rightarrow> byte list heap \<Rightarrow> addr \<Rightarrow> http_struct \<Rightarrow>
    (byte list heap \<times> http_struct) result" where
  "checkCache g h cache hst =
     (let key = hashUrl (hh_url (hst_head hst)) in
      case splaytree_splay g h cache key of
        None \<Rightarrow> Inl Null_deref
      | Some (h, sp) \<Rightarrow>
          if sp \<noteq> Null then
            (case load h sp of
               None \<Rightarrow> Inl Null_deref
             | Some n \<Rightarrow>
                 res_bind (c_strlen (n_data n)) (\<lambda>len.
                 res_bind (c_memcpy (hst_body hst) 0 (n_data n) 0 len) (\<lambda>b.
                 Inr (h, hst\<lparr>hst_body := b\<rparr>))))
          else res_bind (missed_page (hh_url (hst_head hst))) (\<lambda>_. Inr (h, hst)))"

section \<open>The two parsers\<close>

text \<open>
  The request that a head and a state stand for, and the head that a request leaves. \<open>unlogged\<close> requests
  are those whose target fills its 64 bytes, so that the log line of a \<^verbatim>\<open>GET\<close> reads past them.
\<close>

definition req_of :: "http_head \<Rightarrow> read_http_status \<Rightarrow> http_request" where
  "req_of hht st = \<lparr>rhs = st, req_method = hh_method hht, req_proto = hh_proto hht, url = hh_url hht, content = hh_param hht\<rparr>"

definition head_of :: "http_request \<Rightarrow> http_head" where
  "head_of r = \<lparr>hh_method = req_method r, hh_proto = req_proto r, hh_url = url r, hh_rhs = READ_HTTP_START,
                hh_param = content r\<rparr>"

definition unlogged :: "http_request \<Rightarrow> bool" where
  "unlogged r \<longleftrightarrow> req_method r = Some GET \<and> 0 \<notin> set (url r)"

lemma req_of_simps [simp]:
  "rhs (req_of hht st) = st" "req_method (req_of hht st) = hh_method hht" "req_proto (req_of hht st) = hh_proto hht"
  "url (req_of hht st) = hh_url hht" "content (req_of hht st) = hh_param hht"
  by (simp_all add: req_of_def)

lemma req_of_head_of [simp]: "req_of (head_of r) (rhs r) = r"
  by (simp add: req_of_def head_of_def)

lemma head_of_updates [simp]:
  "head_of (r\<lparr>rhs := s\<rparr>) = head_of r"
  "head_of (r\<lparr>req_method := m\<rparr>) = (head_of r)\<lparr>hh_method := m\<rparr>"
  "head_of (r\<lparr>req_proto := p\<rparr>) = (head_of r)\<lparr>hh_proto := p\<rparr>"
  "head_of (r\<lparr>url := u\<rparr>) = (head_of r)\<lparr>hh_url := u\<rparr>"
  "head_of (r\<lparr>content := c\<rparr>) = (head_of r)\<lparr>hh_param := c\<rparr>"
  by (simp_all add: head_of_def)

lemma req_of_update: "(req_of hht st)\<lparr>rhs := st'\<rparr> = req_of hht st'"
  by (simp add: req_of_def)

lemma head_of_req_of [simp]: "hh_rhs hht = READ_HTTP_START \<Longrightarrow> head_of (req_of hht st) = hht"
  by (simp add: req_of_def head_of_def)

lemma log_url_eq:
  "length u = 64 \<Longrightarrow> if 0 \<in> set u then \<exists>l. log_url u = Inr l else log_url u = Inl Out_of_bounds"
proof -
  assume u: "length u = 64"
  have "length (c_str (bytes_of ''http_server.cpp : [read head]. url : '' @ c_str u)) \<le> 101"
    using order_trans [OF length_c_str_le] length_c_str_le [of u] u by fastforce
  then show ?thesis by (auto simp: log_url_def c_strlen_def debug_line_def mem_write_def debug_prefix_def)
qed

lemma hht_get_params_eq:
  "hh_rhs hht = READ_HTTP_START \<Longrightarrow>
   hht_get_params hht buf off len = res_bind (get_params (req_of hht st) buf off len) (\<lambda>r. Inr (head_of r))"
  by (simp add: hht_get_params_def get_params_def res_bind_def split: sum.splits)

lemma head_method_eq:
  "hh_rhs hht = READ_HTTP_START \<Longrightarrow>
   head_method buf b hht st = res_bind (read_method buf b (req_of hht st)) (\<lambda>r. Inr (head_of r, rhs r))"
  by (simp add: head_method_def read_method_def res_bind_def split: sum.splits)

lemma head_proto_eq:
  "hh_rhs hht = READ_HTTP_START \<Longrightarrow>
   head_proto buf b i hht = res_bind (read_proto buf b i (req_of hht st)) (\<lambda>r. Inr (head_of r))"
  by (simp add: head_proto_def read_proto_def res_bind_def split: sum.splits)

text \<open>One run of the loop body: the same as in the other parser, but for the log line.\<close>

definition same_step :: "byte list \<Rightarrow> nat \<Rightarrow> http_head \<Rightarrow> read_http_status \<Rightarrow> nat \<Rightarrow> nat \<Rightarrow> bool" where
  "same_step buf n hht st i b \<longleftrightarrow> hst_step buf n hht st i b =
    res_bind (parse_step buf n (req_of hht st) i b) (\<lambda>(r, i', b').
      if st = URL \<and> rhs r = PROTO \<and> unlogged r then Inl Out_of_bounds else Inr (head_of r, rhs r, i', b'))"

lemma same_step_URL:
  assumes "hh_rhs hht = READ_HTTP_START" and "length (hh_url hht) = 64"
  shows "same_step buf n hht URL i b"
proof (cases "rd buf i")
  case (Inr c)
  have log: "if 0 \<in> set u then \<exists>l. log_url u = Inr l else log_url u = Inl Out_of_bounds"
    if "c_memcpy (hh_url hht) 0 buf b (i - b) = Inr u" for u
    using log_url_eq [of u] c_memcpy_length [OF that] assms(2) by simp
  show ?thesis
    unfolding same_step_def using Inr assms(1) log
    by (cases "c_memcpy (hh_url hht) 0 buf b (i - b)")
      (auto simp: hst_step_def parse_step_def unlogged_def Let_def split: if_splits)
qed (simp add: same_step_def hst_step_def parse_step_def)

lemma hst_step_eq:
  assumes "hh_rhs hht = READ_HTTP_START" and "length (hh_url hht) = 64"
  shows "same_step buf n hht st i b"
proof (cases st)
  case URL
  then show ?thesis using same_step_URL [OF assms] by simp
next
  case READ_HTTP_START
  then show ?thesis
    unfolding same_step_def
    using assms(1) head_method_eq [of hht buf b METHORD]
    by (cases "rd buf i"; cases "read_method buf b (req_of hht METHORD)") (auto simp: hst_step_def parse_step_def req_of_update)
next
  case METHORD
  then show ?thesis
    unfolding same_step_def
    using assms(1) head_method_eq [of hht buf b METHORD]
    by (cases "rd buf i"; cases "read_method buf b (req_of hht METHORD)") (auto simp: hst_step_def parse_step_def)
next
  case PROTO
  then show ?thesis
    unfolding same_step_def
    using assms(1) head_proto_eq [of hht buf b i PROTO]
    by (cases "rd buf i"; cases "read_proto buf b i (req_of hht PROTO)") (auto simp: hst_step_def parse_step_def)
next
  case VERSION
  then show ?thesis
    unfolding same_step_def
    using assms(1) by (cases "rd buf i"; cases "rd buf (i + 1)") (auto simp: hst_step_def parse_step_def)
next
  case REQUEST_HEAD
  then show ?thesis
    unfolding same_step_def
    using assms(1)
    by (cases "rd buf i"; cases "rd buf (i + 1)"; cases "rd buf (i + 2)"; cases "rd buf (i + 3)")
      (auto simp: hst_step_def parse_step_def numeral_eq_Suc)
next
  case CONTENT
  then show ?thesis
    unfolding same_step_def
    using assms(1) hht_get_params_eq [of hht buf "i + 1" "n - i - 1" CONTENT]
    by (cases "rd buf i"; cases "get_params (req_of hht CONTENT) buf (i + 1) (n - i - 1)")
      (auto simp: hst_step_def parse_step_def)
qed (use assms(1) in \<open>simp_all add: same_step_def hst_step_def parse_step_def\<close>)

text \<open>Past the target, method and target stay as they are.\<close>

lemma parse_step_frozen:
  assumes "parse_step buf n r i b = Inr (r', i', b')" and "PROTO \<le> rhs r"
  shows "PROTO \<le> rhs r' \<and> req_method r' = req_method r \<and> url r' = url r"
  using assms
  by (cases "rhs r")
    (auto simp: parse_step_def status_order res_bind_Inr_iff Let_def dest!: read_proto_frame get_params_frame split: if_splits)

lemma parse_loop_frozen:
  assumes "parse_loop buf n r i b = Inr r'" and "PROTO \<le> rhs r"
  shows "unlogged r' = unlogged r"
proof -
  let ?P = "\<lambda>q. PROTO \<le> rhs q \<and> req_method q = req_method r \<and> url q = url r"
  have "?P r'"
    by (rule parse_loop_keeps [where P = ?P, OF _ assms(1)]) (use assms(2) parse_step_frozen in auto)
  then show ?thesis by (simp add: unlogged_def)
qed

lemma unlogged_step:
  assumes "parse_step buf n r i b = Inr (r', i', b')" and "http_ok r" and "\<not> unlogged r" and "unlogged r'"
  shows "rhs r = URL \<and> rhs r' = PROTO"
proof (cases "PROTO \<le> rhs r")
  case True
  then show ?thesis using parse_step_frozen [OF assms(1)] assms(3,4) by (simp add: unlogged_def)
next
  case False
  have "0 \<notin> set (url r')" using assms(4) by (simp add: unlogged_def)
  then have "url r' \<noteq> replicate 64 0" by auto
  then have "PROTO \<le> rhs r'" using parse_step_ok [OF assms(1,2)] by (simp add: http_ok_def)
  then show ?thesis
    using False assms(1) by (cases "rhs r") (auto simp: parse_step_def status_order res_bind_Inr_iff Let_def split: if_splits)
qed

text \<open>The whole loop, from a state in which the target has been logged or not been read.\<close>

definition agrees :: "http_request result \<Rightarrow> (http_head \<times> read_http_status) result \<Rightarrow> bool" where
  "agrees R S \<longleftrightarrow> (case R of
      Inl e \<Rightarrow> (\<exists>e'. S = Inl e')
    | Inr r \<Rightarrow> S = (if unlogged r then Inl Out_of_bounds else Inr (head_of r, rhs r)))"

lemma hst_loop_one:
  assumes "parse_step buf n r i b = Inr (r', i', b')" and "i < n" and "http_ok r" and "\<not> unlogged r"
  shows "hst_loop buf n (head_of r) (rhs r) i b =
    (if unlogged r' then Inl Out_of_bounds else hst_loop buf n (head_of r') (rhs r') (i' + 1) b')"
proof -
  have "length (hh_url (head_of r)) = 64" "hh_rhs (head_of r) = READ_HTTP_START"
    using assms(3) by (simp_all add: http_ok_def head_of_def)
  then have "same_step buf n (head_of r) (rhs r) i b" by (intro hst_step_eq)
  then show ?thesis
    using unlogged_step [OF assms(1,3,4)] assms(1,2) by (subst hst_loop.simps) (auto simp: same_step_def)
qed

lemma hst_loop_fault:
  assumes "parse_step buf n r i b = Inl e" and "i < n" and "http_ok r"
  shows "hst_loop buf n (head_of r) (rhs r) i b = Inl e"
proof -
  have "length (hh_url (head_of r)) = 64" "hh_rhs (head_of r) = READ_HTTP_START"
    using assms(3) by (simp_all add: http_ok_def head_of_def)
  then have "same_step buf n (head_of r) (rhs r) i b" by (intro hst_step_eq)
  then show ?thesis using assms(1,2) by (subst hst_loop.simps) (simp add: same_step_def)
qed

lemma hst_loop_agrees:
  assumes "http_ok r" and "\<not> unlogged r"
  shows "agrees (parse_loop buf n r i b) (hst_loop buf n (head_of r) (rhs r) i b)"
  using assms
proof (induction buf n r i b rule: parse_loop.induct)
  case (1 buf n r i b)
  consider "\<not> i < n" | e where "i < n" "parse_step buf n r i b = Inl e"
    | r' i' b' where "i < n" "parse_step buf n r i b = Inr (r', i', b')"
    by (cases "parse_step buf n r i b") auto
  then show ?case
  proof cases
    case 1
    then show ?thesis using "1.prems"(2) by (subst parse_loop.simps, subst hst_loop.simps) (simp add: agrees_def)
  next
    case 2
    then show ?thesis
      using hst_loop_fault [OF 2(2,1) "1.prems"(1)] by (subst parse_loop.simps) (simp add: agrees_def)
  next
    case 3
    note one = parse_one [OF 3(2,1)] hst_loop_one [OF 3(2,1) "1.prems"]
    show ?thesis
    proof (cases "unlogged r'")
      case True
      moreover from this have "PROTO \<le> rhs r'" using unlogged_step [OF 3(2) "1.prems"] by simp
      ultimately show ?thesis
        using parse_loop_frozen [of buf n r' "i' + 1" b'] one by (auto simp: agrees_def split: sum.splits)
    next
      case False
      then show ?thesis
        using one "1.IH" [OF 3 refl refl] parse_step_ok [OF 3(2) "1.prems"(1)] by simp
    qed
  qed
qed

text \<open>
  C26: the parser of the stage functions is equivalent to the one of \<^verbatim>\<open>http_request.cpp\<close>: on every C string
  it leaves the same method, protocol, target and parameters, and it fails when the other fails.
  The one difference is the target of exactly 64 bytes in a \<^verbatim>\<open>GET\<close>, which the other accepts: logging it
  reads past the array. The state reached is not returned: the field \<^verbatim>\<open>rhs\<close> keeps its initial value.
\<close>

theorem http_parsers_equivalent:
  assumes "0 \<in> set buf"
  shows "case read_http_status_machine new_http_request buf (length (c_str buf)) of
      Inl e \<Rightarrow> \<exists>e'. readHttpRequestStatusMachine buf = Inl e'
    | Inr (r, st) \<Rightarrow> readHttpRequestStatusMachine buf =
        (if req_method r = Some GET \<and> 0 \<notin> set (url r) then Inl Out_of_bounds
         else Inr \<lparr>hst_head = \<lparr>hh_method = req_method r, hh_proto = req_proto r, hh_url = url r,
                               hh_rhs = READ_HTTP_START, hh_param = content r\<rparr>,
                   hst_body = replicate 1024 0, hst_status = CON_STATE_CONNECT\<rparr>)"
proof -
  have head: "new_http_head = head_of new_http_request" "rhs new_http_request = READ_HTTP_START"
    by (simp_all add: new_http_head_def head_of_def new_http_request_def)
  have "\<not> unlogged new_http_request" by (simp add: unlogged_def new_http_request_def)
  then have "agrees (parse_loop buf (length (c_str buf)) new_http_request 0 0)
      (hst_loop buf (length (c_str buf)) new_http_head READ_HTTP_START 0 0)"
    using hst_loop_agrees [OF new_http_request_ok] head by metis
  then show ?thesis
    using assms
    by (auto simp: agrees_def readHttpRequestStatusMachine_def read_http_status_machine_def c_strlen_def new_http_struct_def
        new_http_head_def new_http_body_def Let_def head_of_def unlogged_def split: sum.splits)
qed

lemma ex_request_string: "c_str (request str_GET [SLASH] [0x31] [ex_line] [] @ [0]) = request str_GET [SLASH] [0x31] [ex_line] []"
  by (rule c_str_no_nul) (simp add: request_def str_GET_def str_HTTP_def ex_line_def)

theorem http_parsers_equivalent_witness:
  "readHttpRequestStatusMachine (request str_GET [SLASH] [0x31] [ex_line] [] @ [0]) =
     Inr \<lparr>hst_head = \<lparr>hh_method = Some GET, hh_proto = Some HTTP, hh_url = SLASH # replicate 63 0,
                        hh_rhs = READ_HTTP_START, hh_param = Map.empty\<rparr>,
          hst_body = replicate 1024 0, hst_status = CON_STATE_CONNECT\<rparr>"
proof -
  have "read_http_status_machine new_http_request (request str_GET [SLASH] [0x31] [ex_line] [] @ [0])
      (length (request str_GET [SLASH] [0x31] [ex_line] [])) =
    Inr (parsed str_GET [SLASH] READ_HTTP_FINISH Map.empty, READ_HTTP_FINISH)"
    by (rule parse_plain_request) (simp_all add: request_ok_def line_ok_def ex_line_def)
  then show ?thesis
    using http_parsers_equivalent [of "request str_GET [SLASH] [0x31] [ex_line] [] @ [0]"]
    by (simp add: ex_request_string parsed_def)
qed

section \<open>The cache\<close>

lemma c_str_prefix: "take (length (c_str d)) d = c_str d"
  by (metis append_eq_conv_conj c_str_def takeWhile_dropWhile_id)

lemma cached_data:
  assumes "0 \<in> set d" and "length (c_str d) \<le> length b"
  shows "res_bind (c_strlen d) (\<lambda>len. c_memcpy b 0 d 0 len) = Inr (c_str d @ drop (length (c_str d)) b)"
  using assms length_c_str_le [of d] by (simp add: c_strlen_def c_memcpy_def mem_write_def c_str_prefix)

text \<open>
  The cache answers every request with one of its entries whatever the target is: on a non-empty
  cache of C strings of at most 1024 characters, \<^verbatim>\<open>checkCache\<close> copies the data of some node into the
  body, and the target has no influence on which.
\<close>

theorem check_cache_ignores_url:
  assumes "holds_tree h t" and "t \<noteq> Leaf" and "h Local_N = None" and "length b = 1024"
    and "\<forall>c \<in> set_tree t. 0 \<in> set (snd (snd c)) \<and> length (c_str (snd (snd c))) \<le> 1024"
  shows "\<exists>h'. \<exists>c \<in> set_tree t. \<forall>r. checkCache g h (root t) \<lparr>hst_head = r, hst_body = b, hst_status = s\<rparr> =
    Inr (h', \<lparr>hst_head = r, hst_body = c_str (snd (snd c)) @ drop (length (c_str (snd (snd c)))) b, hst_status = s\<rparr>)"
proof -
  obtain h' where h': "splaytree_splay g h (root t) 0 = Some (h', root (splay 0 t))" "holds_tree h' (splay 0 t)"
    using splay_refines [OF assms(1,3)] by blast
  obtain l c r where sp: "splay 0 t = Node l c r" using assms(2) splay_Leaf_iff [of 0 t] by (cases "splay 0 t") auto
  then have c: "c \<in> set_tree t" using set_tree_splayD by blast
  obtain n where n: "load h' (fst c) = Some n" "n_data n = snd (snd c)" "fst c \<noteq> Null"
    using h'(2) by (simp add: sp holds_tree_Node load_def)
  have "c_strlen (n_data n) = Inr (length (c_str (snd (snd c))))"
    "c_memcpy b 0 (n_data n) 0 (length (c_str (snd (snd c)))) = Inr (c_str (snd (snd c)) @ drop (length (c_str (snd (snd c)))) b)"
    using cached_data [of "snd (snd c)" b] assms(4,5) c n(2) by (auto simp: c_strlen_def)
  then have "checkCache g h (root t) \<lparr>hst_head = q, hst_body = b, hst_status = s\<rparr> =
      Inr (h', \<lparr>hst_head = q, hst_body = c_str (snd (snd c)) @ drop (length (c_str (snd (snd c)))) b, hst_status = s\<rparr>)" for q
    using h'(1) n by (simp add: checkCache_def hashUrl_def sp)
  then show ?thesis using c by blast
qed

definition ex_slot :: "byte list tree_node" where
  "ex_slot = \<lparr>n_left = Null, n_right = Null, n_key = 3, n_size = 0, n_data = []\<rparr>"

definition ex_cache :: "(addr, byte list) stree" where
  "ex_cache = Node Leaf (Mem 0, 7, [0x61, 0]) Leaf"

theorem check_cache_ignores_url_witness:
  "\<exists>h'. \<forall>r. checkCache ex_slot [Mem 0 \<mapsto> \<lparr>n_left = Null, n_right = Null, n_key = 7, n_size = 1, n_data = [0x61, 0]\<rparr>] (Mem 0)
      \<lparr>hst_head = r, hst_body = replicate 1024 0, hst_status = CON_STATE_READ\<rparr> =
    Inr (h', \<lparr>hst_head = r, hst_body = 0x61 # replicate 1023 0, hst_status = CON_STATE_READ\<rparr>)"
proof -
  let ?h = "[Mem 0 \<mapsto> \<lparr>n_left = Null, n_right = Null, n_key = 7, n_size = 1, n_data = [0x61, 0]\<rparr>] :: byte list heap"
  have "holds_tree ?h ex_cache" by (simp add: ex_cache_def holds_tree_Node)
  moreover have "c_str [0x61, 0] = [0x61 :: byte]" by (simp add: c_str_def)
  ultimately show ?thesis
    using check_cache_ignores_url [of ?h ex_cache "replicate 1024 0" ex_slot CON_STATE_READ] by (auto simp: ex_cache_def)
qed

end
