(* ===== verification/Worker_Pool.thy ===== *)
theory Worker_Pool
  imports Job_Queue
begin

text \<open>
  \<^verbatim>\<open>worker_pool.cpp\<close>: the constructors, \<^verbatim>\<open>run\<close>, \<^verbatim>\<open>start\<close>, \<^verbatim>\<open>stop\<close> and the loop each worker thread executes,
  interleaved. The queue operations are the critical sections of \<open>Job_Queue\<close>; the counter
  \<^verbatim>\<open>running_num\<close> is read and written in separate steps, so that the lock around it matters.
\<close>

section \<open>The pool\<close>

text \<open>Where a worker stands in \<^verbatim>\<open>per_worker_task\<close>; \<open>'j\<close> is the type of the queue elements.\<close>

datatype 'j wpc =
    W_none
  | W_test
  | W_pop
  | W_lock_in 'j
  | W_read_in 'j
  | W_write_in 'j int
  | W_unlock_in 'j
  | W_call 'j
  | W_lock_out
  | W_read_out
  | W_write_out int
  | W_unlock_out
  | W_exit

record 'j worker_pool =
  worker_num :: nat
  worker_init_callback :: bool
  running :: bool
  wp_jq :: "'j task_queue"
  running_num :: int
  statics_lock :: "nat option"
  workers :: "nat \<Rightarrow> 'j wpc"
  submitted :: "'j list"
  started :: "'j list"
  executed :: "'j list"
  callbacks :: nat

text \<open>\<^verbatim>\<open>worker_pool::init\<close>\<close>

definition wp_init :: "'j worker_pool \<Rightarrow> 'j worker_pool" where
  "wp_init w = w\<lparr>wp_jq := new_task_queue, running_num := 0, statics_lock := None\<rparr>"

text \<open>
  The constructor with a callback: the member initialiser stores it, the body overwrites it with
  \<^verbatim>\<open>NULL\<close>. \<open>r\<close> is the indeterminate value of \<^verbatim>\<open>running\<close>.
\<close>

definition worker_pool_new :: "nat \<Rightarrow> bool \<Rightarrow> bool \<Rightarrow> 'j worker_pool" where
  "worker_pool_new n callback r =
     (let w = \<lparr>worker_num = n, worker_init_callback = callback, running = r, wp_jq = new_task_queue,
               running_num = 0, statics_lock = None, workers = (\<lambda>_. W_none), submitted = [],
               started = [], executed = [], callbacks = 0\<rparr>;
          w = w\<lparr>worker_init_callback := False\<rparr>
      in wp_init w)"

definition default_worker_num :: nat where
  "default_worker_num = 20"

definition getRunnningWorkerNum :: "'j worker_pool \<Rightarrow> int" where
  "getRunnningWorkerNum w = running_num w"

definition set_task_queue :: "'j worker_pool \<Rightarrow> 'j task_queue \<Rightarrow> 'j worker_pool" where
  "set_task_queue w q = w\<lparr>wp_jq := q\<rparr>"

text \<open>\<^verbatim>\<open>thread_worker_pool::start\<close>\<close>

definition wp_start :: "'j worker_pool \<Rightarrow> 'j worker_pool" where
  "wp_start w = w\<lparr>running := True, workers := (\<lambda>t. if t < worker_num w then W_test else workers w t)\<rparr>"

text \<open>\<^verbatim>\<open>thread_worker_pool::stop\<close> returns when every thread can be joined.\<close>

definition stop_returns :: "'j worker_pool \<Rightarrow> bool" where
  "stop_returns w \<longleftrightarrow> (\<forall>t < worker_num w. workers w t = W_exit)"

text \<open>\<^verbatim>\<open>worker_pool::run\<close>, when the queue accepts the element.\<close>

definition wp_run :: "'j \<Rightarrow> 'j worker_pool \<Rightarrow> 'j worker_pool option" where
  "wp_run qe w =
     (if is_full (wp_jq w) then None
      else Some (w\<lparr>wp_jq := fst (push_body qe (wp_jq w)), submitted := submitted w @ [qe]\<rparr>))"

text \<open>One step of worker \<open>t\<close>; \<open>None\<close> when it is blocked or has ended.\<close>

definition worker_step :: "nat \<Rightarrow> 'j worker_pool \<Rightarrow> 'j worker_pool option" where
  "worker_step t w = (let goto = (\<lambda>p w. w\<lparr>workers := (workers w)(t := p)\<rparr>) in
     case workers w t of
       W_none \<Rightarrow> None
     | W_test \<Rightarrow> Some (goto (if running w then W_pop else W_exit) w)
     | W_pop \<Rightarrow>
         if is_empty (wp_jq w) then None
         else (case pop_body (wp_jq w) of
                 None \<Rightarrow> None
               | Some (qe, q, _) \<Rightarrow> Some (goto (W_lock_in qe) (w\<lparr>wp_jq := q, started := started w @ [qe]\<rparr>)))
     | W_lock_in qe \<Rightarrow>
         if statics_lock w = None then Some (goto (W_read_in qe) (w\<lparr>statics_lock := Some t\<rparr>)) else None
     | W_read_in qe \<Rightarrow> Some (goto (W_write_in qe (running_num w)) w)
     | W_write_in qe v \<Rightarrow> Some (goto (W_unlock_in qe) (w\<lparr>running_num := v + 1\<rparr>))
     | W_unlock_in qe \<Rightarrow> Some (goto (W_call qe) (w\<lparr>statics_lock := None\<rparr>))
     | W_call qe \<Rightarrow>
         Some (goto W_lock_out
           (if worker_init_callback w then w\<lparr>callbacks := callbacks w + 1\<rparr>
            else w\<lparr>executed := executed w @ [qe]\<rparr>))
     | W_lock_out \<Rightarrow>
         if statics_lock w = None then Some (goto W_read_out (w\<lparr>statics_lock := Some t\<rparr>)) else None
     | W_read_out \<Rightarrow> Some (goto (W_write_out (running_num w)) w)
     | W_write_out v \<Rightarrow> Some (goto W_unlock_out (w\<lparr>running_num := v - 1\<rparr>))
     | W_unlock_out \<Rightarrow> Some (goto W_test (w\<lparr>statics_lock := None\<rparr>))
     | W_exit \<Rightarrow> None)"

inductive wp_step :: "'j worker_pool \<Rightarrow> 'j worker_pool \<Rightarrow> bool" where
  submit: "wp_run qe w = Some w' \<Longrightarrow> wp_step w w'"
| work: "worker_step t w = Some w' \<Longrightarrow> wp_step w w'"

definition wp_started :: "nat \<Rightarrow> 'j worker_pool \<Rightarrow> bool" where
  "wp_started n w \<longleftrightarrow> (\<exists>cb r. w = wp_start (worker_pool_new n cb r))"

section \<open>Invariants\<close>

primrec in_lock :: "'j wpc \<Rightarrow> bool" where
  "in_lock W_none = False" | "in_lock W_test = False" | "in_lock W_pop = False"
| "in_lock (W_lock_in j) = False" | "in_lock (W_read_in j) = True" | "in_lock (W_write_in j v) = True"
| "in_lock (W_unlock_in j) = True" | "in_lock (W_call j) = False" | "in_lock W_lock_out = False"
| "in_lock W_read_out = True" | "in_lock (W_write_out v) = True" | "in_lock W_unlock_out = True"
| "in_lock W_exit = False"

text \<open>Workers that are counted in \<^verbatim>\<open>running_num\<close>, and the element a worker has taken but not executed.\<close>

primrec counted :: "'j wpc \<Rightarrow> bool" where
  "counted W_none = False" | "counted W_test = False" | "counted W_pop = False"
| "counted (W_lock_in j) = False" | "counted (W_read_in j) = False" | "counted (W_write_in j v) = False"
| "counted (W_unlock_in j) = True" | "counted (W_call j) = True" | "counted W_lock_out = True"
| "counted W_read_out = True" | "counted (W_write_out v) = True" | "counted W_unlock_out = False"
| "counted W_exit = False"

primrec held :: "'j wpc \<Rightarrow> 'j multiset" where
  "held W_none = {#}" | "held W_test = {#}" | "held W_pop = {#}"
| "held (W_lock_in j) = {#j#}" | "held (W_read_in j) = {#j#}" | "held (W_write_in j v) = {#j#}"
| "held (W_unlock_in j) = {#j#}" | "held (W_call j) = {#j#}" | "held W_lock_out = {#}"
| "held W_read_out = {#}" | "held (W_write_out v) = {#}" | "held W_unlock_out = {#}"
| "held W_exit = {#}"

primrec stored :: "'j wpc \<Rightarrow> int option" where
  "stored W_none = None" | "stored W_test = None" | "stored W_pop = None"
| "stored (W_lock_in j) = None" | "stored (W_read_in j) = None" | "stored (W_write_in j v) = Some v"
| "stored (W_unlock_in j) = None" | "stored (W_call j) = None" | "stored W_lock_out = None"
| "stored W_read_out = None" | "stored (W_write_out v) = Some v" | "stored W_unlock_out = None"
| "stored W_exit = None"

definition ncounted :: "nat \<Rightarrow> (nat \<Rightarrow> 'j wpc) \<Rightarrow> int" where
  "ncounted n f = (\<Sum>t<n. of_bool (counted (f t)))"

definition nheld :: "nat \<Rightarrow> (nat \<Rightarrow> 'j wpc) \<Rightarrow> 'j multiset" where
  "nheld n f = (\<Sum>t<n. held (f t))"

definition lock_inv :: "nat \<Rightarrow> 'j worker_pool \<Rightarrow> bool" where
  "lock_inv n w \<longleftrightarrow> (\<forall>t. in_lock (workers w t) \<longleftrightarrow> statics_lock w = Some t) \<and>
     (\<forall>t v. stored (workers w t) = Some v \<longrightarrow> v = running_num w) \<and>
     running_num w = ncounted n (workers w)"

definition jobs_inv :: "nat \<Rightarrow> 'j worker_pool \<Rightarrow> bool" where
  "jobs_inv n w \<longleftrightarrow> wf_queue (wp_jq w) \<and> submitted w = started w @ get_queue (wp_jq w) \<and>
     mset (started w) = mset (executed w) + nheld n (workers w) \<and>
     \<not> worker_init_callback w \<and> callbacks w = 0"

definition life_inv :: "nat \<Rightarrow> 'j worker_pool \<Rightarrow> bool" where
  "life_inv n w \<longleftrightarrow> worker_num w = n \<and> running w \<and>
     (\<forall>t. (workers w t = W_none \<longleftrightarrow> n \<le> t) \<and> workers w t \<noteq> W_exit)"

definition wp_inv :: "nat \<Rightarrow> 'j worker_pool \<Rightarrow> bool" where
  "wp_inv n w \<longleftrightarrow> lock_inv n w \<and> jobs_inv n w \<and> life_inv n w"

lemma sum_split:
  fixes f :: "nat \<Rightarrow> 'c :: comm_monoid_add"
  assumes "t < n"
  shows "(\<Sum>u<n. f u) = f t + (\<Sum>u \<in> {..<n} - {t}. f u)"
  using assms by (intro sum.remove) auto

lemma ncounted_upd [simp]:
  assumes "t < n"
  shows "ncounted n (f(t := p)) = ncounted n f - of_bool (counted (f t)) + of_bool (counted p)"
  using sum_split [OF assms, of "\<lambda>u. of_bool (counted ((f(t := p)) u)) :: int"]
    sum_split [OF assms, of "\<lambda>u. of_bool (counted (f u)) :: int"]
  by (simp add: ncounted_def)

lemma nheld_upd [simp]:
  assumes "t < n"
  shows "nheld n (f(t := p)) = nheld n f - held (f t) + held p"
  using sum_split [OF assms, of "\<lambda>u. held ((f(t := p)) u)"] sum_split [OF assms, of "\<lambda>u. held (f u)"]
  by (simp add: nheld_def)

lemma held_subset: "t < n \<Longrightarrow> held (f t) \<subseteq># nheld n f"
  using sum_split [of t n "\<lambda>u. held (f u)"] by (simp add: nheld_def)

lemma worker_alive:
  assumes "life_inv n w" and "worker_step t w = Some w'"
  shows "t < n"
proof -
  have "workers w t \<noteq> W_none" using assms(2) by (auto simp: worker_step_def)
  then show ?thesis using assms(1) by (auto simp: life_inv_def not_le [symmetric])
qed

lemma wp_run_shape:
  assumes "wp_run qe w = Some w'"
  shows "\<not> is_full (wp_jq w)" "w' = w\<lparr>wp_jq := fst (push_body qe (wp_jq w)), submitted := submitted w @ [qe]\<rparr>"
  using assms by (auto simp: wp_run_def split: if_splits)

lemma worker_step_shape:
  assumes "worker_step t w = Some w'"
  shows "\<exists>p. workers w' = (workers w)(t := p) \<and> p \<noteq> W_none \<and> (running w \<longrightarrow> p \<noteq> W_exit) \<and>
    running w' = running w \<and> worker_num w' = worker_num w"
  using assms
  by (cases "workers w t") (auto simp: worker_step_def Let_def split: if_splits option.splits prod.splits)

lemma life_step:
  assumes L: "life_inv n w" and st: "worker_step t w = Some w'"
  shows "life_inv n w'"
proof -
  have "t < n" using worker_alive [OF assms] .
  moreover obtain p where "workers w' = (workers w)(t := p)" "p \<noteq> W_none" "running w \<longrightarrow> p \<noteq> W_exit"
      "running w' = running w" "worker_num w' = worker_num w"
    using worker_step_shape [OF st] by blast
  ultimately show ?thesis using L by (simp add: life_inv_def)
qed

lemma lock_step:
  assumes L: "lock_inv n w" and t: "t < n" and st: "worker_step t w = Some w'"
  shows "lock_inv n w'"
proof -
  have o: "in_lock (workers w u) \<longleftrightarrow> statics_lock w = Some u" for u using L by (simp add: lock_inv_def)
  have v: "v = running_num w" if "stored (workers w u) = Some v" for u v
    using L that unfolding lock_inv_def by blast
  have c: "running_num w = ncounted n (workers w)" using L by (simp add: lock_inv_def)
  have so: "statics_lock w = Some u" if "stored (workers w u) = Some v" for u v
    using that o [of u] by (cases "workers w u") auto
  have excl: "stored (workers w u) = None" if "stored (workers w t) \<noteq> None" "u \<noteq> t" for u
    using that so [of u] so [of t] by (cases "stored (workers w u)") auto
  have "\<forall>u. in_lock (workers w' u) \<longleftrightarrow> statics_lock w' = Some u"
    using st o [of t]
    by (cases "workers w t") (auto simp: worker_step_def Let_def o split: if_splits option.splits prod.splits)
  moreover have "\<forall>u v. stored (workers w' u) = Some v \<longrightarrow> v = running_num w'"
    using st excl v
    by (cases "workers w t") (auto simp: worker_step_def Let_def split: if_splits option.splits prod.splits)
  moreover have "running_num w' = ncounted n (workers w')"
    using st t c v [of t]
    by (cases "workers w t") (auto simp: worker_step_def Let_def split: if_splits option.splits prod.splits)
  ultimately show ?thesis by (simp add: lock_inv_def)
qed

lemma jobs_step:
  assumes J: "jobs_inv n w" and t: "t < n" and st: "worker_step t w = Some w'"
  shows "jobs_inv n w'"
proof (cases "workers w t = W_pop")
  case True
  then obtain qe q sig where pop: "pop_body (wp_jq w) = Some (qe, q, sig)" "\<not> is_empty (wp_jq w)"
      and w': "w' = w\<lparr>wp_jq := q, started := started w @ [qe], workers := (workers w)(t := W_lock_in qe)\<rparr>"
    using st by (auto simp: worker_step_def Let_def split: if_splits option.splits)
  then show ?thesis
    using J t tq.pop_Some [OF _ pop(2,1)] True by (simp add: jobs_inv_def)
next
  case False
  then show ?thesis
    using J t st held_subset [OF t, of "workers w"]
    by (cases "workers w t")
      (auto simp: worker_step_def jobs_inv_def Let_def split: if_splits)
qed

lemma wp_inv_run:
  assumes W: "wp_inv n w" and st: "wp_run qe w = Some w'"
  shows "wp_inv n w'"
proof -
  have "wf_queue (fst (push_body qe (wp_jq w))) \<and> get_queue (fst (push_body qe (wp_jq w))) = get_queue (wp_jq w) @ [qe]"
    using W wp_run_shape(1) [OF st] tq.push_spec [of "wp_jq w" qe] by (cases "push_body qe (wp_jq w)")
      (simp add: wp_inv_def jobs_inv_def)
  then show ?thesis
    using W by (simp add: wp_run_shape(2) [OF st] wp_inv_def jobs_inv_def lock_inv_def life_inv_def) metis
qed

lemma wp_inv_work: "wp_inv n w \<Longrightarrow> worker_step t w = Some w' \<Longrightarrow> wp_inv n w'"
  using worker_alive [of n w t w'] lock_step [of n w t w'] jobs_step [of n w t w'] life_step [of n w t w']
  by (simp add: wp_inv_def)

lemma wp_inv_step: "wp_inv n w \<Longrightarrow> wp_step w w' \<Longrightarrow> wp_inv n w'"
  by (erule wp_step.cases) (auto intro: wp_inv_run wp_inv_work)

lemma wp_inv_started:
  assumes "wp_started n w"
  shows "wp_inv n w"
proof -
  obtain cb r where w: "w = wp_start (worker_pool_new n cb r)" using assms by (auto simp: wp_started_def)
  have "workers w = (\<lambda>t. if t < n then W_test else W_none)"
    by (simp add: w wp_start_def worker_pool_new_def wp_init_def Let_def fun_eq_iff)
  moreover have "worker_num w = n" "running w" "statics_lock w = None" "running_num w = 0"
    "submitted w = []" "started w = []" "executed w = []" "callbacks w = 0" "\<not> worker_init_callback w"
    "wp_jq w = new_task_queue"
    by (simp_all add: w wp_start_def worker_pool_new_def wp_init_def Let_def)
  ultimately show ?thesis
    by (simp add: wp_inv_def lock_inv_def jobs_inv_def life_inv_def ncounted_def nheld_def get_queue_def)
      (simp add: new_task_queue_def not_less)
qed

interpretation wps: invariant_system "wp_started n" wp_step "wp_inv n" for n
  by unfold_locales (auto intro: wp_inv_started wp_inv_step)

section \<open>Properties\<close>

lemma ncounted_card: "ncounted n f = int (card {t. t < n \<and> counted (f t)})"
proof -
  have "ncounted n f = int (card ({..<n} \<inter> {t. counted (f t)}))"
    unfolding ncounted_def by (simp add: sum.If_cases of_bool_def)
  moreover have "{..<n} \<inter> {t. counted (f t)} = {t. t < n \<and> counted (f t)}" by auto
  ultimately show ?thesis by simp
qed

text \<open>Schedules, for examples: \<open>Inl t\<close> is a step of worker \<open>t\<close>, \<open>Inr j\<close> a call of \<^verbatim>\<open>run\<close>.\<close>

fun wp_trace :: "(nat + 'j) list \<Rightarrow> 'j worker_pool \<Rightarrow> 'j worker_pool option" where
  "wp_trace [] w = Some w"
| "wp_trace (Inl t # tr) w = do { w \<leftarrow> worker_step t w; wp_trace tr w }"
| "wp_trace (Inr j # tr) w = do { w \<leftarrow> wp_run j w; wp_trace tr w }"

lemma reach_trace:
  assumes "wp_trace tr (wp_start (worker_pool_new n cb r)) = Some w"
  shows "reach (wp_started n) wp_step w"
proof -
  have *: "reach (wp_started n) wp_step w'" if "wp_trace tr w = Some w'" "reach (wp_started n) wp_step w" for w w'
    using that
    by (induction tr w rule: wp_trace.induct)
      (auto simp: bind_eq_Some_conv dest: wp_step.intros reach_step)
  have "wp_started n (wp_start (worker_pool_new n cb r) :: 'a worker_pool)"
    by (auto simp: wp_started_def)
  then show ?thesis by (intro * [OF assms] reach_init)
qed

definition ex_schedule :: "(nat + nat) list" where
  "ex_schedule = [Inr 5, Inr 6, Inl 0, Inl 0, Inl 1, Inl 1, Inl 0, Inl 0, Inl 0, Inl 0, Inl 0]"

definition ex_pool :: "nat worker_pool" where
  "ex_pool = the (wp_trace ex_schedule (wp_start (worker_pool_new 2 False False)))"

lemma ex_pool_state:
  "wp_trace ex_schedule (wp_start (worker_pool_new 2 False False)) = Some ex_pool"
  "submitted ex_pool = [5, 6]" "executed ex_pool = [5]" "workers ex_pool 1 = W_lock_in 6"
  "running_num ex_pool = 1"
  by (simp_all add: ex_pool_def ex_schedule_def wp_run_def worker_step_def wp_start_def worker_pool_new_def wp_init_def
      is_full_def is_empty_def push_body_def pop_body_def get_queue_def new_task_queue_def Let_def)

lemmas ex_pool_reach = reach_trace [OF ex_pool_state(1)]

text \<open>
  C10: in a started pool, under every interleaving of \<^verbatim>\<open>run\<close> and the workers, every submitted job is
  waiting in the queue, or held by one worker, or has been executed once; jobs are taken in the
  order of submission.
\<close>

theorem worker_pool_exactly_once:
  assumes "reach (wp_started n) wp_step w"
  shows "submitted w = started w @ q_elems (wp_jq w) \<and>
    mset (submitted w) = mset (q_elems (wp_jq w)) + (\<Sum>t<n. held (workers w t)) + mset (executed w)"
  using wps.reach_inv [OF assms] by (simp add: wp_inv_def jobs_inv_def get_queue_def nheld_def)

theorem worker_pool_exactly_once_witness:
  "submitted ex_pool = [5, 6] \<and> started ex_pool @ q_elems (wp_jq ex_pool) = [5, 6]"
  using worker_pool_exactly_once [OF ex_pool_reach] by (simp add: ex_pool_state)

text \<open>
  C11: \<^verbatim>\<open>running_num\<close> loses no update: it is the number of workers between the end of the first and
  the write of the second critical section, so between 0 and the number of workers.
\<close>

theorem worker_pool_running_num:
  assumes "reach (wp_started n) wp_step w"
  shows "getRunnningWorkerNum w = int (card {t. t < n \<and> counted (workers w t)}) \<and>
    0 \<le> getRunnningWorkerNum w \<and> getRunnningWorkerNum w \<le> int n"
proof -
  have "card {t. t < n \<and> counted (workers w t)} \<le> card {..<n}" by (intro card_mono) auto
  then show ?thesis
    using wps.reach_inv [OF assms]
    by (simp add: wp_inv_def lock_inv_def ncounted_card getRunnningWorkerNum_def)
qed

theorem worker_pool_running_num_witness:
  "getRunnningWorkerNum ex_pool = 1 \<and> card {t. t < 2 \<and> counted (workers ex_pool t)} = 1"
  using worker_pool_running_num [OF ex_pool_reach] by (simp add: ex_pool_state getRunnningWorkerNum_def)

text \<open>
  C12: no worker of a started pool ever leaves its loop, because nothing resets \<^verbatim>\<open>running\<close>; so \<^verbatim>\<open>stop\<close>,
  which the destructor calls, never returns for a pool with at least one worker.
\<close>

theorem worker_pool_stop_blocks:
  assumes "reach (wp_started n) wp_step w" and "0 < n"
  shows "\<not> stop_returns w \<and> (\<forall>t. workers w t \<noteq> W_exit)"
  using wps.reach_inv [OF assms(1)] assms(2) by (auto simp: wp_inv_def life_inv_def stop_returns_def)

theorem worker_pool_stop_blocks_witness:
  "\<not> stop_returns ex_pool \<and> executed ex_pool = [5]"
  using worker_pool_stop_blocks [OF ex_pool_reach] by (simp add: ex_pool_state)

text \<open>
  The callback passed to the three-argument constructor is dropped: the pool built with it is the
  pool built without, and no reachable state has called it.
\<close>

theorem worker_pool_callback_ignored:
  "(worker_pool_new n True r :: 'j worker_pool) = worker_pool_new n False r \<and>
   (\<forall>w :: 'j worker_pool. reach (wp_started n) wp_step w \<longrightarrow> callbacks w = 0)"
proof -
  have "callbacks w = 0" if "reach (wp_started n) wp_step w" for w :: "'j worker_pool"
    using wps.reach_inv [OF that] by (simp add: wp_inv_def jobs_inv_def)
  then show ?thesis by (simp add: worker_pool_new_def)
qed

theorem worker_pool_callback_ignored_witness:
  "callbacks ex_pool = 0 \<and> executed ex_pool = [5]"
  using worker_pool_callback_ignored [where 'j = nat, of 2 False] ex_pool_reach ex_pool_state(3) by blast

end
