(* ===== verification/Stage_Start.thy ===== *)
theory Stage_Start
  imports Stage Worker_Pool
begin

text \<open>
  How a stage comes up: \<^verbatim>\<open>stage.cpp\<close>, the set-up part of \<^verbatim>\<open>sender.cpp\<close>, \<^verbatim>\<open>receiver.cpp\<close>, \<^verbatim>\<open>stage_handler.cpp\<close>
  and \<^verbatim>\<open>stage_control.cpp\<close>, the wrappers of \<^verbatim>\<open>stage_queue.cpp\<close> and \<^verbatim>\<open>runStage\<close> of \<^verbatim>\<open>main.cpp\<close>. \<^verbatim>\<open>stage::init\<close> submits
  three loops to the pool of the stage; \<^verbatim>\<open>runStage\<close> sets the handler's function afterwards, while the
  workers already run.
\<close>

section \<open>The parts\<close>

text \<open>
  ZeroMQ as the sources use it: whether a context and a socket are created, and the results of the
  calls that connect them.
\<close>

record zmq_api =
  zmq_ctx_new :: bool
  zmq_socket :: bool
  zmq_bind :: "string \<Rightarrow> int"
  zmq_connect :: "string \<Rightarrow> int"
  zmq_setsockopt :: int

definition c_assert :: "bool \<Rightarrow> unit result" where
  "c_assert b = (if b then Inr () else Inl Assert_failed)"

text \<open>\<^verbatim>\<open>sender::init\<close>: a publisher that cannot be bound ends the process.\<close>

definition sender_init :: "zmq_api \<Rightarrow> string \<Rightarrow> unit result" where
  "sender_init z addr =
     res_bind (c_assert (zmq_ctx_new z)) (\<lambda>_.
     res_bind (c_assert (zmq_socket z)) (\<lambda>_.
     if zmq_bind z addr \<noteq> 0 then Inl Exited else Inr ()))"

text \<open>\<^verbatim>\<open>sender::run\<close>: the loop is left in its first turn.\<close>

definition sender_run :: "bool \<Rightarrow> bool" where
  "sender_run is_running = True"

text \<open>
  \<^verbatim>\<open>receiver::run\<close> up to its loop: only the first of the resources is connected. The result is the
  field \<^verbatim>\<open>running\<close>: on \<open>False\<close> the function has returned, on \<open>True\<close> it loops.
\<close>

definition receiver_connect :: "zmq_api \<Rightarrow> string list \<Rightarrow> bool result" where
  "receiver_connect z res =
     res_bind (c_assert (zmq_ctx_new z)) (\<lambda>_.
     res_bind (c_assert (zmq_socket z)) (\<lambda>_.
     case res of
       [] \<Rightarrow> Inl Out_of_bounds
     | r # _ \<Rightarrow> if zmq_connect z r \<noteq> 0 then Inr False else Inr (zmq_setsockopt z = 0)))"

text \<open>One turn of that loop: a failed \<^verbatim>\<open>zmq_recv\<close> is skipped.\<close>

definition receiver_turn :: "element list \<Rightarrow> byte list option \<Rightarrow> (element list \<times> bool) result" where
  "receiver_turn elements nrecv = (case nrecv of None \<Rightarrow> Inr (elements, False) | Some msg \<Rightarrow> receive elements msg)"

text \<open>The queue of a stage: casts around the task queue.\<close>

definition qpush :: "element \<Rightarrow> element task_queue \<Rightarrow> element task_queue option" where
  "qpush ie q = (if is_full q then None else Some (fst (push_body ie q)))"

definition qpop :: "element task_queue \<Rightarrow> (element \<times> element task_queue) option" where
  "qpop q = (if is_empty q then None else map_option (\<lambda>(ie, q, _). (ie, q)) (pop_body q))"

text \<open>
  The class \<^verbatim>\<open>Function\<close>: a pointer to a function (\<open>None\<close> for \<^verbatim>\<open>NULL\<close>) and its argument. The default constructor
  builds a temporary in its body and leaves its own members as they are, \<open>self\<close>.
\<close>

record 'f function_object =
  fo_f :: "'f option"
  fo_arg :: nat

definition Function_new :: "'f option \<Rightarrow> nat \<Rightarrow> 'f function_object" where
  "Function_new f arg = \<lparr>fo_f = f, fo_arg = arg\<rparr>"

definition Function_default :: "'f function_object \<Rightarrow> 'f function_object" where
  "Function_default self = (let temporary = Function_new None 0 :: 'f function_object in self)"

definition getFunction :: "'f function_object \<Rightarrow> 'f option" where
  "getFunction fo = fo_f fo"

definition getArg :: "'f function_object \<Rightarrow> nat" where
  "getArg fo = fo_arg fo"

definition setFunction :: "'f option \<Rightarrow> 'f function_object \<Rightarrow> 'f function_object" where
  "setFunction f fo = fo\<lparr>fo_f := f\<rparr>"

text \<open>So a handler made with the default constructor can start with any function, \<open>f0\<close> below.\<close>

lemma default_function_any: "\<exists>self. getFunction (Function_default self) = f0"
  by (rule exI [of _ "Function_new f0 0"]) (simp add: getFunction_def Function_default_def Function_new_def)

section \<open>A stage\<close>

text \<open>The functions a stage submits to its pool.\<close>

datatype stage_job = Job_receiver | Job_control | Job_handler | Job_element

text \<open>
  \<open>st_fun\<close> is the function of the handler, \<open>None\<close> for \<^verbatim>\<open>NULL\<close>; \<open>st_pool\<close> the worker pool; a null
  pointer of \<^verbatim>\<open>reg_mem\<close> is 0.
\<close>

record 'f stage =
  st_name :: string
  st_resources :: "string list"
  st_des :: string
  st_reg_mem :: "nat list"
  st_addr :: string
  st_fun :: "'f option"
  st_pool :: "stage_job worker_pool"

definition REG_MEM :: nat where
  "REG_MEM = 16"

text \<open>The constructor; the handler and the pool do not exist yet, \<open>sh\<close> and \<open>wp\<close> stand for them.\<close>

definition stage_new :: "'f option \<Rightarrow> stage_job worker_pool \<Rightarrow> string \<Rightarrow> 'f stage" where
  "stage_new sh wp name = \<lparr>st_name = name, st_resources = [], st_des = [], st_reg_mem = replicate REG_MEM 0,
     st_addr = [], st_fun = sh, st_pool = wp\<rparr>"

definition get_stage_name :: "'f stage \<Rightarrow> string" where
  "get_stage_name st = st_name st"

definition setResources :: "string list \<Rightarrow> 'f stage \<Rightarrow> 'f stage" where
  "setResources res st = st\<lparr>st_resources := res\<rparr>"

definition setDestination :: "string \<Rightarrow> 'f stage \<Rightarrow> 'f stage" where
  "setDestination des st = st\<lparr>st_des := des\<rparr>"

text \<open>The destructor frees the registered memory and then the table: the pointers passed to \<^verbatim>\<open>free\<close>.\<close>

definition stage_frees :: "'f stage \<Rightarrow> nat list" where
  "stage_frees st = filter (\<lambda>p. p \<noteq> 0) (st_reg_mem st)"

text \<open>\<^verbatim>\<open>stage_handler::setAddr\<close> hands the address to the sender and binds it.\<close>

definition setAddr :: "zmq_api \<Rightarrow> string \<Rightarrow> 'f stage \<Rightarrow> 'f stage result" where
  "setAddr z addr st = res_bind (sender_init z addr) (\<lambda>_. Inr (st\<lparr>st_addr := addr\<rparr>))"

definition setHandler :: "'f \<Rightarrow> 'f stage \<Rightarrow> 'f stage" where
  "setHandler f st = st\<lparr>st_fun := Some f\<rparr>"

text \<open>
  \<^verbatim>\<open>stage::init\<close>. The new handler's function is \<open>f0\<close>: the constructor of \<^verbatim>\<open>Function\<close> builds a temporary and
  leaves the members as they are. \<open>r\<close> is the indeterminate field \<^verbatim>\<open>running\<close> of the new pool. \<^verbatim>\<open>run\<close> blocks on a
  full queue: \<open>Inr None\<close>.
\<close>

definition submit :: "stage_job list \<Rightarrow> stage_job worker_pool \<Rightarrow> stage_job worker_pool option" where
  "submit js w = fold (\<lambda>j w. w \<bind> wp_run j) js (Some w)"

definition stage_init :: "zmq_api \<Rightarrow> 'f option \<Rightarrow> bool \<Rightarrow> 'f stage \<Rightarrow> 'f stage option result" where
  "stage_init z f0 r st =
     (let wp = worker_pool_new default_worker_num False r;
          st = st\<lparr>st_fun := f0, st_pool := wp\<rparr>
      in res_bind (setAddr z (st_des st) st) (\<lambda>st.
         Inr (case submit [Job_receiver, Job_control, Job_handler] (wp_start (st_pool st)) of
                None \<Rightarrow> None
              | Some wp \<Rightarrow> Some (st\<lparr>st_pool := wp\<rparr>))))"

text \<open>
  The head of \<^verbatim>\<open>stage_handler::run\<close>: without a function it returns. \<^verbatim>\<open>stage_control::run\<close> prints
  the number of busy workers while its \<^verbatim>\<open>running\<close> is set, which nothing resets.
\<close>

definition handler_enters_loop :: "'f stage \<Rightarrow> bool" where
  "handler_enters_loop st \<longleftrightarrow> st_fun st \<noteq> None"

definition control_report :: "'f stage \<Rightarrow> int" where
  "control_report st = getRunnningWorkerNum (st_pool st)"

section \<open>Start-up, interleaved\<close>

text \<open>
  After \<^verbatim>\<open>init\<close>, \<^verbatim>\<open>runStage\<close> calls \<^verbatim>\<open>setHandler\<close> once and then spins in \<^verbatim>\<open>stage::run\<close>, while the workers of the pool run.
  The receiver returns if it cannot connect or subscribe, and loops else, like the control. The handler
  tests its function and returns, or loops and submits a job for each element it fetches, whenever one
  has arrived; such a job is run to its end by a worker (what it does to the element is in \<open>Stage\<close>).
\<close>

record 'f boot =
  bt_stage :: "'f stage"
  bt_handler_set :: bool
  bt_handler_loops :: bool

inductive boot_step :: "zmq_api \<Rightarrow> 'f \<Rightarrow> 'f boot \<Rightarrow> 'f boot \<Rightarrow> bool" for z f where
  boot_set: "\<not> bt_handler_set b \<Longrightarrow>
    boot_step z f b (b\<lparr>bt_stage := setHandler f (bt_stage b), bt_handler_set := True\<rparr>)"
| boot_work: "\<forall>j. workers (st_pool (bt_stage b)) t = W_call j \<longrightarrow> j = Job_element \<Longrightarrow>
    worker_step t (st_pool (bt_stage b)) = Some w \<Longrightarrow>
    boot_step z f b (b\<lparr>bt_stage := (bt_stage b)\<lparr>st_pool := w\<rparr>\<rparr>)"
| boot_receiver_return: "workers (st_pool (bt_stage b)) t = W_call Job_receiver \<Longrightarrow>
    receiver_connect z (st_resources (bt_stage b)) = Inr False \<Longrightarrow> worker_step t (st_pool (bt_stage b)) = Some w \<Longrightarrow>
    boot_step z f b (b\<lparr>bt_stage := (bt_stage b)\<lparr>st_pool := w\<rparr>\<rparr>)"
| boot_loop: "workers (st_pool (bt_stage b)) t = W_call Job_handler \<Longrightarrow> handler_enters_loop (bt_stage b) \<Longrightarrow>
    boot_step z f b (b\<lparr>bt_handler_loops := True\<rparr>)"
| boot_submit: "bt_handler_loops b \<Longrightarrow> wp_run Job_element (st_pool (bt_stage b)) = Some w \<Longrightarrow>
    boot_step z f b (b\<lparr>bt_stage := (bt_stage b)\<lparr>st_pool := w\<rparr>\<rparr>)"
| boot_return: "workers (st_pool (bt_stage b)) t = W_call Job_handler \<Longrightarrow> \<not> bt_handler_loops b \<Longrightarrow>
    \<not> handler_enters_loop (bt_stage b) \<Longrightarrow> worker_step t (st_pool (bt_stage b)) = Some w \<Longrightarrow>
    boot_step z f b (b\<lparr>bt_stage := (bt_stage b)\<lparr>st_pool := w\<rparr>\<rparr>)"

definition boot_start :: "zmq_api \<Rightarrow> 'f option \<Rightarrow> bool \<Rightarrow> 'f stage \<Rightarrow> 'f boot \<Rightarrow> bool" where
  "boot_start z f0 r st b \<longleftrightarrow>
     (\<exists>st'. stage_init z f0 r st = Inr (Some st') \<and> b = \<lparr>bt_stage = st', bt_handler_set = False, bt_handler_loops = False\<rparr>)"

section \<open>Lemmas\<close>

lemma wp_started_new: "wp_started n (wp_start (worker_pool_new n cb r))"
  by (auto simp: wp_started_def)

lemma pool_start_fields [simp]:
  "wp_jq (wp_start (worker_pool_new n cb r)) = new_task_queue"
  "submitted (wp_start (worker_pool_new n cb r)) = []"
  "workers (wp_start (worker_pool_new n cb r)) = (\<lambda>t. if t < n then W_test else W_none)"
  by (simp_all add: wp_start_def worker_pool_new_def wp_init_def Let_def fun_eq_iff)

text \<open>Submission to a pool with room: the jobs are appended in order, the workers are not touched.\<close>

lemma submit_Nil [simp]: "submit [] w = Some w"
  by (simp add: submit_def)

lemma submit_Cons [simp]: "submit (j # js) w = wp_run j w \<bind> submit js"
proof -
  have "fold (\<lambda>j w. w \<bind> wp_run j) js None = None" by (induction js) auto
  then show ?thesis by (cases "wp_run j w") (simp_all add: submit_def)
qed

lemma submit_ok:
  assumes "wp_inv n w" and "max_queue_size (wp_jq w) = 2000" and "length (q_elems (wp_jq w)) + length js < 2000"
  shows "\<exists>w'. submit js w = Some w' \<and> wp_inv n w' \<and> submitted w' = submitted w @ js \<and>
    q_elems (wp_jq w') = q_elems (wp_jq w) @ js \<and> workers w' = workers w \<and> executed w' = executed w"
  using assms
proof (induction js arbitrary: w)
  case (Cons j js)
  have wf: "wf_queue (wp_jq w)" using Cons.prems(1) by (simp add: wp_inv_def jobs_inv_def)
  then have room: "\<not> is_full (wp_jq w)"
    using Cons.prems(2,3) by (auto simp: wf_queue_def is_full_def)
  obtain q sig where q: "push_body j (wp_jq w) = (q, sig)" by fastforce
  let ?w = "w\<lparr>wp_jq := q, submitted := submitted w @ [j]\<rparr>"
  have w: "wp_run j w = Some ?w" using room q by (simp add: wp_run_def)
  have "q_elems q = q_elems (wp_jq w) @ [j]" "max_queue_size q = 2000"
    using tq.push_spec [OF wf room q] Cons.prems(2) by (simp_all add: get_queue_def)
  then show ?case
    using Cons.IH [of ?w] wp_inv_run [OF Cons.prems(1) w] Cons.prems(3) w by auto
qed simp

lemma stage_init_ok:
  assumes "zmq_ctx_new z" and "zmq_socket z" and "zmq_bind z (st_des st) = 0"
  shows "\<exists>wp. stage_init z f0 r st = Inr (Some (st\<lparr>st_fun := f0, st_addr := st_des st, st_pool := wp\<rparr>)) \<and>
    wp_inv default_worker_num wp \<and> submitted wp = [Job_receiver, Job_control, Job_handler] \<and>
    q_elems (wp_jq wp) = [Job_receiver, Job_control, Job_handler] \<and>
    workers wp = (\<lambda>t. if t < default_worker_num then W_test else W_none) \<and> executed wp = []"
proof -
  let ?w = "wp_start (worker_pool_new default_worker_num False r) :: stage_job worker_pool"
  have "executed ?w = []" by (simp add: wp_start_def worker_pool_new_def wp_init_def Let_def)
  then show ?thesis
    using submit_ok [OF wp_inv_started [OF wp_started_new], of default_worker_num False r "[Job_receiver, Job_control, Job_handler]"] assms
    by (auto simp: stage_init_def setAddr_def sender_init_def c_assert_def new_task_queue_def Let_def
        simp del: submit_Cons)
qed

text \<open>
  During start-up the handler is one job of the pool; its function is \<open>f0\<close> until it is set. It returns
  only if \<open>f0\<close> is \<^verbatim>\<open>NULL\<close>, and elements are submitted only by a handler that loops.
\<close>

definition boot_inv :: "'f option \<Rightarrow> 'f \<Rightarrow> 'f boot \<Rightarrow> bool" where
  "boot_inv f0 f b \<longleftrightarrow> (let st = bt_stage b; wp = st_pool st in
     wp_inv default_worker_num wp \<and>
     (\<exists>k. submitted wp = [Job_receiver, Job_control, Job_handler] @ replicate k Job_element \<and> (0 < k \<longrightarrow> bt_handler_loops b)) \<and>
     st_fun st = (if bt_handler_set b then Some f else f0) \<and>
     (Job_handler \<in> set (executed wp) \<longrightarrow> f0 = None) \<and>
     (bt_handler_loops b \<longrightarrow> (bt_handler_set b \<or> f0 \<noteq> None) \<and> (\<exists>t < default_worker_num. workers wp t = W_call Job_handler)))"

lemma worker_step_keeps:
  assumes "worker_step t w = Some w'"
  shows "submitted w' = submitted w" and "u \<noteq> t \<Longrightarrow> workers w' u = workers w u"
  using assms
  by (cases "workers w t"; auto simp: worker_step_def Let_def split: if_splits option.splits prod.splits)+

lemma worker_step_executed:
  assumes "worker_step t w = Some w'" and "workers w t \<noteq> W_call j"
  shows "j \<in> set (executed w') \<longleftrightarrow> j \<in> set (executed w)"
  using assms
  by (cases "workers w t"; auto simp: worker_step_def Let_def split: if_splits option.splits prod.splits)

text \<open>A worker's step that does not end the handler.\<close>

lemma boot_inv_worker:
  assumes "boot_inv f0 f b" and "worker_step t (st_pool (bt_stage b)) = Some w"
    and "workers (st_pool (bt_stage b)) t \<noteq> W_call Job_handler"
  shows "boot_inv f0 f (b\<lparr>bt_stage := (bt_stage b)\<lparr>st_pool := w\<rparr>\<rparr>)"
proof -
  note k = worker_step_keeps [OF assms(2)]
  have "workers w u = W_call Job_handler" if "workers (st_pool (bt_stage b)) u = W_call Job_handler" for u
    using that assms(3) k(2) [of u] by (cases "u = t") auto
  moreover have "Job_handler \<in> set (executed w) \<longleftrightarrow> Job_handler \<in> set (executed (st_pool (bt_stage b)))"
    by (rule worker_step_executed [OF assms(2,3)])
  ultimately show ?thesis
    using assms(1) k(1) wp_inv_work [OF _ assms(2)] by (auto simp: boot_inv_def Let_def)
qed

lemma boot_inv_step:
  assumes "boot_inv f0 f b" and "boot_step z f b b'"
  shows "boot_inv f0 f b'"
  using assms(2)
proof cases
  case boot_set
  then show ?thesis using assms(1) by (simp add: boot_inv_def setHandler_def Let_def)
next
  case (boot_work t w)
  then show ?thesis using boot_inv_worker [OF assms(1) boot_work(3)] by auto
next
  case (boot_receiver_return t w)
  then show ?thesis using boot_inv_worker [OF assms(1) boot_receiver_return(4)] by simp
next
  case (boot_loop t)
  then have "workers (st_pool (bt_stage b)) t \<noteq> W_none" by simp
  moreover have "wp_inv default_worker_num (st_pool (bt_stage b))" using assms(1) by (simp add: boot_inv_def Let_def)
  ultimately have "t < default_worker_num" by (auto simp: wp_inv_def life_inv_def not_le [symmetric])
  then show ?thesis using assms(1) boot_loop by (auto simp: boot_inv_def handler_enters_loop_def Let_def split: if_splits)
next
  case (boot_submit w)
  let ?w = "st_pool (bt_stage b)"
  have w: "w = ?w\<lparr>wp_jq := fst (push_body Job_element (wp_jq ?w)), submitted := submitted ?w @ [Job_element]\<rparr>"
    using boot_submit(3) by (simp add: wp_run_def split: if_splits)
  obtain k where k: "submitted ?w = [Job_receiver, Job_control, Job_handler] @ replicate k Job_element"
    using assms(1) by (auto simp: boot_inv_def Let_def)
  have "submitted w = [Job_receiver, Job_control, Job_handler] @ replicate (Suc k) Job_element"
    by (simp add: w k replicate_append_same)
  moreover have "wp_inv default_worker_num w"
    using assms(1) wp_inv_run [OF _ boot_submit(3)] by (simp add: boot_inv_def Let_def)
  ultimately show ?thesis
    using assms(1) boot_submit(1,2) w unfolding boot_inv_def Let_def by (auto intro!: exI [of _ "Suc k"])
next
  case (boot_return t w)
  have "st_fun (bt_stage b) = None" using boot_return(4) by (simp add: handler_enters_loop_def)
  then have "f0 = None" using assms(1) by (auto simp: boot_inv_def Let_def split: if_splits)
  then show ?thesis
    using assms(1) boot_return(1,3) worker_step_keeps(1) [OF boot_return(5)] wp_inv_work [OF _ boot_return(5)]
    by (auto simp: boot_inv_def Let_def)
qed

interpretation bts: invariant_system "boot_start z f0 r st" "boot_step z f" "boot_inv f0 f" for z f0 r st f
proof unfold_locales
  fix b assume "boot_start z f0 r st b"
  then obtain st' where st': "stage_init z f0 r st = Inr (Some st')"
      and b: "b = \<lparr>bt_stage = st', bt_handler_set = False, bt_handler_loops = False\<rparr>"
    by (auto simp: boot_start_def)
  from st' have "zmq_ctx_new z" "zmq_socket z" "zmq_bind z (st_des st) = 0"
    by (auto simp: stage_init_def setAddr_def sender_init_def c_assert_def Let_def split: if_splits)
  from stage_init_ok [OF this, of f0 r] st' b show "boot_inv f0 f b"
    by (auto simp: boot_inv_def intro!: exI [of _ 0])
qed (rule boot_inv_step)

text \<open>The handler is submitted once: it is executed, held by a worker or queued, and not two of these.\<close>

lemma handler_once:
  assumes "boot_inv f0 f b"
  shows "count (mset (executed (st_pool (bt_stage b)))) Job_handler + count (nheld 20 (workers (st_pool (bt_stage b)))) Job_handler +
    count (mset (q_elems (wp_jq (st_pool (bt_stage b))))) Job_handler = 1"
proof -
  let ?w = "st_pool (bt_stage b)"
  have "mset (executed ?w) + nheld 20 (workers ?w) + mset (q_elems (wp_jq ?w)) = mset (submitted ?w)"
    using assms by (auto simp: boot_inv_def wp_inv_def jobs_inv_def default_worker_num_def get_queue_def Let_def
        dest: arg_cong [where f = mset])
  moreover obtain k where "submitted ?w = [Job_receiver, Job_control, Job_handler] @ replicate k Job_element"
    using assms by (auto simp: boot_inv_def Let_def)
  ultimately have "count (mset (executed ?w) + nheld 20 (workers ?w) + mset (q_elems (wp_jq ?w))) Job_handler = 1" by simp
  then show ?thesis by simp
qed

text \<open>Schedules of workers that do not finish a job.\<close>

fun boot_trace :: "nat list \<Rightarrow> stage_job worker_pool \<Rightarrow> stage_job worker_pool option" where
  "boot_trace [] w = Some w"
| "boot_trace (t # ts) w =
     (case workers w t of W_call j \<Rightarrow> None | _ \<Rightarrow> worker_step t w \<bind> boot_trace ts)"

lemma boot_trace_reach:
  assumes "boot_trace ts (st_pool (bt_stage b)) = Some w" and "reach I (boot_step z f) b"
  shows "reach I (boot_step z f) (b\<lparr>bt_stage := (bt_stage b)\<lparr>st_pool := w\<rparr>\<rparr>)"
  using assms
proof (induction ts arbitrary: b)
  case (Cons t ts)
  let ?p = "st_pool (bt_stage b)"
  obtain v where v: "worker_step t ?p = Some v" "boot_trace ts v = Some w" and t: "\<And>j. workers ?p t \<noteq> W_call j"
    using Cons.prems(1) by (auto simp: bind_eq_Some_conv split: wpc.splits)
  let ?b = "b\<lparr>bt_stage := (bt_stage b)\<lparr>st_pool := v\<rparr>\<rparr>"
  have "boot_step z f b ?b" by (rule boot_work [OF _ v(1)]) (simp add: t)
  with Cons.prems(2) have "reach I (boot_step z f) ?b" by (rule reach_step)
  from Cons.IH [OF _ this] v(2) show ?case by simp
next
  case Nil
  then have "b\<lparr>bt_stage := (bt_stage b)\<lparr>st_pool := w\<rparr>\<rparr> = b" by (cases b, cases "bt_stage b") auto
  then show ?case using Nil.prems(2) by (simp only:)
qed

definition ex_zmq :: zmq_api where
  "ex_zmq = \<lparr>zmq_ctx_new = True, zmq_socket = True, zmq_bind = (\<lambda>_. 0), zmq_connect = (\<lambda>_. 0), zmq_setsockopt = 0\<rparr>"

text \<open>The three loops have been taken by the first three workers.\<close>

definition taken_schedule :: "nat list" where
  "taken_schedule = [0, 0, 0, 0, 0, 0, 1, 1, 1, 1, 1, 1, 2, 2, 2, 2, 2, 2]"

lemma taken:
  assumes "stage_init ex_zmq f0 r st = Inr (Some st')"
  shows "\<exists>w. boot_trace taken_schedule (st_pool st') = Some w \<and> workers w 2 = W_call Job_handler \<and>
    workers w 0 = W_call Job_receiver \<and> workers w 1 = W_call Job_control \<and> \<not> worker_init_callback w"
  using assms
  by (auto simp: stage_init_def setAddr_def sender_init_def c_assert_def ex_zmq_def taken_schedule_def Let_def
      wp_run_def worker_step_def wp_start_def worker_pool_new_def wp_init_def default_worker_num_def
      is_full_def is_empty_def push_body_def pop_body_def get_queue_def new_task_queue_def)

lemma boot_taken:
  "\<exists>b. reach (boot_start ex_zmq None r st) (boot_step ex_zmq f) b \<and> \<not> bt_handler_set b \<and> \<not> bt_handler_loops b \<and>
    st_fun (bt_stage b) = None \<and> workers (st_pool (bt_stage b)) 2 = W_call Job_handler \<and>
    workers (st_pool (bt_stage b)) 0 = W_call Job_receiver \<and> workers (st_pool (bt_stage b)) 1 = W_call Job_control \<and>
    \<not> worker_init_callback (st_pool (bt_stage b))"
proof -
  obtain st' where st': "stage_init ex_zmq None r st = Inr (Some st')" "st_fun st' = None"
    using stage_init_ok [of ex_zmq st None r] by (auto simp: ex_zmq_def)
  let ?b = "\<lparr>bt_stage = st', bt_handler_set = False, bt_handler_loops = False\<rparr>"
  have r0: "reach (boot_start ex_zmq None r st) (boot_step ex_zmq f) ?b"
    by (rule reach_init) (use st'(1) in \<open>simp add: boot_start_def\<close>)
  obtain w where w: "boot_trace taken_schedule (st_pool st') = Some w" "workers w 2 = W_call Job_handler"
      "workers w 0 = W_call Job_receiver" "workers w 1 = W_call Job_control" "\<not> worker_init_callback w"
    using taken [OF st'(1)] by blast
  have "reach (boot_start ex_zmq None r st) (boot_step ex_zmq f) (?b\<lparr>bt_stage := (bt_stage ?b)\<lparr>st_pool := w\<rparr>\<rparr>)"
    by (rule boot_trace_reach [OF _ r0]) (use w in simp)
  then show ?thesis
    using w st'(2) by (intro exI [of _ "?b\<lparr>bt_stage := (bt_stage ?b)\<lparr>st_pool := w\<rparr>\<rparr>"]) simp
qed

section \<open>Properties\<close>

text \<open>
  \<^verbatim>\<open>stage::init\<close> either fails as ZeroMQ does (an \<^verbatim>\<open>assert\<close> on a missing context or socket, \<^verbatim>\<open>exit\<close> when the
  destination cannot be bound), or returns with the three loops of the stage queued in the
  order receiver, control, handler, the sender bound to the destination, all 20 workers started and the handler's
  function as the constructor left it.
\<close>

theorem stage_init_result:
  "if \<not> (zmq_ctx_new z \<and> zmq_socket z) then stage_init z f0 r st = Inl Assert_failed
   else if zmq_bind z (st_des st) \<noteq> 0 then stage_init z f0 r st = Inl Exited
   else \<exists>wp. stage_init z f0 r st = Inr (Some (st\<lparr>st_fun := f0, st_addr := st_des st, st_pool := wp\<rparr>)) \<and>
     q_elems (wp_jq wp) = [Job_receiver, Job_control, Job_handler] \<and> executed wp = [] \<and>
     workers wp = (\<lambda>t. if t < 20 then W_test else W_none)"
  using stage_init_ok [of z st f0 r]
  by (auto simp: stage_init_def setAddr_def sender_init_def c_assert_def default_worker_num_def Let_def simp del: submit_Cons)

text \<open>
  C34: the handler of a starting stage, for whatever pointer \<open>f0\<close> the constructor of \<^verbatim>\<open>Function\<close> left behind. In every state
  of the start-up its function is \<open>f0\<close> until \<^verbatim>\<open>setHandler\<close> is called, and the one set after that. It loops only with a
  function other than \<^verbatim>\<open>NULL\<close>, so before \<^verbatim>\<open>setHandler\<close> only if \<open>f0\<close> is garbage, and jobs for elements exist only if it loops.
  If it has returned, then \<open>f0\<close> was \<^verbatim>\<open>NULL\<close>, it does not loop, no worker will run it again, and no
  element is ever handled.
\<close>

theorem stage_start_handler:
  assumes "reach (boot_start z f0 r st) (boot_step z f) b"
  shows "st_fun (bt_stage b) = (if bt_handler_set b then Some f else f0) \<and>
    (bt_handler_loops b \<longrightarrow> st_fun (bt_stage b) \<noteq> None \<and> (f0 = None \<longrightarrow> bt_handler_set b)) \<and>
    (Job_element \<in> set (submitted (st_pool (bt_stage b))) \<longrightarrow> bt_handler_loops b) \<and>
    (Job_handler \<in> set (executed (st_pool (bt_stage b))) \<longrightarrow> f0 = None \<and>
       \<not> bt_handler_loops b \<and> Job_handler \<notin> set (q_elems (wp_jq (st_pool (bt_stage b)))) \<and>
       (\<forall>t < 20. workers (st_pool (bt_stage b)) t \<noteq> W_call Job_handler))"
proof -
  let ?w = "st_pool (bt_stage b)"
  have inv: "boot_inv f0 f b" using assms by (rule bts.reach_inv)
  note one = handler_once [OF inv]
  have held: "0 < count (nheld 20 (workers ?w)) Job_handler" if "t < 20" "workers ?w t = W_call Job_handler" for t
    using held_subset [OF that(1), of "workers ?w"] that(2) by (simp add: count_greater_zero_iff)
  have loops: "(bt_handler_set b \<or> f0 \<noteq> None) \<and> (\<exists>t < 20. workers ?w t = W_call Job_handler)"
    if "bt_handler_loops b"
    using inv that by (auto simp: boot_inv_def default_worker_num_def Let_def)
  show ?thesis
  proof (intro conjI impI)
    assume "Job_handler \<in> set (executed ?w)"
    then show "f0 = None" using inv by (simp add: boot_inv_def Let_def)
    from \<open>Job_handler \<in> set (executed ?w)\<close> have "0 < count (mset (executed ?w)) Job_handler" by (simp add: count_greater_zero_iff)
    with one have "count (nheld 20 (workers ?w)) Job_handler = 0" "count (mset (q_elems (wp_jq ?w))) Job_handler = 0"
      by linarith+
    then show "Job_handler \<notin> set (q_elems (wp_jq ?w))" "\<forall>t < 20. workers ?w t \<noteq> W_call Job_handler"
        "\<not> bt_handler_loops b"
      using held loops by (fastforce simp: count_eq_zero_iff)+
  next
    assume "bt_handler_loops b"
    then have "bt_handler_set b \<or> f0 \<noteq> None" using loops by simp
    then show "st_fun (bt_stage b) \<noteq> None" "f0 = None \<Longrightarrow> bt_handler_set b" using inv by (auto simp: boot_inv_def Let_def)
  qed (use inv in \<open>auto simp: boot_inv_def Let_def\<close>)
qed

theorem stage_start_handler_witness:
  "\<exists>b. reach (boot_start ex_zmq None False (stage_new None (worker_pool_new 0 False False) ''s'')) (boot_step ex_zmq (7 :: nat)) b \<and>
     bt_handler_loops b \<and> bt_handler_set b \<and> st_fun (bt_stage b) = Some 7"
proof -
  let ?R = "reach (boot_start ex_zmq None False (stage_new None (worker_pool_new 0 False False) ''s'')) (boot_step ex_zmq (7 :: nat))"
  obtain b where b: "?R b" "\<not> bt_handler_set b" "workers (st_pool (bt_stage b)) 2 = W_call Job_handler"
    using boot_taken [of False "stage_new None (worker_pool_new 0 False False) ''s''" 7] by blast
  let ?b = "b\<lparr>bt_stage := setHandler 7 (bt_stage b), bt_handler_set := True\<rparr>"
  have "?R ?b" using b(1) by (rule reach_step) (rule boot_set [OF b(2)])
  then have "?R (?b\<lparr>bt_handler_loops := True\<rparr>)"
    by (rule reach_step) (rule boot_loop [of _ 2], use b(3) in \<open>simp_all add: setHandler_def handler_enters_loop_def\<close>)
  moreover from stage_start_handler [OF this] have "st_fun (bt_stage ?b) = Some 7" by simp
  ultimately show ?thesis by (intro exI [of _ "?b\<lparr>bt_handler_loops := True\<rparr>"]) simp
qed

text \<open>
  C35: a stage can come up dead. For every stage there is a start-up in which a worker reaches the
  handler before \<^verbatim>\<open>runStage\<close> has set its function: the handler returns, \<^verbatim>\<open>setHandler\<close> comes too late,
  and receiver and control keep running while nothing handles a message.
\<close>

theorem stage_start_race:
  "\<exists>b. reach (boot_start ex_zmq None r st) (boot_step ex_zmq f) b \<and> bt_handler_set b \<and> \<not> bt_handler_loops b \<and>
     Job_handler \<in> set (executed (st_pool (bt_stage b))) \<and>
     workers (st_pool (bt_stage b)) 0 = W_call Job_receiver \<and> workers (st_pool (bt_stage b)) 1 = W_call Job_control"
proof -
  let ?R = "reach (boot_start ex_zmq None r st) (boot_step ex_zmq f)"
  obtain b where b: "?R b" "\<not> bt_handler_set b" "\<not> bt_handler_loops b" "st_fun (bt_stage b) = None"
      "workers (st_pool (bt_stage b)) 2 = W_call Job_handler" "workers (st_pool (bt_stage b)) 0 = W_call Job_receiver"
      "workers (st_pool (bt_stage b)) 1 = W_call Job_control" "\<not> worker_init_callback (st_pool (bt_stage b))"
    using boot_taken [of r st f] by blast
  let ?w = "(st_pool (bt_stage b))\<lparr>executed := executed (st_pool (bt_stage b)) @ [Job_handler],
      workers := (workers (st_pool (bt_stage b)))(2 := W_lock_out)\<rparr>"
  have w: "worker_step 2 (st_pool (bt_stage b)) = Some ?w"
    using b(5,8) by (simp add: worker_step_def Let_def)
  let ?b = "b\<lparr>bt_stage := (bt_stage b)\<lparr>st_pool := ?w\<rparr>\<rparr>"
  have "boot_step ex_zmq f b ?b"
    by (rule boot_return [OF b(5,3) _ w]) (use b(4) in \<open>simp add: handler_enters_loop_def\<close>)
  with b(1) have "?R ?b" by (rule reach_step)
  then have "?R (?b\<lparr>bt_stage := setHandler f (bt_stage ?b), bt_handler_set := True\<rparr>)"
    by (rule reach_step) (rule boot_set, use b(2) in simp)
  then show ?thesis
    using b(3,6,7) by (intro exI [of _ "?b\<lparr>bt_stage := setHandler f (bt_stage ?b), bt_handler_set := True\<rparr>"])
      (simp add: setHandler_def)
qed

end
