(* ===== verification/Main_Program.thy ===== *)
theory Main_Program
  imports Logging Stage_Start
begin

text \<open>
  \<^verbatim>\<open>main.cpp\<close>: the demonstration pipeline. \<^verbatim>\<open>daemonize\<close> on a table of file descriptors, the functions of the
  stages with what they write to the log, \<^verbatim>\<open>runStage\<close>, and the processes that \<^verbatim>\<open>main\<close> forks; the
  client of \<^verbatim>\<open>redis_client.cpp\<close> on top of the library it calls.
\<close>

section \<open>Becoming a daemon\<close>

text \<open>
  The part of a process that \<^verbatim>\<open>daemonize\<close> changes. A descriptor table is a list: entry \<open>i\<close> is the file
  open as descriptor \<open>i\<close>; descriptors beyond the end are closed. \<open>log_ident\<close> and \<open>log_fd\<close> belong to the C library's
  \<^verbatim>\<open>syslog\<close>: the name set by \<^verbatim>\<open>openlog\<close> and the descriptor of its connection, once it is open.
\<close>

record process =
  fds :: "string option list"
  umask :: nat
  session_leader :: bool
  sighup_ignored :: bool
  cwd :: string
  log_ident :: string
  log_fd :: "nat option"

datatype 'a outcome = Exits int | Continues 'a

text \<open>\<^verbatim>\<open>open\<close> and \<^verbatim>\<open>dup\<close> use the lowest free descriptor.\<close>

fun alloc_fd :: "string \<Rightarrow> string option list \<Rightarrow> string option list \<times> nat" where
  "alloc_fd f [] = ([Some f], 0)"
| "alloc_fd f (None # t) = (Some f # t, 0)"
| "alloc_fd f (Some g # t) = (let (t', n) = alloc_fd f t in (Some g # t', Suc n))"

definition get_fd :: "string option list \<Rightarrow> nat \<Rightarrow> string option" where
  "get_fd t i = (if i < length t then t ! i else None)"

definition dup :: "nat \<Rightarrow> string option list \<Rightarrow> string option list \<times> int" where
  "dup i t = (case get_fd t i of None \<Rightarrow> (t, -1) | Some f \<Rightarrow> let (t', n) = alloc_fd f t in (t', int n))"

text \<open>\<^verbatim>\<open>for (i = 0; i < (int)rl.rlim_max; i++) close(i);\<close> the limit has 64 bits and is cut to an \<^verbatim>\<open>int\<close>.\<close>

definition close_fd :: "nat \<Rightarrow> string option list \<Rightarrow> string option list" where
  "close_fd i t = t[i := None]"

definition RLIM_INFINITY :: "64 word" where
  "RLIM_INFINITY = - 1"

definition close_limit :: "64 word \<Rightarrow> c_int" where
  "close_limit rlim_max = (let rlim_max = (if rlim_max = RLIM_INFINITY then 1024 else rlim_max) in ucast rlim_max)"

definition close_all :: "c_int \<Rightarrow> string option list \<Rightarrow> string option list" where
  "close_all n t = fold close_fd [0 ..< nat (sint n)] t"

text \<open>
  \<open>rlim_max\<close> is what \<^verbatim>\<open>getrlimit\<close> leaves; \<open>fork1\<close>, \<open>fork2\<close> what the two calls of \<^verbatim>\<open>fork\<close> return to this process; \<open>setsid_ok\<close>, \<open>sig_ok\<close>,
  \<open>chdir_ok\<close> and \<open>null_ok\<close> tell whether \<^verbatim>\<open>setsid\<close>, \<^verbatim>\<open>sigaction\<close>, \<^verbatim>\<open>chdir\<close> and \<^verbatim>\<open>open\<close> succeed, \<open>syslog_ok\<close> whether the log daemon
  can be connected to. A failed \<^verbatim>\<open>fork\<close> is reported and ignored.
\<close>

record daemon_env =
  rlim_max :: "64 word"
  fork1 :: int
  fork2 :: int
  setsid_ok :: bool
  sig_ok :: bool
  chdir_ok :: bool
  null_ok :: bool
  syslog_ok :: bool

text \<open>
  \<^verbatim>\<open>openlog\<close> without \<^verbatim>\<open>LOG_NDELAY\<close> opens nothing; the first call of \<^verbatim>\<open>syslog\<close> opens the connection, like
  \<^verbatim>\<open>open\<close> on the lowest free descriptor, and keeps it. Without a daemon nothing stays open.
\<close>

definition openlog :: "string \<Rightarrow> process \<Rightarrow> process" where
  "openlog ident p = p\<lparr>log_ident := ident\<rparr>"

definition syslog :: "daemon_env \<Rightarrow> process \<Rightarrow> process" where
  "syslog e p =
     (if log_fd p = None \<and> syslog_ok e
      then let (t, n) = alloc_fd ''/dev/log'' (fds p) in p\<lparr>fds := t, log_fd := Some n\<rparr>
      else p)"

definition daemonize :: "daemon_env \<Rightarrow> process \<Rightarrow> process outcome" where
  "daemonize e p =
     (let p = p\<lparr>umask := 0\<rparr> in
      if fork1 e > 0 then Exits 0
      else let p = (if setsid_ok e then p\<lparr>session_leader := True\<rparr> else p);
               p = (if sig_ok e then p\<lparr>sighup_ignored := True\<rparr> else p) in
      if fork2 e > 0 then Exits 0
      else let p = (if fork2 e = 0 then p\<lparr>session_leader := False\<rparr> else p);
               p = (if chdir_ok e then p\<lparr>cwd := ''/''\<rparr> else p);
               t = close_all (close_limit (rlim_max e)) (fds p);
               (t, fd0) = (if null_ok e then (let (t, n) = alloc_fd ''/dev/null'' t in (t, int n)) else (t, -1));
               (t, fd1) = dup 0 t;
               (t, fd2) = dup 0 t;
               p = openlog ''main'' (p\<lparr>fds := t\<rparr>) in
      if fd0 \<noteq> 0 \<or> fd1 \<noteq> 1 \<or> fd2 \<noteq> 2 then (let p = syslog e p in Exits 1)
      else Continues (syslog e p))"

section \<open>Redis client\<close>

text \<open>
  hiredis as the sources use it: the context \<^verbatim>\<open>redisConnect\<close> returns (\<open>None\<close> for \<^verbatim>\<open>NULL\<close>) with its error
  field, and the reply of a command (\<open>None\<close> for \<^verbatim>\<open>NULL\<close>).
\<close>

record redis_api =
  redisConnect :: "string \<Rightarrow> int \<Rightarrow> bool option"
  redisCommand :: "string \<Rightarrow> string option"

text \<open>
  \<^verbatim>\<open>connect\<close> returns whether it succeeded, and whether \<^verbatim>\<open>c\<close> holds a live context afterwards: on an error it is
  freed but the pointer is kept. \<^verbatim>\<open>command\<close> tests the pointer only.
\<close>

datatype redis_context = Ctx_null | Ctx_live | Ctx_freed

definition redis_connect :: "redis_api \<Rightarrow> string \<Rightarrow> int \<Rightarrow> redis_context \<times> bool" where
  "redis_connect a ip port = (case redisConnect a ip port of
      None \<Rightarrow> (Ctx_null, False)
    | Some err \<Rightarrow> if err then (Ctx_freed, False) else (Ctx_live, True))"

definition redis_command :: "redis_api \<Rightarrow> redis_context \<Rightarrow> string \<Rightarrow> string option result" where
  "redis_command a c format = (case c of
      Ctx_null \<Rightarrow> Inr None
    | Ctx_freed \<Rightarrow> Inl Use_after_free
    | Ctx_live \<Rightarrow> Inr (redisCommand a format))"

section \<open>Functions of the stages\<close>

text \<open>
  A stage function gets the bytes of an element and may write to the log. Its result is the new log and the returned
  pointer's bytes, \<open>None\<close> for \<^verbatim>\<open>NULL\<close>; the outer \<open>None\<close> is a log call that waits for room in the queue.
\<close>

type_synonym stage_result = "(log_state \<times> byte list option) option result"

definition log_then :: "log_state \<Rightarrow> byte list \<Rightarrow> (log_state \<Rightarrow> stage_result) \<Rightarrow> stage_result" where
  "log_then s msg k = res_bind (debug True s msg) (\<lambda>r. case r of None \<Rightarrow> Inr None | Some s \<Rightarrow> k s)"

definition lookUpRedis :: "log_state \<Rightarrow> byte list \<Rightarrow> stage_result" where
  "lookUpRedis s arg = log_then s (bytes_of ''main [lookUpRedis] : '' @ c_str arg) (\<lambda>s. Inr (Some (s, Some arg)))"

definition print_stage :: "log_state \<Rightarrow> byte list \<Rightarrow> stage_result" where
  "print_stage s arg = log_then s (bytes_of ''main [print] : '' @ c_str arg) (\<lambda>s. Inr (Some (s, Some arg)))"

text \<open>
  \<^verbatim>\<open>struct test_msg\<close>: two arrays of 8 characters and two 8-byte times. A name that fills its array is
  printed together with what follows it.
\<close>

definition TEST_MSG_SIZE :: nat where
  "TEST_MSG_SIZE = 32"

definition receiveAndResponse :: "log_state \<Rightarrow> byte list \<Rightarrow> stage_result" where
  "receiveAndResponse s arg =
     log_then s (bytes_of ''main [receiveAndResponse] : '' @ c_str arg) (\<lambda>s.
     res_bind (c_memcpy (replicate TEST_MSG_SIZE 0) 0 arg 0 TEST_MSG_SIZE) (\<lambda>tm.
     res_bind (c_strlen tm) (\<lambda>_.
     res_bind (c_strlen (drop 8 tm)) (\<lambda>_.
     log_then s (bytes_of ''main [receiveAndResponse] : name='' @ c_str tm @ bytes_of '',passwd='' @ c_str (drop 8 tm) @ [0x0A])
       (\<lambda>s. Inr (Some (s, Some arg)))))))"

text \<open>The cache tree is not used: the lookup is commented out, the answer is the input without its first byte.\<close>

definition searchCache :: "redis_api \<Rightarrow> log_state \<Rightarrow> byte list \<Rightarrow> stage_result" where
  "searchCache a s arg =
     log_then s (bytes_of ''main [searchCache] : '' @ c_str arg) (\<lambda>s.
     case redis_connect a ''127.0.0.1'' 6379 of
       (c, False) \<Rightarrow> log_then s (bytes_of ''connect 127.0.0.1:6379 fail'') (\<lambda>s. Inr (Some (s, None)))
     | (c, True) \<Rightarrow>
         res_bind (redis_command a c ''get shilei'') (\<lambda>r. case r of
           None \<Rightarrow> Inl Null_deref
         | Some str \<Rightarrow>
             log_then s (bytes_of ''name : shilei, result : '' @ bytes_of str)
               (\<lambda>s. Inr (Some (s, Some (drop 1 arg))))))"

section \<open>Processes\<close>

datatype stage_fun = F_receiveAndResponse | F_searchCache | F_lookUpRedis

text \<open>\<^verbatim>\<open>runStage\<close> up to \<^verbatim>\<open>setHandler\<close>, which races with the workers; then it spins in \<^verbatim>\<open>stage::run\<close>.\<close>

definition runStage ::
    "zmq_api \<Rightarrow> stage_fun option \<Rightarrow> bool \<Rightarrow> string list \<Rightarrow> string \<Rightarrow> string \<Rightarrow> stage_fun boot option result" where
  "runStage z f0 r res des name =
     (let s = stage_new None (worker_pool_new 0 False False) name;
          s = setDestination des (setResources res s)
      in res_bind (stage_init z f0 r s) (\<lambda>st. Inr (map_option
           (\<lambda>st. \<lparr>bt_stage = st, bt_handler_set = False, bt_handler_loops = False\<rparr>) st)))"

text \<open>What a process does that sees the values \<open>pid1\<close> and \<open>pid2\<close> from the two calls of \<^verbatim>\<open>fork\<close>.\<close>

datatype main_action = Run_stage "string list" string stage_fun string | Main_exit int | Main_return int

definition main_resources :: "string list list" where
  "main_resources = [[''tcp://localhost:5666''], [''tcp://localhost:5667''], [''tcp://localhost:5668'']]"

definition main_destinations :: "string list" where
  "main_destinations = [''tcp://*:5667'', ''tcp://*:5668'', '''']"

definition main_program :: "int \<Rightarrow> int \<Rightarrow> main_action" where
  "main_program pid1 pid2 =
     (if pid1 \<noteq> 0 then Run_stage (main_resources ! 0) (main_destinations ! 0) F_receiveAndResponse ''receive_response''
      else if pid1 < 0 then Main_exit (-1)
      else if pid2 \<noteq> 0 then Run_stage (main_resources ! 1) (main_destinations ! 1) F_searchCache ''search_cache''
      else if pid2 < 0 then Main_exit (-1)
      else Main_return 0)"

section \<open>Lemmas\<close>

lemma get_fd_Nil [simp]: "get_fd [] i = None"
  by (simp add: get_fd_def)

lemma get_fd_Cons: "get_fd (x # t) i = (case i of 0 \<Rightarrow> x | Suc j \<Rightarrow> get_fd t j)"
  by (auto simp: get_fd_def split: nat.splits)

lemma alloc_fd_spec:
  assumes "alloc_fd f t = (t', n)"
  shows "get_fd t n = None" and "j < n \<Longrightarrow> get_fd t j \<noteq> None" and "get_fd t' = (get_fd t)(n \<mapsto> f)"
  using assms
  by (induction f t arbitrary: t' n j rule: alloc_fd.induct)
    (auto simp: get_fd_Cons fun_eq_iff less_Suc_eq_0_disj split: prod.splits nat.splits)

text \<open>The first free descriptor is the one that \<open>alloc_fd\<close> hands out.\<close>

lemma alloc_fd_lowest:
  assumes "get_fd t n = None" and "\<And>j. j < n \<Longrightarrow> get_fd t j \<noteq> None"
  shows "\<exists>t'. alloc_fd f t = (t', n) \<and> get_fd t' = (get_fd t)(n \<mapsto> f)"
proof -
  obtain t' m where a: "alloc_fd f t = (t', m)" by fastforce
  have "m = n" using alloc_fd_spec(1,2) [OF a] assms by (metis linorder_neqE_nat)
  then show ?thesis using a alloc_fd_spec(3) [OF a] by simp
qed

lemma get_fd_close: "get_fd (close_fd i t) j = (if i = j then None else get_fd t j)"
  by (auto simp: get_fd_def close_fd_def)

lemma get_fd_close_all: "get_fd (close_all n t) j = (if int j < sint n then None else get_fd t j)"
proof -
  have "get_fd (fold close_fd [0 ..< k] t) j = (if j < k then None else get_fd t j)" for k
    by (induction k) (auto simp: get_fd_close)
  then show ?thesis by (auto simp: close_all_def zless_nat_eq_int_zless)
qed

lemma standard_fds:
  assumes "\<And>i. i < 3 \<Longrightarrow> get_fd t i = None"
  shows "\<exists>t0 t1 t2. alloc_fd f t = (t0, 0) \<and> dup 0 t0 = (t1, 1) \<and> dup 0 t1 = (t2, 2) \<and>
    (\<forall>i. get_fd t2 i = (if i < 3 then Some f else get_fd t i))"
proof -
  obtain t0 where t0: "alloc_fd f t = (t0, 0)" "get_fd t0 = (get_fd t)(0 \<mapsto> f)"
    using alloc_fd_lowest [of t 0 f] assms by auto
  obtain t1 where t1: "alloc_fd f t0 = (t1, 1)" "get_fd t1 = (get_fd t0)(1 \<mapsto> f)"
    using alloc_fd_lowest [of t0 1 f] assms t0(2) by auto
  obtain t2 where t2: "alloc_fd f t1 = (t2, 2)" "get_fd t2 = (get_fd t1)(2 \<mapsto> f)"
  proof (rule exE [OF alloc_fd_lowest [of t1 2 f]])
    show "get_fd t1 2 = None" using assms t0(2) t1(2) by simp
    show "get_fd t1 j \<noteq> None" if "j < 2" for j using that t0(2) t1(2) by (auto simp: less_2_cases_iff)
  qed (use that in blast)
  have "dup 0 t0 = (t1, 1)" "dup 0 t1 = (t2, 2)" using t0(2) t1 t2 by (simp_all add: dup_def)
  moreover have "\<forall>i. get_fd t2 i = (if i < 3 then Some f else get_fd t i)"
    using t0(2) t1(2) t2(2) by (auto simp: less_Suc_eq numeral_3_eq_3)
  ultimately show ?thesis using t0(1) by blast
qed

text \<open>With one of the first three descriptors still open, one of the three calls gets another number.\<close>

lemma standard_fds_taken:
  assumes "get_fd t i \<noteq> None" and "i < 3"
  shows "\<not> (\<exists>t0 t1 t2. alloc_fd f t = (t0, 0) \<and> dup 0 t0 = (t1, 1) \<and> dup 0 t1 = (t2, 2))"
proof
  assume "\<exists>t0 t1 t2. alloc_fd f t = (t0, 0) \<and> dup 0 t0 = (t1, 1) \<and> dup 0 t1 = (t2, 2)"
  then obtain t0 t1 t2 where t: "alloc_fd f t = (t0, 0)" "dup 0 t0 = (t1, 1)" "dup 0 t1 = (t2, 2)" by blast
  have 0: "get_fd t 0 = None" "get_fd t0 = (get_fd t)(0 \<mapsto> f)" using alloc_fd_spec(1,3) [OF t(1)] by auto
  then have 1: "alloc_fd f t0 = (t1, 1)" using t(2) by (auto simp: dup_def split: prod.splits)
  have "get_fd t0 1 = None" "get_fd t1 = (get_fd t0)(1 \<mapsto> f)" using alloc_fd_spec(1,3) [OF 1] by auto
  moreover from this 0 have 2: "alloc_fd f t1 = (t2, 2)" using t(3) by (auto simp: dup_def split: prod.splits)
  ultimately show False using alloc_fd_spec(1) [OF 2] 0 assms by (auto simp: less_Suc_eq numeral_3_eq_3 numeral_2_eq_2)
qed

section \<open>Properties\<close>

text \<open>
  C38: what becomes of the descriptors of a daemon. In the grandchild (both forks return 0), when
  \<^verbatim>\<open>chdir\<close> and the \<^verbatim>\<open>open\<close> of \<^verbatim>\<open>/dev/null\<close> succeed, \<^verbatim>\<open>syslog\<close> has not been used before and
  the limit, cut to an \<^verbatim>\<open>int\<close>, is at least 3, the process continues in the root directory and with no terminal.
  Descriptors 0, 1 and 2 are open on \<^verbatim>\<open>/dev/null\<close>; if the log daemon can be reached, the lowest
  free descriptor (3, for a larger limit) is the connection to it; every other descriptor below the limit
  is closed, and those above are untouched. When the cut limit is smaller (a limit of
  \<open>2 ^ 31\<close> becomes negative) and the descriptors 0 to 2 were open, the process exits with 1.
\<close>

theorem daemonize_descriptors:
  assumes "fork1 e = 0" and "fork2 e = 0" and "null_ok e" and "chdir_ok e" and "log_fd p = None"
    and "\<forall>i < 3. get_fd (fds p) i \<noteq> None" and "n = sint (close_limit (rlim_max e))"
  shows "if 3 \<le> n
    then \<exists>p' l. daemonize e p = Continues p' \<and> cwd p' = ''/'' \<and> umask p' = 0 \<and> \<not> session_leader p' \<and>
      log_fd p' = (if syslog_ok e then Some l else None) \<and>
      3 \<le> l \<and> (n \<le> int l \<longrightarrow> get_fd (fds p) l = None) \<and>
      (\<forall>i. 3 \<le> i \<longrightarrow> i < l \<longrightarrow> n \<le> int i \<and> get_fd (fds p) i \<noteq> None) \<and>
      (\<forall>i. get_fd (fds p') i =
        (if i < 3 then Some ''/dev/null'' else if syslog_ok e \<and> i = l then Some ''/dev/log''
         else if int i < n then None else get_fd (fds p) i))
    else daemonize e p = Exits 1"
proof (cases "3 \<le> n")
  case True
  let ?t = "close_all (close_limit (rlim_max e)) (fds p)"
  have low: "get_fd ?t i = None" if "i < 3" for i using that True assms(7) by (simp add: get_fd_close_all)
  obtain t0 t1 t2 where t: "alloc_fd ''/dev/null'' ?t = (t0, 0)" "dup 0 t0 = (t1, 1)" "dup 0 t1 = (t2, 2)"
      and t2: "\<forall>i. get_fd t2 i = (if i < 3 then Some ''/dev/null'' else get_fd ?t i)"
    using standard_fds [OF low] by blast
  obtain t3 l where a: "alloc_fd ''/dev/log'' t2 = (t3, l)" by fastforce
  have free: "get_fd t2 l = None" and l: "3 \<le> l" using alloc_fd_spec(1) [OF a] t2 by (auto split: if_splits)
  have taken: "n \<le> int i \<and> get_fd (fds p) i \<noteq> None" if "3 \<le> i" "i < l" for i
    using alloc_fd_spec(2) [OF a that(2)] that(1) t2 assms(7) by (auto simp: get_fd_close_all split: if_splits)
  define q where "q = p\<lparr>umask := 0, session_leader := False, cwd := ''/'', fds := if syslog_ok e then t3 else t2,
    log_fd := if syslog_ok e then Some l else None, log_ident := ''main'', sighup_ignored := sig_ok e \<or> sighup_ignored p\<rparr>"
  have "daemonize e p = Continues q"
    using assms(1-5) t a by (cases p) (simp add: daemonize_def openlog_def syslog_def q_def Let_def)
  moreover have "get_fd (fds q) i = (if i < 3 then Some ''/dev/null'' else if syslog_ok e \<and> i = l then Some ''/dev/log''
      else if int i < n then None else get_fd (fds p) i)" for i
    using alloc_fd_spec(3) [OF a] t2 l assms(7) by (simp add: q_def get_fd_close_all)
  moreover have "n \<le> int l \<longrightarrow> get_fd (fds p) l = None" using free l t2 assms(7) by (simp add: get_fd_close_all split: if_splits)
  ultimately show ?thesis using True l taken by (simp add: q_def) blast
next
  case False
  let ?t = "close_all (close_limit (rlim_max e)) (fds p)"
  have "get_fd ?t 2 \<noteq> None" using assms(6,7) False by (simp add: get_fd_close_all)
  from standard_fds_taken [OF this, of "''/dev/null''"]
  have "daemonize e p = Exits 1"
    using assms(1-3)
    by (auto simp: daemonize_def Let_def split: prod.splits)
  then show ?thesis using False by simp
qed

definition ex_env :: "64 word \<Rightarrow> daemon_env" where
  "ex_env n = \<lparr>rlim_max = n, fork1 = 0, fork2 = 0, setsid_ok = True, sig_ok = True, chdir_ok = True, null_ok = True, syslog_ok = True\<rparr>"

definition ex_process :: process where
  "ex_process = \<lparr>fds = [Some ''tty'', Some ''tty'', Some ''tty'', Some ''log''], umask = 18, session_leader = False,
     sighup_ignored = False, cwd = ''/home'', log_ident = [], log_fd = None\<rparr>"

theorem daemonize_descriptors_witness:
  "(\<exists>p'. daemonize (ex_env RLIM_INFINITY) ex_process = Continues p' \<and> get_fd (fds p') 0 = Some ''/dev/null'' \<and>
     get_fd (fds p') 3 = Some ''/dev/log'' \<and> get_fd (fds p') 4 = None) \<and>
   daemonize (ex_env 0x80000000) ex_process = Exits 1"
proof
  have 0: "\<forall>i < 3. get_fd (fds ex_process) i \<noteq> None" and 1: "log_fd ex_process = None"
    by (auto simp: ex_process_def get_fd_def less_Suc_eq numeral_3_eq_3)
  note ok = daemonize_descriptors [OF _ _ _ _ 1 0 refl]
  have n: "sint (close_limit (rlim_max (ex_env RLIM_INFINITY))) = 1024" by (simp add: ex_env_def close_limit_def)
  obtain p' l where p': "daemonize (ex_env RLIM_INFINITY) ex_process = Continues p'" "3 \<le> l"
      "\<forall>i. 3 \<le> i \<longrightarrow> i < l \<longrightarrow> (1024 :: int) \<le> int i"
      "\<forall>i. get_fd (fds p') i = (if i < 3 then Some ''/dev/null'' else if i = l then Some ''/dev/log''
        else if int i < 1024 then None else get_fd (fds ex_process) i)"
    using ok [of "ex_env RLIM_INFINITY"] n by (auto simp: ex_env_def)
  moreover have "l = 3" using p'(2) p'(3) [rule_format, of 3] by (cases "l = 3") auto
  ultimately show "\<exists>p'. daemonize (ex_env RLIM_INFINITY) ex_process = Continues p' \<and> get_fd (fds p') 0 = Some ''/dev/null'' \<and>
     get_fd (fds p') 3 = Some ''/dev/log'' \<and> get_fd (fds p') 4 = None"
    by simp
  show "daemonize (ex_env 0x80000000) ex_process = Exits 1"
    using ok [of "ex_env 0x80000000"] by (simp add: ex_env_def close_limit_def RLIM_INFINITY_def)
qed

text \<open>The log with room for \<open>k\<close> more records.\<close>

definition log_room :: "nat \<Rightarrow> log_state \<Rightarrow> bool" where
  "log_room k s \<longleftrightarrow> is_async s \<and> wf_queue (log_tq s) \<and>
     int (length (get_queue (log_tq s)) + k) \<le> max_queue_size (log_tq s)"

lemma log_then_room:
  assumes "0 \<notin> set m" and "log_room (Suc k) s"
  shows "if length m \<le> 118
    then \<exists>s'. log_then s m K = K s' \<and> log_room k s' \<and> get_queue (log_tq s') = get_queue (log_tq s) @ [log_record m]
    else log_then s m K = Inl Out_of_bounds"
proof (cases "length m \<le> 118")
  case True
  have wf: "wf_queue (log_tq s)" and nf: "\<not> is_full (log_tq s)" and a: "is_async s"
    using assms(2) tq.full_iff [of "log_tq s"] by (auto simp: log_room_def)
  obtain q sig where q: "push_body (log_record m) (log_tq s) = (q, sig)" by fastforce
  have "debug True s m = Inr (Some (s\<lparr>log_tq := q\<rparr>))" using debug_async [OF assms(1) a True nf] q by simp
  then show ?thesis
    using True tq.push_spec [OF wf nf q] assms(2)
    by (auto simp: log_then_def log_room_def intro!: exI [of _ "s\<lparr>log_tq := q\<rparr>"])
next
  case False
  then show ?thesis by (simp add: log_then_def debug_def debug_loop_100 debug_line_eq [OF assms(1)])
qed

text \<open>
  C37: the first stage of the pipeline handles short messages only. For an element that holds a string of
  at most 255 characters and a log with room, \<^verbatim>\<open>receiveAndResponse\<close> returns its input and logs two records exactly
  if the string is shorter than 32 characters, the size of \<^verbatim>\<open>test_msg\<close>; for every longer one it
  reads past the copied structure or writes past the log's line.
\<close>

theorem receiveAndResponse_short_only:
  assumes "0 \<notin> set w" and "length w \<le> 255" and "log_room 2 s" and "arg = w @ replicate (256 - length w) 0"
  shows "if length w < 32
    then \<exists>s' r1 r2. receiveAndResponse s arg = Inr (Some (s', Some arg)) \<and>
           get_queue (log_tq s') = get_queue (log_tq s) @ [r1, r2]
    else receiveAndResponse s arg = Inl Out_of_bounds"
proof -
  have room: "log_room (Suc 1) s" using assms(3) by (simp add: numeral_2_eq_2)
  have arg: "c_str arg = w" "length arg = 256"
    using assms(2) c_str_replicate_nul [of w "256 - length w"] c_str_all_no_nul [OF assms(1)] by (simp_all add: assms(4))
  let ?m1 = "bytes_of ''main [receiveAndResponse] : '' @ w"
  have m1: "0 \<notin> set ?m1" "length ?m1 = 28 + length w" using assms(1) by (simp_all add: bytes_of_def)
  let ?tm = "take 32 arg"
  have copy: "c_memcpy (replicate TEST_MSG_SIZE 0) 0 arg 0 TEST_MSG_SIZE = Inr ?tm"
    using arg(2) by (simp add: c_memcpy_def mem_write_def TEST_MSG_SIZE_def)
  show ?thesis
  proof (cases "length w < 32")
    case True
    have tm: "?tm = w @ replicate (32 - length w) 0"
      using True by (simp add: assms(4))
    have str: "c_str ?tm = w" "c_str (drop 8 ?tm) = drop 8 w" "0 \<in> set ?tm" "0 \<in> set (drop 8 ?tm)"
      using True c_str_all_no_nul [OF assms(1)] c_str_all_no_nul [of "drop 8 w"] assms(1)
      by (auto simp: tm c_str_replicate_nul dest: in_set_dropD)
    let ?m2 = "bytes_of ''main [receiveAndResponse] : name='' @ w @ bytes_of '',passwd='' @ drop 8 w @ [0x0A]"
    have m2: "0 \<notin> set ?m2" "length ?m2 \<le> 118"
      using assms(1) True by (auto simp: bytes_of_def dest: in_set_dropD)
    let ?K2 = "\<lambda>s. Inr (Some (s, Some arg)) :: stage_result"
    have "receiveAndResponse s arg = log_then s ?m1 (\<lambda>s. log_then s ?m2 ?K2)"
      by (simp add: receiveAndResponse_def copy arg(1) str c_strlen_def)
    moreover obtain s1 where s1: "log_then s ?m1 (\<lambda>s. log_then s ?m2 ?K2) = log_then s1 ?m2 ?K2" "log_room 1 s1"
        "get_queue (log_tq s1) = get_queue (log_tq s) @ [log_record ?m1]"
      using log_then_room [OF m1(1) room, of "\<lambda>s. log_then s ?m2 ?K2"] m1(2) True by auto
    moreover obtain s2 where "log_then s1 ?m2 ?K2 = ?K2 s2" "get_queue (log_tq s2) = get_queue (log_tq s1) @ [log_record ?m2]"
      using log_then_room [OF m2(1), of 0 s1 ?K2] s1(2) m2(2) by auto
    ultimately show ?thesis using True by auto
  next
    case False
    then have "0 \<notin> set ?tm" using assms(1) by (auto simp: assms(4) dest: in_set_takeD)
    then have "receiveAndResponse s arg = log_then s ?m1 (\<lambda>s. Inl Out_of_bounds)"
      by (simp add: receiveAndResponse_def copy arg(1) c_strlen_def)
    then show ?thesis
      using False log_then_room [OF m1(1) room, of "\<lambda>s. Inl Out_of_bounds"] by (auto split: if_splits)
  qed
qed

theorem receiveAndResponse_short_only_witness:
  "\<exists>s' r1 r2. receiveAndResponse ex_log ([0x61] @ replicate 255 0) = Inr (Some (s', Some ([0x61] @ replicate 255 0))) \<and>
     get_queue (log_tq s') = [r1, r2]"
  using receiveAndResponse_short_only [of "[0x61]" ex_log] ex_log_facts by (simp add: log_room_def)

text \<open>The fork failures are not noticed: a process whose first \<^verbatim>\<open>fork\<close> fails runs the first stage alone.\<close>

lemma main_never_exits: "main_program pid1 pid2 \<noteq> Main_exit c"
  by (simp add: main_program_def)

text \<open>Each stage listens where the one before publishes.\<close>

lemma main_pipeline_connected:
  "i < 2 \<Longrightarrow> drop (length ''tcp://*'') (main_destinations ! i) = drop (length ''tcp://localhost'') (hd (main_resources ! Suc i))"
  by (auto simp: main_destinations_def main_resources_def less_2_cases_iff)

lemma redis_command_after_failure:
  assumes "redisConnect a ip port = Some True"
  shows "redis_connect a ip port = (Ctx_freed, False)" and "redis_command a (fst (redis_connect a ip port)) cmd = Inl Use_after_free"
  using assms by (simp_all add: redis_connect_def redis_command_def)

end
