(* ===== verification/Net_Loop.thy ===== *)
theory Net_Loop
  imports Buffer Stage_Start
begin

text \<open>
  \<^verbatim>\<open>socket.cpp\<close> and \<^verbatim>\<open>loop.cpp\<close>: the listening socket, set up in the same way by \<^verbatim>\<open>acceptor::init_acceptor\<close>, and the event loop meant to
  feed the queue of a stage. The loop polls one epoll instance and registers the
  accepted connections in another, the member of \<^verbatim>\<open>Socket\<close> that nothing assigns.
\<close>

section \<open>Listening sockets\<close>

record listen_socket =
  ls_fd :: int
  ls_port :: "16 word"
  ls_nonblock :: bool
  ls_reuseaddr :: bool
  ls_listening :: bool

text \<open>
  \<open>socket_ret\<close> and \<open>bind_ret\<close> are the results of the system calls; the port is cut to 16 bits by \<^verbatim>\<open>htons\<close>. The options are set
  before \<^verbatim>\<open>bind\<close>, the results of \<^verbatim>\<open>fcntl\<close>, \<^verbatim>\<open>setsockopt\<close> and \<^verbatim>\<open>listen\<close> are not looked at.
\<close>

definition initServer :: "int \<Rightarrow> int \<Rightarrow> c_int \<Rightarrow> listen_socket \<times> bool" where
  "initServer socket_ret bind_ret listen_port =
     (let ls = \<lparr>ls_fd = socket_ret, ls_port = ucast listen_port, ls_nonblock = False, ls_reuseaddr = False,
                ls_listening = False\<rparr> in
      if socket_ret = -1 then (ls, False)
      else let ls = ls\<lparr>ls_nonblock := True, ls_reuseaddr := True\<rparr> in
      if bind_ret = -1 then (ls, False)
      else (ls\<lparr>ls_listening := True\<rparr>, True))"

text \<open>The constructor of \<^verbatim>\<open>Socket\<close>: the second component tells whether it logs an error.\<close>

definition Socket_new :: "int \<Rightarrow> int \<Rightarrow> c_int \<Rightarrow> listen_socket \<times> bool" where
  "Socket_new socket_ret bind_ret listen_port =
     (let (ls, ret) = initServer socket_ret bind_ret listen_port in (ls, ret))"

text \<open>The constructor of \<^verbatim>\<open>acceptor\<close> ignores the result and starts the pool in any case.\<close>

definition init_acceptor :: "int \<Rightarrow> int \<Rightarrow> c_int \<Rightarrow> listen_socket \<times> bool" where
  "init_acceptor socket_ret bind_ret port =
     (let ls = \<lparr>ls_fd = socket_ret, ls_port = ucast port, ls_nonblock = False, ls_reuseaddr = False,
                ls_listening = False\<rparr> in
      if socket_ret = -1 then (ls, False)
      else let ls = ls\<lparr>ls_nonblock := True, ls_reuseaddr := True\<rparr> in
      if bind_ret = -1 then (ls, False)
      else (ls\<lparr>ls_listening := True\<rparr>, True))"

definition init_worker_pool :: "bool \<Rightarrow> 'j worker_pool" where
  "init_worker_pool r = wp_start (worker_pool_new default_worker_num False r)"

definition acceptor_new :: "int \<Rightarrow> int \<Rightarrow> bool \<Rightarrow> c_int \<Rightarrow> listen_socket \<times> 'j worker_pool" where
  "acceptor_new socket_ret bind_ret r port = (fst (init_acceptor socket_ret bind_ret port), init_worker_pool r)"

definition DEFAULT_TCP_PORT :: c_int where
  "DEFAULT_TCP_PORT = 16666"

section \<open>The event loop\<close>

text \<open>
  \<open>lp_interest\<close> holds what epoll watches: pairs of an epoll descriptor and a file descriptor. \<open>lp_accepted\<close> and \<open>lp_read\<close>
  record the accepted connections and the calls of \<^verbatim>\<open>read_conn\<close>.
\<close>

record loop_state =
  lp_listenfd :: int
  lp_sock_epfd :: int
  lp_epfd :: int
  lp_interest :: "(int \<times> int) set"
  lp_queue :: "element task_queue"
  lp_accepted :: "int list"
  lp_read :: "int list"

text \<open>The head of \<^verbatim>\<open>Loop::loop\<close>; \<open>sock_epfd\<close> is the value of \<^verbatim>\<open>s->getEpfd()\<close>.\<close>

definition loop_start :: "int \<Rightarrow> int \<Rightarrow> int \<Rightarrow> loop_state" where
  "loop_start listenfd sock_epfd epfd =
     \<lparr>lp_listenfd = listenfd, lp_sock_epfd = sock_epfd, lp_epfd = epfd, lp_interest = {(epfd, listenfd)},
      lp_queue = new_task_queue, lp_accepted = [], lp_read = []\<rparr>"

definition loop_accept_one :: "int \<Rightarrow> loop_state \<Rightarrow> loop_state" where
  "loop_accept_one peer_sock s =
     s\<lparr>lp_interest := insert (lp_sock_epfd s, peer_sock) (lp_interest s), lp_accepted := lp_accepted s @ [peer_sock]\<rparr>"

definition loop_accept_conn :: "int list \<Rightarrow> loop_state \<Rightarrow> loop_state" where
  "loop_accept_conn peers s = fold loop_accept_one peers s"

text \<open>
  \<^verbatim>\<open>Loop::read_conn\<close>: the chunks go into a buffer, the buffer becomes an element of the queue. The call
  \<^verbatim>\<open>new IElement(buf->ptr())\<close> has no matching constructor in \<^verbatim>\<open>IElement.h\<close>; \<open>mk\<close> stands for it. \<open>Inr None\<close>: the queue is full.
\<close>

fun read_into :: "buffer \<Rightarrow> byte list \<Rightarrow> byte list list \<Rightarrow> buffer result" where
  "read_into b buf [] = Inr b"
| "read_into b buf (chunk # chunks) =
     res_bind (mem_write buf 0 chunk) (\<lambda>buf.
     res_bind (push_back b buf (length chunk)) (\<lambda>b. read_into b buf chunks))"

definition loop_read_conn ::
    "(byte list \<Rightarrow> element result) \<Rightarrow> int \<Rightarrow> byte list list \<Rightarrow> bool \<Rightarrow> loop_state \<Rightarrow> loop_state option result" where
  "loop_read_conn mk peer_fd chunks closed s =
     res_bind (read_into new_buffer (replicate BUFSIZE 0) chunks) (\<lambda>b.
     res_bind (mk (ptr b)) (\<lambda>ie.
     Inr (case qpush ie (lp_queue s) of
            None \<Rightarrow> None
          | Some q \<Rightarrow>
              let s = s\<lparr>lp_queue := q, lp_read := lp_read s @ [peer_fd]\<rparr>
              in Some (if closed then s\<lparr>lp_interest := lp_interest s - {(lp_sock_epfd s, peer_fd)}\<rparr> else s))))"

text \<open>
  One event of the loop: epoll reports a descriptor it watches in the polled instance. A
  connection is registered one-shot: its entry is used up by the event.
\<close>

inductive loop_step :: "(byte list \<Rightarrow> element result) \<Rightarrow> loop_state \<Rightarrow> loop_state \<Rightarrow> bool" for mk where
  loop_listen: "(lp_epfd s, lp_listenfd s) \<in> lp_interest s \<Longrightarrow>
    loop_step mk s (loop_accept_conn peers s)"
| loop_in: "(lp_epfd s, fd) \<in> lp_interest s \<Longrightarrow> fd \<noteq> lp_listenfd s \<Longrightarrow>
    loop_read_conn mk fd chunks closed (s\<lparr>lp_interest := lp_interest s - {(lp_epfd s, fd)}\<rparr>) = Inr (Some s') \<Longrightarrow>
    loop_step mk s s'"
| loop_out: "(lp_epfd s, fd) \<in> lp_interest s \<Longrightarrow> fd \<noteq> lp_listenfd s \<Longrightarrow>
    loop_step mk s (s\<lparr>lp_interest := lp_interest s - {(lp_epfd s, fd)}\<rparr>)"

section \<open>Lemmas\<close>

definition watched :: "loop_state \<Rightarrow> int \<Rightarrow> bool" where
  "watched s fd \<longleftrightarrow> fd \<noteq> lp_listenfd s \<and> (lp_epfd s, fd) \<in> lp_interest s"

text \<open>A connection is watched only if both instances are the same, and only until it is read.\<close>

definition loop_inv :: "loop_state \<Rightarrow> bool" where
  "loop_inv s \<longleftrightarrow> (\<forall>fd. watched s fd \<longrightarrow> lp_sock_epfd s = lp_epfd s) \<and>
     (lp_sock_epfd s \<noteq> lp_epfd s \<longrightarrow> lp_read s = [] \<and> lp_queue s = new_task_queue) \<and>
     (\<forall>fd. count_list (lp_read s) fd + of_bool (watched s fd) \<le> count_list (lp_accepted s) fd)"

lemma count_list_snoc [simp]: "count_list (xs @ [y]) x = count_list xs x + of_bool (x = y)"
  by (induction xs) auto

lemma loop_inv_accept_one:
  assumes "loop_inv s"
  shows "loop_inv (loop_accept_one p s)"
proof -
  let ?s = "loop_accept_one p s"
  have same: "lp_sock_epfd ?s = lp_sock_epfd s" "lp_epfd ?s = lp_epfd s" "lp_read ?s = lp_read s" "lp_queue ?s = lp_queue s"
    by (simp_all add: loop_accept_one_def)
  have w: "watched ?s fd \<longleftrightarrow> watched s fd \<or> (fd = p \<and> fd \<noteq> lp_listenfd s \<and> lp_sock_epfd s = lp_epfd s)" for fd
    by (auto simp: watched_def loop_accept_one_def)
  have "count_list (lp_read ?s) fd + of_bool (watched ?s fd) \<le> count_list (lp_accepted ?s) fd" for fd
  proof -
    have "count_list (lp_read s) fd + of_bool (watched s fd) \<le> count_list (lp_accepted s) fd"
      using assms by (simp add: loop_inv_def)
    moreover have "count_list (lp_accepted ?s) fd = count_list (lp_accepted s) fd + of_bool (fd = p)"
      by (simp add: loop_accept_one_def)
    ultimately show ?thesis
      unfolding same w by (cases "fd = p"; cases "watched s fd") auto
  qed
  moreover have "\<forall>fd. watched ?s fd \<longrightarrow> lp_sock_epfd s = lp_epfd s" using assms w by (auto simp: loop_inv_def)
  ultimately show ?thesis using assms unfolding loop_inv_def same by blast
qed

lemma loop_inv_accept: "loop_inv s \<Longrightarrow> loop_inv (loop_accept_conn peers s)"
  by (induction peers arbitrary: s) (simp_all add: loop_accept_conn_def loop_inv_accept_one)

text \<open>An event uses up its entry.\<close>

lemma watched_used:
  "watched (s\<lparr>lp_interest := lp_interest s - {(lp_epfd s, fd)}\<rparr>) fd' \<longleftrightarrow> watched s fd' \<and> fd' \<noteq> fd"
  by (auto simp: watched_def)

lemma loop_read_conn_shape:
  assumes "loop_read_conn mk fd chunks closed s = Inr (Some s')"
  shows "lp_read s' = lp_read s @ [fd]" and "lp_accepted s' = lp_accepted s" and "lp_sock_epfd s' = lp_sock_epfd s"
    and "lp_epfd s' = lp_epfd s" and "watched s' fd' \<Longrightarrow> watched s fd'"
  using assms
  by (auto simp: loop_read_conn_def res_bind_Inr_iff watched_def Let_def split: option.splits if_splits)

lemma loop_inv_step:
  assumes inv: "loop_inv s" and "loop_step mk s s'"
  shows "loop_inv s'"
  using assms(2)
proof cases
  case (loop_listen peers)
  then show ?thesis using inv by (simp add: loop_inv_accept)
next
  case (loop_in fd chunks closed)
  let ?s = "s\<lparr>lp_interest := lp_interest s - {(lp_epfd s, fd)}\<rparr>"
  note shape = loop_read_conn_shape [OF loop_in(3)]
  have fd: "watched s fd" using loop_in(1,2) by (simp add: watched_def)
  then have same: "lp_sock_epfd s = lp_epfd s" using inv by (auto simp: loop_inv_def)
  have c: "count_list (lp_read s) x + of_bool (watched s x) \<le> count_list (lp_accepted s) x" for x
    using inv by (simp add: loop_inv_def)
  have w: "watched s' x \<Longrightarrow> watched s x \<and> x \<noteq> fd" for x using shape(5) [of x] watched_used by blast
  have "count_list (lp_read s') x + of_bool (watched s' x) \<le> count_list (lp_accepted s') x" for x
    using c [of x] w [of x] fd shape(1,2) by (cases "x = fd") (auto simp: of_bool_def split: if_splits)
  then show ?thesis using same shape(3,4) by (simp add: loop_inv_def)
next
  case (loop_out fd)
  have "count_list (lp_read s) x + of_bool (watched s' x) \<le> count_list (lp_accepted s) x" for x
  proof -
    have "count_list (lp_read s) x + of_bool (watched s x) \<le> count_list (lp_accepted s) x"
      using inv by (simp add: loop_inv_def)
    then show ?thesis using loop_out(1) watched_used [of s fd x] by (auto simp: of_bool_def split: if_splits)
  qed
  then show ?thesis using inv loop_out(1) by (auto simp: loop_inv_def watched_used)
qed

interpretation lps: invariant_system "\<lambda>s. s = loop_start lfd se e" "loop_step mk" loop_inv for lfd se e mk
proof unfold_locales
  show "loop_inv s" if "s = loop_start lfd se e" for s
    using that by (auto simp: loop_inv_def loop_start_def watched_def)
qed (rule loop_inv_step)

section \<open>Properties\<close>

text \<open>
  C40: the event loop reads each accepted connection at most once, and none at all. In every reachable
  state no descriptor has been read more often than accepted: connections are registered one-shot and never armed
  again. And when the epoll instance of the socket, which nothing initialises, is not by chance the one
  the loop has created, no connection is ever read and the queue of the stage stays empty.
\<close>

theorem loop_reads_at_most_once:
  assumes "reach (\<lambda>s. s = loop_start listenfd sock_epfd epfd) (loop_step mk) s"
  shows "count_list (lp_read s) fd \<le> count_list (lp_accepted s) fd \<and>
    (lp_sock_epfd s \<noteq> lp_epfd s \<longrightarrow> lp_read s = [] \<and> lp_queue s = new_task_queue)"
  using lps.reach_inv [OF assms] by (auto simp: loop_inv_def dest: add_leE)

theorem loop_reads_at_most_once_witness:
  "lp_read (loop_accept_conn [8, 9] (loop_start 4 0 5)) = [] \<and>
   count_list (lp_read (loop_accept_conn [8, 9] (loop_start 4 0 5))) 8 \<le> 1"
proof -
  let ?R = "reach (\<lambda>s. s = loop_start 4 0 5) (loop_step (\<lambda>_. Inl Thrown))"
  have "?R (loop_start 4 0 5)" by (rule reach_init) simp
  then have "?R (loop_accept_conn [8, 9] (loop_start 4 0 5))"
    by (rule reach_step) (rule loop_listen, simp add: loop_start_def)
  from loop_reads_at_most_once [OF this, of 8] show ?thesis
    by (simp add: loop_accept_conn_def loop_accept_one_def loop_start_def)
qed

text \<open>
  Listening sockets. \<^verbatim>\<open>Socket\<close> and \<^verbatim>\<open>acceptor\<close> set up the same socket: it listens on the given port, modulo
  65536, with address reuse and without blocking, exactly if \<^verbatim>\<open>socket\<close> and \<^verbatim>\<open>bind\<close> succeed; but
  the constructor of \<^verbatim>\<open>Socket\<close> logs an error exactly in this case, and that of \<^verbatim>\<open>acceptor\<close>
  starts its 20 workers in every case.
\<close>

theorem listen_socket_setup:
  "initServer sr br p = init_acceptor sr br p \<and>
   (snd (initServer sr br p) \<longleftrightarrow> sr \<noteq> -1 \<and> br \<noteq> -1) \<and>
   (ls_listening (fst (initServer sr br p)) \<longleftrightarrow> snd (initServer sr br p)) \<and>
   (snd (initServer sr br p) \<longrightarrow> fst (initServer sr br p) =
      \<lparr>ls_fd = sr, ls_port = of_int (sint p), ls_nonblock = True, ls_reuseaddr = True, ls_listening = True\<rparr>) \<and>
   (snd (Socket_new sr br p) \<longleftrightarrow> ls_listening (fst (Socket_new sr br p))) \<and>
   running (snd (acceptor_new sr br r p :: listen_socket \<times> nat worker_pool)) \<and>
   worker_num (snd (acceptor_new sr br r p :: listen_socket \<times> nat worker_pool)) = 20"
proof -
  have "ucast p = (of_int (sint p) :: 16 word)"
    by (rule bit_word_eqI) (simp add: bit_simps)
  then show ?thesis
    by (simp add: initServer_def init_acceptor_def Socket_new_def acceptor_new_def init_worker_pool_def wp_start_def
        worker_pool_new_def wp_init_def default_worker_num_def Let_def)
qed

theorem listen_socket_setup_witness:
  "fst (initServer 3 0 DEFAULT_TCP_PORT) =
     \<lparr>ls_fd = 3, ls_port = 16666, ls_nonblock = True, ls_reuseaddr = True, ls_listening = True\<rparr>"
proof -
  note sock = listen_socket_setup [of 3 0 DEFAULT_TCP_PORT False]
  have "snd (initServer 3 0 DEFAULT_TCP_PORT)" using sock by (auto simp del: fst_conv snd_conv)
  then have "fst (initServer 3 0 DEFAULT_TCP_PORT) = \<lparr>ls_fd = 3, ls_port = of_int (sint DEFAULT_TCP_PORT),
      ls_nonblock = True, ls_reuseaddr = True, ls_listening = True\<rparr>" using sock by blast
  then show ?thesis by (simp add: DEFAULT_TCP_PORT_def)
qed

end
