(* ===== verification/Receiver_Queue.thy ===== *)
theory Receiver_Queue
  imports Stage_Start
begin

text \<open>
  The \<^verbatim>\<open>receiver\<close> as two kinds of threads see it: the thread in \<^verbatim>\<open>receiver::run\<close> makes an element of every
  message and queues it, and the callers of \<^verbatim>\<open>fetchOne\<close> take elements out or sleep. The steps are those
  of the source at the granularity of its mutex: the signal is sent after the mutex is released. Nothing is
  lost, doubled or reordered for any number of callers, and with the one caller that a stage has
  (\<^verbatim>\<open>stage_handler::run\<close>) no wake-up is lost.
\<close>

section \<open>Definitions\<close>

text \<open>The thread in \<^verbatim>\<open>run\<close> and the callers of \<^verbatim>\<open>fetchOne\<close>, as holders of the mutex.\<close>

datatype rq_thread = Runner | Fetcher nat

record receiver =
  rc_res :: "string list"
  rc_lock :: "rq_thread option"
  rc_elements :: "element list"
  rc_running :: bool

definition new_receiver :: receiver where
  "new_receiver = \<lparr>rc_res = [], rc_lock = None, rc_elements = [], rc_running = True\<rparr>"

definition rc_setResources :: "string list \<Rightarrow> receiver \<Rightarrow> receiver" where
  "rc_setResources res rc = rc\<lparr>rc_res := res\<rparr>"

text \<open>
  Where the runner stands: at the loop condition, in \<^verbatim>\<open>zmq_recv\<close>, before \<^verbatim>\<open>pthread_mutex_lock\<close> with an
  element, in the critical section, at \<^verbatim>\<open>pthread_mutex_unlock\<close> with \<^verbatim>\<open>is_signal\<close>, at
  \<^verbatim>\<open>pthread_cond_signal\<close>, or returned. Where a caller stands: outside, before the lock, at the loop condition
  (holding the mutex), asleep, woken and waiting for the mutex, or at the unlock with its element.
\<close>

datatype run_pc = Run_test | Run_recv | Run_lock element | Run_push element | Run_unlock bool | Run_signal | Run_done

datatype fetch_pc = Fetch_out | Fetch_lock | Fetch_test | Fetch_wait | Fetch_woken | Fetch_unlock element

text \<open>\<open>rq_msgs\<close> and \<open>rq_fetched\<close> record the messages received and the elements fetched; the code has no such logs.\<close>

record rq_state = receiver +
  rq_run :: run_pc
  rq_fetch :: "nat \<Rightarrow> fetch_pc"
  rq_msgs :: "byte list list"
  rq_fetched :: "(nat \<times> element) list"

definition sleepers :: "(nat \<Rightarrow> fetch_pc) \<Rightarrow> nat set" where
  "sleepers f = {t. f t = Fetch_wait}"

definition rouse :: "nat set \<Rightarrow> (nat \<Rightarrow> fetch_pc) \<Rightarrow> nat \<Rightarrow> fetch_pc" where
  "rouse W f t = (if t \<in> W \<and> f t = Fetch_wait then Fetch_woken else f t)"

text \<open>\<open>C\<close> are the threads that may call \<^verbatim>\<open>fetchOne\<close>.\<close>

inductive rq_step :: "nat set \<Rightarrow> rq_state \<Rightarrow> rq_state \<Rightarrow> bool" for C :: "nat set" where
  run_loop: "rq_run s = Run_test \<Longrightarrow>
    rq_step C s (s\<lparr>rq_run := if rc_running s then Run_recv else Run_done\<rparr>)"
| recv_error: "rq_run s = Run_recv \<Longrightarrow> rq_step C s (s\<lparr>rq_run := Run_test\<rparr>)"
| recv: "rq_run s = Run_recv \<Longrightarrow> recv_element msg = Inr ie \<Longrightarrow>
    rq_step C s (s\<lparr>rq_run := Run_lock ie, rq_msgs := rq_msgs s @ [msg]\<rparr>)"
| run_lock: "rq_run s = Run_lock ie \<Longrightarrow> rc_lock s = None \<Longrightarrow>
    rq_step C s (s\<lparr>rc_lock := Some Runner, rq_run := Run_push ie\<rparr>)"
| run_push: "rq_run s = Run_push ie \<Longrightarrow> enqueue (rc_elements s) ie = (es, is_signal) \<Longrightarrow>
    rq_step C s (s\<lparr>rc_elements := es, rq_run := Run_unlock is_signal\<rparr>)"
| run_unlock: "rq_run s = Run_unlock is_signal \<Longrightarrow>
    rq_step C s (s\<lparr>rc_lock := None, rq_run := if is_signal then Run_signal else Run_test\<rparr>)"
| run_signal: "rq_run s = Run_signal \<Longrightarrow> signal_ok True (sleepers (rq_fetch s)) W \<Longrightarrow>
    rq_step C s (s\<lparr>rq_run := Run_test, rq_fetch := rouse W (rq_fetch s)\<rparr>)"
| fetch_call: "t \<in> C \<Longrightarrow> rq_fetch s t = Fetch_out \<Longrightarrow>
    rq_step C s (s\<lparr>rq_fetch := (rq_fetch s)(t := Fetch_lock)\<rparr>)"
| fetch_lock: "rq_fetch s t = Fetch_lock \<or> rq_fetch s t = Fetch_woken \<Longrightarrow> rc_lock s = None \<Longrightarrow>
    rq_step C s (s\<lparr>rc_lock := Some (Fetcher t), rq_fetch := (rq_fetch s)(t := Fetch_test)\<rparr>)"
| fetch_wait: "rq_fetch s t = Fetch_test \<Longrightarrow> fetchOne (rc_elements s) = None \<Longrightarrow>
    rq_step C s (s\<lparr>rc_lock := None, rq_fetch := (rq_fetch s)(t := Fetch_wait)\<rparr>)"
| fetch_pop: "rq_fetch s t = Fetch_test \<Longrightarrow> fetchOne (rc_elements s) = Some (ie, rest) \<Longrightarrow>
    rq_step C s (s\<lparr>rc_elements := rest, rq_fetch := (rq_fetch s)(t := Fetch_unlock ie),
      rq_fetched := rq_fetched s @ [(t, ie)]\<rparr>)"
| fetch_unlock: "rq_fetch s t = Fetch_unlock ie \<Longrightarrow>
    rq_step C s (s\<lparr>rc_lock := None, rq_fetch := (rq_fetch s)(t := Fetch_out)\<rparr>)"
| fetch_spurious: "rq_fetch s t = Fetch_wait \<Longrightarrow>
    rq_step C s (s\<lparr>rq_fetch := (rq_fetch s)(t := Fetch_woken)\<rparr>)"

text \<open>
  The start: \<^verbatim>\<open>stage::init\<close> makes a receiver and hands it the resources; \<^verbatim>\<open>run\<close> connects and either
  enters its loop or clears \<^verbatim>\<open>running\<close> and returns.
\<close>

definition rq_start :: "string list \<Rightarrow> bool \<Rightarrow> rq_state" where
  "rq_start res ok = receiver.extend ((rc_setResources res new_receiver)\<lparr>rc_running := ok\<rparr>)
     \<lparr>rq_run = (if ok then Run_test else Run_done), rq_fetch = (\<lambda>_. Fetch_out), rq_msgs = [], rq_fetched = []\<rparr>"

definition rq_init :: "zmq_api \<Rightarrow> string list \<Rightarrow> rq_state \<Rightarrow> bool" where
  "rq_init z res s \<longleftrightarrow> (\<exists>ok. receiver_connect z res = Inr ok \<and> s = rq_start res ok)"

section \<open>Invariants\<close>

fun in_hand :: "run_pc \<Rightarrow> element list" where
  "in_hand (Run_lock ie) = [ie]"
| "in_hand (Run_push ie) = [ie]"
| "in_hand _ = []"

text \<open>Every message is, as an element and in order, fetched, queued or in the hands of the runner.\<close>

definition rq_fifo :: "rq_state \<Rightarrow> bool" where
  "rq_fifo s \<longleftrightarrow> map recv_element (rq_msgs s) = map Inr (map snd (rq_fetched s) @ rc_elements s @ in_hand (rq_run s))"

text \<open>The mutex is held by the thread that is inside.\<close>

fun run_inside :: "run_pc \<Rightarrow> bool" where
  "run_inside (Run_push ie) = True"
| "run_inside (Run_unlock b) = True"
| "run_inside _ = False"

fun fetch_inside :: "fetch_pc \<Rightarrow> bool" where
  "fetch_inside Fetch_test = True"
| "fetch_inside (Fetch_unlock ie) = True"
| "fetch_inside _ = False"

definition rq_mutex :: "rq_state \<Rightarrow> bool" where
  "rq_mutex s \<longleftrightarrow> (run_inside (rq_run s) \<longleftrightarrow> rc_lock s = Some Runner) \<and>
     (\<forall>t. fetch_inside (rq_fetch s t) \<longleftrightarrow> rc_lock s = Some (Fetcher t))"

text \<open>Only \<open>c\<close> calls \<^verbatim>\<open>fetchOne\<close>; when it sleeps beside a queued element, the signal is on its way.\<close>

definition rq_awake :: "nat \<Rightarrow> rq_state \<Rightarrow> bool" where
  "rq_awake c s \<longleftrightarrow> (\<forall>t. rq_fetch s t \<noteq> Fetch_out \<longrightarrow> t = c) \<and>
     (rq_fetch s c = Fetch_wait \<longrightarrow> rc_elements s = [] \<or> rq_run s = Run_unlock True \<or> rq_run s = Run_signal)"

lemma rq_start_fields [simp]:
  "rc_elements (rq_start res ok) = []" "rc_lock (rq_start res ok) = None" "rc_running (rq_start res ok) = ok"
  "rq_run (rq_start res ok) = (if ok then Run_test else Run_done)" "rq_fetch (rq_start res ok) = (\<lambda>_. Fetch_out)"
  "rq_msgs (rq_start res ok) = []" "rq_fetched (rq_start res ok) = []"
  by (simp_all add: rq_start_def receiver.defs rc_setResources_def new_receiver_def)

lemma fetchOne_simps [simp]:
  "fetchOne es = None \<longleftrightarrow> es = []" "fetchOne es = Some (ie, rest) \<longleftrightarrow> es = ie # rest"
  by (auto simp: fetchOne_def split: list.splits)

lemma fetch_inside_rouse [simp]: "fetch_inside (rouse W f t) = fetch_inside (f t)"
  by (simp add: rouse_def)

lemma rouse_out [simp]: "rouse W f t = Fetch_out \<longleftrightarrow> f t = Fetch_out"
  by (simp add: rouse_def)

lemma rq_fifo_step: "rq_fifo s \<Longrightarrow> rq_step C s s' \<Longrightarrow> rq_fifo s'"
  by (erule rq_step.cases) (auto simp: rq_fifo_def enqueue_def Let_def)

lemma rq_mutex_step:
  assumes "rq_mutex s" and "rq_step C s s'"
  shows "rq_mutex s'"
  using assms(2)
proof cases
  case (fetch_wait t)
  then have "rc_lock s = Some (Fetcher t)" using assms(1) by (metis fetch_inside.simps(1) rq_mutex_def)
  with fetch_wait assms(1) show ?thesis by (simp add: rq_mutex_def)
next
  case (fetch_pop t ie rest)
  then have "rc_lock s = Some (Fetcher t)" using assms(1) by (metis fetch_inside.simps(1) rq_mutex_def)
  with fetch_pop assms(1) show ?thesis by (simp add: rq_mutex_def)
next
  case (fetch_unlock t ie)
  then have "rc_lock s = Some (Fetcher t)" using assms(1) by (metis fetch_inside.simps(2) rq_mutex_def)
  with fetch_unlock assms(1) show ?thesis by (simp add: rq_mutex_def)
next
  case (fetch_call t)
  then show ?thesis using assms(1) unfolding rq_mutex_def by (auto dest: spec [of _ t])
next
  case (fetch_spurious t)
  then show ?thesis using assms(1) unfolding rq_mutex_def by (auto dest: spec [of _ t])
qed (use assms(1) in \<open>auto simp: rq_mutex_def\<close>)

lemma rq_awake_only: "rq_awake c s \<Longrightarrow> rq_fetch s t \<noteq> Fetch_out \<Longrightarrow> t = c"
  by (simp add: rq_awake_def)

lemma rq_awake_step:
  assumes "rq_awake c s" and "rq_step {c} s s'"
  shows "rq_awake c s'"
  using assms(2)
proof cases
  case (run_signal W)
  have "sleepers (rq_fetch s) \<subseteq> {c}" using assms(1) by (auto simp: sleepers_def rq_awake_def)
  then have "rq_fetch s c = Fetch_wait \<Longrightarrow> c \<in> W"
    using run_signal(3) by (auto simp: signal_ok_def sleepers_def)
  then show ?thesis using run_signal assms(1) by (auto simp: rq_awake_def rouse_def)
next
  case (fetch_lock t)
  then have "t = c" using rq_awake_only [OF assms(1), of t] by auto
  with fetch_lock assms(1) show ?thesis by (auto simp: rq_awake_def)
next
  case (fetch_wait t)
  then have "t = c" using rq_awake_only [OF assms(1), of t] by auto
  with fetch_wait assms(1) show ?thesis by (auto simp: rq_awake_def)
next
  case (fetch_pop t ie rest)
  then have "t = c" using rq_awake_only [OF assms(1), of t] by auto
  with fetch_pop assms(1) show ?thesis by (auto simp: rq_awake_def)
next
  case (fetch_unlock t ie)
  then have "t = c" using rq_awake_only [OF assms(1), of t] by auto
  with fetch_unlock assms(1) show ?thesis by (auto simp: rq_awake_def)
next
  case (fetch_spurious t)
  then have "t = c" using rq_awake_only [OF assms(1), of t] by auto
  with fetch_spurious assms(1) show ?thesis by (auto simp: rq_awake_def)
qed (use assms(1) in \<open>auto simp: rq_awake_def enqueue_def Let_def\<close>)

interpretation rqs: invariant_system "rq_init z res" "rq_step C" "\<lambda>s. rq_fifo s \<and> rq_mutex s" for z res C
proof unfold_locales
  show "rq_init z res s \<Longrightarrow> rq_fifo s \<and> rq_mutex s" for s
    by (auto simp: rq_init_def rq_fifo_def rq_mutex_def split: if_splits)
qed (auto intro: rq_fifo_step rq_mutex_step)

interpretation rqw: invariant_system "rq_init z res" "rq_step {c}" "rq_awake c" for z res c
proof unfold_locales
  show "rq_init z res s \<Longrightarrow> rq_awake c s" for s by (auto simp: rq_init_def rq_awake_def)
qed (rule rq_awake_step)

section \<open>Progress\<close>

text \<open>A step without a new message and without a spurious wake-up of \<open>c\<close>.\<close>

definition rq_quiet :: "nat \<Rightarrow> rq_state \<Rightarrow> rq_state \<Rightarrow> bool" where
  "rq_quiet c s s' \<longleftrightarrow> rq_step {c} s s' \<and> rq_msgs s' = rq_msgs s \<and>
     (rq_fetch s c = Fetch_wait \<longrightarrow> rq_fetch s' c = Fetch_wait \<or> rq_run s = Run_signal)"

definition fetches :: "nat \<Rightarrow> element \<Rightarrow> rq_state \<Rightarrow> bool" where
  "fetches c e s \<longleftrightarrow> (\<exists>s'. (rq_quiet c)\<^sup>*\<^sup>* s s' \<and> rq_fetched s' = rq_fetched s @ [(c, e)])"

lemma fetches_step: "rq_quiet c s t \<Longrightarrow> rq_fetched t = rq_fetched s \<Longrightarrow> fetches c e t \<Longrightarrow> fetches c e s"
  unfolding fetches_def by (metis converse_rtranclp_into_rtranclp)

lemma fetches_test:
  assumes "rq_fetch s c = Fetch_test" and "rc_elements s = e # es"
  shows "fetches c e s"
proof -
  let ?t = "s\<lparr>rc_elements := es, rq_fetch := (rq_fetch s)(c := Fetch_unlock e), rq_fetched := rq_fetched s @ [(c, e)]\<rparr>"
  have "rq_quiet c s ?t" using assms by (auto simp: rq_quiet_def intro: fetch_pop)
  then show ?thesis unfolding fetches_def by (intro exI [of _ ?t]) auto
qed

lemma fetches_lock:
  assumes "rq_fetch s c = Fetch_lock \<or> rq_fetch s c = Fetch_woken" and "rc_lock s = None" and "rc_elements s = e # es"
  shows "fetches c e s"
proof (rule fetches_step)
  let ?t = "s\<lparr>rc_lock := Some (Fetcher c), rq_fetch := (rq_fetch s)(c := Fetch_test)\<rparr>"
  show "rq_quiet c s ?t" using assms by (auto simp: rq_quiet_def intro: fetch_lock)
  show "fetches c e ?t" by (rule fetches_test) (simp_all add: assms(3))
qed simp

lemma fetches_signal:
  assumes "rq_run s = Run_signal" and "rq_fetch s c = Fetch_wait" and "rc_lock s = None" and "rc_elements s = e # es"
  shows "fetches c e s"
proof (rule fetches_step)
  let ?t = "s\<lparr>rq_run := Run_test, rq_fetch := rouse {c} (rq_fetch s)\<rparr>"
  have "signal_ok True (sleepers (rq_fetch s)) {c}" using assms(2) by (simp add: signal_ok_def sleepers_def)
  then show "rq_quiet c s ?t" using assms(1) by (auto simp: rq_quiet_def intro: run_signal)
  show "fetches c e ?t" by (rule fetches_lock) (simp_all add: assms rouse_def)
qed simp

lemma fetches_unlock:
  assumes "rq_run s = Run_unlock b" and "rc_elements s = e # es" and "rq_awake c s"
    and "rq_fetch s c = Fetch_lock \<or> rq_fetch s c = Fetch_woken \<or> rq_fetch s c = Fetch_wait"
  shows "fetches c e s"
proof (rule fetches_step)
  let ?t = "s\<lparr>rc_lock := None, rq_run := if b then Run_signal else Run_test\<rparr>"
  have step: "rq_step {c} s ?t" by (rule run_unlock) (rule assms(1))
  then show "rq_quiet c s ?t" by (simp add: rq_quiet_def)
  have awake: "rq_awake c ?t" using rq_awake_step [OF assms(3) step] .
  show "fetches c e ?t"
  proof (cases "rq_fetch s c = Fetch_wait")
    case True
    then have b using assms(1-3) by (simp add: rq_awake_def)
    then show ?thesis by (intro fetches_signal) (use True assms(2) awake in auto)
  qed (rule fetches_lock, use assms(2,4) in auto)
qed simp

lemma fetches_push:
  assumes "rq_run s = Run_push ie" and "rc_elements s = e # es" and "rq_awake c s"
    and "rq_fetch s c = Fetch_lock \<or> rq_fetch s c = Fetch_woken"
  shows "fetches c e s"
proof (rule fetches_step)
  let ?t = "s\<lparr>rc_elements := rc_elements s @ [ie], rq_run := Run_unlock False\<rparr>"
  have step: "rq_step {c} s ?t" by (rule run_push [OF assms(1)]) (simp add: enqueue_def assms(2))
  then show "rq_quiet c s ?t" by (simp add: rq_quiet_def)
  show "fetches c e ?t"
    by (rule fetches_unlock [OF _ _ rq_awake_step [OF assms(3) step]]) (use assms(2,4) in auto)
qed simp

lemma fetches_head:
  assumes "rq_mutex s" and "rq_awake c s" and "rc_elements s = e # es"
    and "rq_fetch s c \<in> {Fetch_lock, Fetch_test, Fetch_wait, Fetch_woken}"
  shows "fetches c e s"
proof (cases "rq_fetch s c = Fetch_test")
  case True
  then show ?thesis using assms(3) by (rule fetches_test)
next
  case False
  then have c: "rq_fetch s c = Fetch_lock \<or> rq_fetch s c = Fetch_woken \<or> rq_fetch s c = Fetch_wait"
    using assms(4) by auto
  then have out: "\<not> fetch_inside (rq_fetch s t)" for t
    using rq_awake_only [OF assms(2), of t] by (cases "rq_fetch s t") auto
  consider b where "rq_run s = Run_unlock b" | ie where "rq_run s = Run_push ie" | "\<not> run_inside (rq_run s)"
    by (cases "rq_run s") auto
  then show ?thesis
  proof cases
    case 2
    then have "rq_fetch s c \<noteq> Fetch_wait" using assms(2,3) by (auto simp: rq_awake_def)
    with 2 c show ?thesis using fetches_push assms(2,3) by blast
  next
    case 3
    then have "rc_lock s = None"
      using assms(1) out unfolding rq_mutex_def by (cases "rc_lock s") (auto, metis rq_thread.exhaust)
    with 3 c show ?thesis
      using fetches_lock fetches_signal assms(2,3) by (auto simp: rq_awake_def)
  qed (rule fetches_unlock [OF _ assms(3,2) c])
qed

section \<open>Properties\<close>

text \<open>An example: thread 3 goes to sleep, then a message arrives and the signal is still to be sent.\<close>

definition ex_rq :: "rq_thread option \<Rightarrow> element list \<Rightarrow> run_pc \<Rightarrow> fetch_pc \<Rightarrow> byte list list \<Rightarrow> rq_state" where
  "ex_rq l es p f ms = \<lparr>rc_res = [''tcp''], rc_lock = l, rc_elements = es, rc_running = True, rq_run = p,
     rq_fetch = (\<lambda>_. Fetch_out)(3 := f), rq_msgs = ms, rq_fetched = []\<rparr>"

lemma reach_ex_rq:
  assumes ie: "recv_element m = Inr ie"
  shows "reach (rq_init ex_zmq [''tcp'']) (rq_step {3}) (ex_rq None [ie] Run_signal Fetch_wait [m])"
proof -
  let ?R = "reach (rq_init ex_zmq [''tcp'']) (rq_step {3})"
  have go: "?R t" if "?R s" "rq_step {3} s u" "u = t" for s t u using that by (auto intro: reach.reach_step)
  have "rq_init ex_zmq [''tcp''] (ex_rq None [] Run_test Fetch_out [])"
    by (auto simp: rq_init_def receiver_connect_def c_assert_def ex_zmq_def ex_rq_def rq_start_def receiver.defs
        rc_setResources_def new_receiver_def fun_eq_iff)
  then have "?R (ex_rq None [] Run_test Fetch_out [])" by (rule reach.reach_init)
  then have "?R (ex_rq None [] Run_test Fetch_lock [])" by (rule go) (rule fetch_call [of 3], simp_all add: ex_rq_def)
  then have "?R (ex_rq (Some (Fetcher 3)) [] Run_test Fetch_test [])"
    by (rule go) (rule fetch_lock [of _ 3], simp_all add: ex_rq_def)
  then have "?R (ex_rq None [] Run_test Fetch_wait [])" by (rule go) (rule fetch_wait [of _ 3], simp_all add: ex_rq_def)
  then have "?R (ex_rq None [] Run_recv Fetch_wait [])" by (rule go) (rule run_loop, simp_all add: ex_rq_def)
  then have "?R (ex_rq None [] (Run_lock ie) Fetch_wait [m])" by (rule go) (rule recv [OF _ ie], simp_all add: ex_rq_def)
  then have "?R (ex_rq (Some Runner) [] (Run_push ie) Fetch_wait [m])"
    by (rule go) (rule run_lock, simp_all add: ex_rq_def)
  then have "?R (ex_rq (Some Runner) [ie] (Run_unlock True) Fetch_wait [m])"
    by (rule go) (rule run_push [where ie = ie and is_signal = True and es = "[ie]"], simp_all add: ex_rq_def enqueue_def)
  then show ?thesis by (rule go) (rule run_unlock [where is_signal = True], simp_all add: ex_rq_def)
qed

lemma recv_element_total: "\<exists>ie. recv_element msg = Inr ie"
  using receive_eq [of "[]" msg] by (auto simp: receive_def res_bind_Inr_iff)

text \<open>
  C31: the queue of the receiver is lossless and in order under every interleaving and for any number
  of callers of \<^verbatim>\<open>fetchOne\<close>: the messages received are, in their order, the elements fetched, those still
  queued and the one the receiver is about to queue; no two threads are inside at the same time.
\<close>

theorem receiver_queue_fifo:
  assumes "reach (rq_init z res) (rq_step C) s"
  shows "map recv_element (rq_msgs s) = map Inr (map snd (rq_fetched s) @ rc_elements s @ in_hand (rq_run s)) \<and>
    (fetch_inside (rq_fetch s t) \<longrightarrow> \<not> run_inside (rq_run s) \<and> (\<forall>u. fetch_inside (rq_fetch s u) \<longrightarrow> u = t))"
  using rqs.reach_inv [OF assms] by (auto simp: rq_fifo_def rq_mutex_def)

theorem receiver_queue_fifo_witness:
  "\<exists>ie. recv_element [0x68] = Inr ie \<and> map recv_element (rq_msgs (ex_rq None [ie] Run_signal Fetch_wait [[0x68]])) =
     map Inr (rc_elements (ex_rq None [ie] Run_signal Fetch_wait [[0x68]]))"
proof -
  obtain ie where ie: "recv_element [0x68] = Inr ie" using recv_element_total by blast
  show ?thesis
    using receiver_queue_fifo [OF reach_ex_rq [OF ie], of 3] ie by (intro exI [of _ ie]) (simp add: ex_rq_def)
qed

text \<open>
  C32: with the one caller that a stage has, the receiver loses no wake-up, although it signals
  only for the first element and after releasing the mutex: a caller asleep beside a queued element has
  its signal on the way, and whenever an element is queued while \<^verbatim>\<open>fetchOne\<close> runs, the two threads
  can, without a new message and without a spurious wake-up, complete the call with the oldest element.
\<close>

theorem receiver_fetch_progress:
  assumes "reach (rq_init z res) (rq_step {c}) s" and "rc_elements s = e # es"
  shows "(rq_fetch s c = Fetch_wait \<longrightarrow> rq_run s = Run_unlock True \<or> rq_run s = Run_signal) \<and>
    (rq_fetch s c \<in> {Fetch_lock, Fetch_test, Fetch_wait, Fetch_woken} \<longrightarrow>
      (\<exists>s'. (rq_quiet c)\<^sup>*\<^sup>* s s' \<and> rq_fetched s' = rq_fetched s @ [(c, e)]))"
proof -
  have "rq_awake c s" and "rq_mutex s" using rqw.reach_inv [OF assms(1)] rqs.reach_inv [OF assms(1)] by simp_all
  then show ?thesis
    using fetches_head [of s c e es] assms(2) by (simp add: fetches_def rq_awake_def)
qed

theorem receiver_fetch_progress_witness:
  "\<exists>ie s'. recv_element [0x68] = Inr ie \<and>
     (rq_quiet 3)\<^sup>*\<^sup>* (ex_rq None [ie] Run_signal Fetch_wait [[0x68]]) s' \<and> rq_fetched s' = [(3, ie)]"
proof -
  obtain ie where ie: "recv_element [0x68] = Inr ie" using recv_element_total by blast
  then show ?thesis
    using receiver_fetch_progress [OF reach_ex_rq [OF ie], of ie "[]"] by (auto simp: ex_rq_def)
qed

end
