(* ===== verification/Seda.thy ===== *)
theory Seda
  imports Logging
begin

text \<open>
  \<^verbatim>\<open>seda.cpp\<close>: the graph of stages and messages, \<^verbatim>\<open>seda_object.cpp\<close>: the reference count, and the
  constructor of \<^verbatim>\<open>config.cpp\<close>. Stages and messages are pointers (numbers); \<open>new\<close> hands out pointers
  that are not in use.
\<close>

section \<open>The stage graph\<close>

record seda =
  stage_names :: "nat \<rightharpoonup> string"
  stages :: "string \<rightharpoonup> nat"
  stages_v :: "nat list"
  msg_relat :: "nat \<rightharpoonup> nat option \<times> nat option"

definition new_seda :: seda where
  "new_seda = \<lparr>stage_names = Map.empty, stages = Map.empty, stages_v = [], msg_relat = Map.empty\<rparr>"

text \<open>
  The calls of \<^verbatim>\<open>LogUtil::debug\<close> count for what can fault in them, the line of 128 bytes. \<open>sg\<close> is the pointer
  of the new stage; \<open>None\<close> is the returned \<^verbatim>\<open>NULL\<close>.
\<close>

definition stage_line :: "string \<Rightarrow> byte list" where
  "stage_line name = bytes_of ''The stage : '' @ c_str (bytes_of name) @ bytes_of '' is already existed''"

definition create_stage :: "nat \<Rightarrow> string \<Rightarrow> seda \<Rightarrow> (seda \<times> nat option) result" where
  "create_stage sg name s =
     (let s = s\<lparr>stage_names := (stage_names s)(sg \<mapsto> name)\<rparr> in
      if stages s name \<noteq> None then res_bind (debug_line (stage_line name)) (\<lambda>_. Inr (s, None))
      else Inr (s\<lparr>stages := (stages s)(name \<mapsto> sg), stages_v := stages_v s @ [sg]\<rparr>, Some sg))"

text \<open>Pointers to stages may be \<^verbatim>\<open>NULL\<close>, as \<^verbatim>\<open>create_stage\<close> returns it.\<close>

definition msgExist2Stages :: "seda \<Rightarrow> nat option \<Rightarrow> nat option \<Rightarrow> nat \<Rightarrow> bool" where
  "msgExist2Stages s src dst sm = (case msg_relat s sm of
      None \<Rightarrow> True
    | Some (a, b) \<Rightarrow> if a = src \<and> b = dst then False else True)"

definition addSM :: "seda \<Rightarrow> nat option \<Rightarrow> nat option \<Rightarrow> nat \<Rightarrow> seda" where
  "addSM s src dst sm = (if msg_relat s sm = None then s\<lparr>msg_relat := (msg_relat s)(sm \<mapsto> (src, dst))\<rparr> else s)"

text \<open>
  \<open>sm\<close> is the pointer of the new \<^verbatim>\<open>stage_message\<close>. The message for the log calls \<^verbatim>\<open>get_stage_name\<close> on both stages.
\<close>

definition deref_name :: "seda \<Rightarrow> nat option \<Rightarrow> string result" where
  "deref_name s p = (case p of
      None \<Rightarrow> Inl Null_deref
    | Some p \<Rightarrow> (case stage_names s p of None \<Rightarrow> Inl Use_after_free | Some name \<Rightarrow> Inr name))"

definition edge_line :: "string \<Rightarrow> string \<Rightarrow> string \<Rightarrow> byte list" where
  "edge_line msg a b = bytes_of ''The msg : '' @ c_str (bytes_of msg) @ bytes_of '' is already exsited from the stage : '' @
     c_str (bytes_of a) @ bytes_of '' to stage : '' @ c_str (bytes_of b)"

definition add_msg_edge :: "string \<Rightarrow> nat \<Rightarrow> nat option \<Rightarrow> nat option \<Rightarrow> seda \<Rightarrow> (seda \<times> bool) result" where
  "add_msg_edge msg sm src dst s =
     (if msgExist2Stages s src dst sm then
        res_bind (deref_name s src) (\<lambda>a. res_bind (deref_name s dst) (\<lambda>b.
        res_bind (debug_line (edge_line msg a b)) (\<lambda>_. Inr (s, False))))
      else Inr (addSM s src dst sm, True))"

text \<open>\<^verbatim>\<open>stage::run\<close> is \<^verbatim>\<open>while (true) {}\<close>; \<^verbatim>\<open>SEDA::run\<close> runs the stages one after the other.\<close>

partial_function (option) stage_run :: "nat \<Rightarrow> bool option" where
  "stage_run p = stage_run p"

fun seda_run :: "nat list \<Rightarrow> bool option" where
  "seda_run [] = Some True"
| "seda_run (p # ps) = do { ok \<leftarrow> stage_run p; if \<not> ok then Some False else seda_run ps }"

inductive seda_step :: "seda \<Rightarrow> seda \<Rightarrow> bool" where
  create: "stage_names s sg = None \<Longrightarrow> create_stage sg name s = Inr (s', r) \<Longrightarrow> seda_step s s'"
| edge: "msg_relat s sm = None \<Longrightarrow> add_msg_edge msg sm src dst s = Inr (s', r) \<Longrightarrow> seda_step s s'"

definition seda_inv :: "seda \<Rightarrow> bool" where
  "seda_inv s \<longleftrightarrow> msg_relat s = Map.empty \<and> set (stages_v s) \<subseteq> dom (stage_names s) \<and>
     distinct (map (stage_names s) (stages_v s)) \<and>
     (\<forall>n p. stages s n = Some p \<longleftrightarrow> p \<in> set (stages_v s) \<and> stage_names s p = Some n)"

lemma create_stage_inv:
  assumes I: "seda_inv s" and new: "stage_names s sg = None" and c: "create_stage sg name s = Inr (s', r)"
  shows "seda_inv s'"
proof -
  have notin: "sg \<notin> set (stages_v s)" using I new by (auto simp: seda_inv_def)
  then have names: "map ((stage_names s)(sg \<mapsto> name)) (stages_v s) = map (stage_names s) (stages_v s)" by auto
  have iff: "stages s n = Some p \<longleftrightarrow> p \<in> set (stages_v s) \<and> stage_names s p = Some n" for n p
    using I by (simp add: seda_inv_def)
  have rest: "msg_relat s = Map.empty" "set (stages_v s) \<subseteq> dom (stage_names s)"
    "distinct (map (stage_names s) (stages_v s))" using I by (simp_all add: seda_inv_def)
  show ?thesis
  proof (cases "stages s name")
    case None
    then have s': "s' = s\<lparr>stage_names := (stage_names s)(sg \<mapsto> name), stages := (stages s)(name \<mapsto> sg),
        stages_v := stages_v s @ [sg]\<rparr>"
      using c by (auto simp: create_stage_def)
    have fresh: "stage_names s p \<noteq> Some name" if "p \<in> set (stages_v s)" for p
      using iff [of name p] None that by simp
    have "stages s' n = Some p \<longleftrightarrow> p \<in> set (stages_v s') \<and> stage_names s' p = Some n" for n p
      using iff [of n p] fresh [of p] notin by (auto simp: s')
    moreover have "distinct (map (stage_names s') (stages_v s'))"
    proof -
      have "Some name \<notin> set (map (stage_names s) (stages_v s))" using fresh by force
      moreover have "map (stage_names s') (stages_v s') = map (stage_names s) (stages_v s) @ [Some name]"
        by (simp add: s' names)
      ultimately show ?thesis using rest(3) by simp
    qed
    ultimately show ?thesis using rest(1,2) by (auto simp: seda_inv_def s')
  next
    case (Some p)
    then have s': "s' = s\<lparr>stage_names := (stage_names s)(sg \<mapsto> name)\<rparr>"
      using c by (auto simp: create_stage_def res_bind_Inr_iff)
    have "stages s' n = Some p \<longleftrightarrow> p \<in> set (stages_v s') \<and> stage_names s' p = Some n" for n p
      using iff [of n p] notin by (auto simp: s')
    moreover have eq: "map (stage_names s') (stages_v s') = map (stage_names s) (stages_v s)" by (simp add: s' names)
    moreover have "distinct (map (stage_names s') (stages_v s'))" unfolding eq by (rule rest(3))
    ultimately show ?thesis using rest(1,2) by (auto simp: seda_inv_def s')
  qed
qed

lemma edge_line_no_nul: "0 \<notin> set (edge_line msg a b)"
  using nul_notin_c_str by (auto simp: edge_line_def) (simp_all add: bytes_of_def)

text \<open>A message at a new address is taken for an existing one.\<close>

lemma add_msg_edge_fresh:
  "msg_relat s sm = None \<Longrightarrow> add_msg_edge msg sm src dst s =
     res_bind (deref_name s src) (\<lambda>a. res_bind (deref_name s dst) (\<lambda>b.
       if length (edge_line msg a b) \<le> 118 then Inr (s, False) else Inl Out_of_bounds))"
proof -
  have "res_bind (debug_line (edge_line msg a b)) (\<lambda>_. Inr (s, False)) =
      (if length (edge_line msg a b) \<le> 118 then Inr (s, False) else Inl Out_of_bounds)" for a b
    by (simp add: debug_line_eq [OF edge_line_no_nul])
  then show "msg_relat s sm = None \<Longrightarrow> add_msg_edge msg sm src dst s = res_bind (deref_name s src) (\<lambda>a. res_bind (deref_name s dst)
      (\<lambda>b. if length (edge_line msg a b) \<le> 118 then Inr (s, False) else Inl Out_of_bounds))"
    by (simp add: add_msg_edge_def msgExist2Stages_def)
qed

interpretation sds: invariant_system "\<lambda>s. s = new_seda" seda_step seda_inv
proof unfold_locales
  show "s = new_seda \<Longrightarrow> seda_inv s" for s by (simp add: seda_inv_def new_seda_def)
  show "seda_inv s \<Longrightarrow> seda_step s t \<Longrightarrow> seda_inv t" for s t
    by (erule seda_step.cases) (auto intro: create_stage_inv simp: add_msg_edge_fresh res_bind_Inr_iff split: if_splits)
qed

lemma stage_run_diverges: "stage_run p = None"
proof -
  have "stage_run p \<noteq> Some b" for b
  proof
    assume "stage_run p = Some b"
    then show False by (rule stage_run.raw_induct [of "\<lambda>_ _. False", rotated]) blast
  qed
  then show ?thesis by (cases "stage_run p") auto
qed

text \<open>
  C39: the registry of stages is consistent in every reachable state: the stages in the vector have
  pairwise different names and the map finds exactly them; but no message edge is ever recorded,
  since a new message is reported as existing: \<^verbatim>\<open>add_msg_edge\<close> returns false, or faults, on a \<^verbatim>\<open>NULL\<close> stage or when its report
  does not fit into a line of the log. With at least one stage \<^verbatim>\<open>SEDA::run\<close> does not return.
\<close>

theorem seda_registry:
  assumes "reach (\<lambda>s. s = new_seda) seda_step s"
  shows "distinct (map (stage_names s) (stages_v s)) \<and>
    (stages s n = Some p \<longleftrightarrow> p \<in> set (stages_v s) \<and> stage_names s p = Some n) \<and>
    msg_relat s = Map.empty \<and>
    add_msg_edge msg sm src dst s =
      res_bind (deref_name s src) (\<lambda>a. res_bind (deref_name s dst) (\<lambda>b.
        if length (edge_line msg a b) \<le> 118 then Inr (s, False) else Inl Out_of_bounds)) \<and>
    seda_run (stages_v s) = (if stages_v s = [] then Some True else None)"
proof -
  have "seda_inv s" using assms by (rule sds.reach_inv)
  moreover have "seda_run (stages_v s) = (if stages_v s = [] then Some True else None)"
    by (cases "stages_v s") (simp_all add: stage_run_diverges)
  ultimately show ?thesis by (auto simp: seda_inv_def add_msg_edge_fresh)
qed

theorem seda_registry_witness:
  "\<exists>s. reach (\<lambda>s. s = new_seda) seda_step s \<and> stages s ''a'' = Some 3 \<and> add_msg_edge ''m'' 9 (Some 3) (Some 3) s = Inr (s, False) \<and>
     add_msg_edge ''m'' 9 (Some 3) None s = Inl Null_deref \<and> seda_run (stages_v s) = None"
proof -
  let ?s = "new_seda\<lparr>stage_names := [3 \<mapsto> ''a''], stages := [''a'' \<mapsto> 3], stages_v := [3]\<rparr>"
  have "seda_step new_seda ?s" by (rule seda_step.create [of _ 3 "''a''" _ "Some 3"]) (auto simp: new_seda_def create_stage_def)
  then have R: "reach (\<lambda>s. s = new_seda) seda_step ?s" by (auto intro: reach.intros)
  note reg = seda_registry [OF R, of "''a''" 3 "''m''" 9 "Some 3"]
  have l: "length (edge_line ''m'' ''a'' ''a'') \<le> 118"
    by (simp add: edge_line_def bytes_of_def c_str_def)
  have "add_msg_edge ''m'' 9 (Some 3) (Some 3) ?s = Inr (?s, False)" "add_msg_edge ''m'' 9 (Some 3) None ?s = Inl Null_deref"
    using reg [of "Some 3"] reg [of None] l by (simp_all add: deref_name_def)
  moreover have "seda_run (stages_v ?s) = None" using reg [of None] by simp
  ultimately show ?thesis using R by (intro exI [of _ ?s]) (simp del: seda_run.simps)
qed

text \<open>
  \<^verbatim>\<open>test_seda_framework.cpp\<close>: four stages at the addresses \<open>p1\<close> to \<open>p4\<close>, five messages at \<open>m1\<close> to \<open>m5\<close>, then \<^verbatim>\<open>run\<close>. The
  result is the graph, the values \<^verbatim>\<open>add_msg_edge\<close> returned, and what \<^verbatim>\<open>run\<close> returns.
\<close>

definition test_seda_main ::
    "nat \<Rightarrow> nat \<Rightarrow> nat \<Rightarrow> nat \<Rightarrow> nat \<Rightarrow> nat \<Rightarrow> nat \<Rightarrow> nat \<Rightarrow> nat \<Rightarrow> (seda \<times> bool list \<times> bool option) result" where
  "test_seda_main p1 p2 p3 p4 m1 m2 m3 m4 m5 =
     res_bind (create_stage p1 ''accept'' new_seda) (\<lambda>(s, s1).
     res_bind (create_stage p2 ''process'' s) (\<lambda>(s, s2).
     res_bind (create_stage p3 ''log'' s) (\<lambda>(s, s3).
     res_bind (create_stage p4 ''write_back'' s) (\<lambda>(s, s4).
     res_bind (add_msg_edge ''accept'' m1 s1 s2 s) (\<lambda>(s, r1).
     res_bind (add_msg_edge ''accept'' m2 s1 s3 s) (\<lambda>(s, r2).
     res_bind (add_msg_edge ''process'' m3 s2 s3 s) (\<lambda>(s, r3).
     res_bind (add_msg_edge ''process'' m4 s2 s4 s) (\<lambda>(s, r4).
     res_bind (add_msg_edge ''write_back'' m5 s4 s3 s) (\<lambda>(s, r5).
     Inr (s, [r1, r2, r3, r4, r5], seda_run (stages_v s)))))))))))"

text \<open>The program builds four stages, no edge of its graph is accepted, and it does not end.\<close>

lemma length_edge_line: "length (edge_line msg a b) \<le> 59 + length msg + length a + length b"
proof -
  have "length (c_str (bytes_of x)) \<le> length x" for x using length_c_str_le [of "bytes_of x"] by simp
  from this [of msg] this [of a] this [of b] show ?thesis by (simp add: edge_line_def)
qed

lemma test_seda_main_result:
  assumes "distinct [p1, p2, p3, p4]"
  shows "\<exists>s. test_seda_main p1 p2 p3 p4 m1 m2 m3 m4 m5 = Inr (s, [False, False, False, False, False], None) \<and>
    stages_v s = [p1, p2, p3, p4] \<and> msg_relat s = Map.empty"
proof -
  have "length (edge_line msg a b) \<le> 118" if "length msg + length a + length b \<le> 59" for msg a b
    using length_edge_line [of msg a b] that by linarith
  then show ?thesis
    using assms
    by (simp add: test_seda_main_def create_stage_def new_seda_def add_msg_edge_fresh deref_name_def stage_run_diverges Let_def)
qed

section \<open>Reference counts\<close>

record seda_object =
  refcount :: int
  deleted :: bool

definition new_seda_object :: seda_object where
  "new_seda_object = \<lparr>refcount = 0, deleted = False\<rparr>"

definition incrRefCount :: "seda_object \<Rightarrow> seda_object" where
  "incrRefCount ob = ob\<lparr>refcount := refcount ob + 1\<rparr>"

definition decrRefCount :: "seda_object \<Rightarrow> seda_object" where
  "decrRefCount ob =
     (if refcount ob \<le> 0 then ob
      else if refcount ob = 1 then ob\<lparr>deleted := True\<rparr>
      else ob\<lparr>refcount := refcount ob - 1\<rparr>)"

definition resetRefcount :: "seda_object \<Rightarrow> seda_object" where
  "resetRefcount ob = ob\<lparr>refcount := 0\<rparr>"

lemma incr_many: "(incrRefCount ^^ n) ob = ob\<lparr>refcount := refcount ob + int n\<rparr>"
  by (induction n) (simp_all add: incrRefCount_def)

text \<open>An object that was shared \<open>Suc n\<close> times survives \<open>n\<close> releases and is deleted by the next.\<close>

lemma refcount_balanced:
  "(decrRefCount ^^ n) ((incrRefCount ^^ Suc n) new_seda_object) = \<lparr>refcount = 1, deleted = False\<rparr> \<and>
   deleted ((decrRefCount ^^ Suc n) ((incrRefCount ^^ Suc n) new_seda_object))"
proof -
  have dec: "(decrRefCount ^^ k) \<lparr>refcount = int m, deleted = False\<rparr> = \<lparr>refcount = int (m - k), deleted = False\<rparr>"
    if "k < m" for k m
    using that by (induction k) (auto simp: decrRefCount_def)
  have inc: "(incrRefCount ^^ Suc n) new_seda_object = \<lparr>refcount = int (Suc n), deleted = False\<rparr>"
    unfolding incr_many by (simp add: new_seda_object_def)
  have 1: "(decrRefCount ^^ n) \<lparr>refcount = int (Suc n), deleted = False\<rparr> = \<lparr>refcount = 1, deleted = False\<rparr>"
    using dec [of n "Suc n"] by simp
  then show ?thesis unfolding inc by (simp add: decrRefCount_def)
qed

section \<open>Configuration\<close>

text \<open>The constructor returns before it opens the file: there are no stage configurations.\<close>

definition Config_new :: "string \<Rightarrow> (string \<times> string) list" where
  "Config_new config_file = []"

end
