(* ===== verification/Tcp_Server.thy ===== *)
theory Tcp_Server
  imports Net_Loop Logging
begin

text \<open>
  The two servers around the event loops: \<^verbatim>\<open>tcp_server.cpp\<close>, which joins an acceptor and a worker pool over
  one task queue, and \<^verbatim>\<open>event_core.cpp\<close>, which joins a listening socket and an event loop; and the main program
  of \<^verbatim>\<open>acceptor_stage.cpp\<close>. The first two call constructors and members that the classes do not have in this
  version (\<^verbatim>\<open>acceptor(log)\<close>, \<^verbatim>\<open>acceptor::set_task_queue\<close>, the class \<^verbatim>\<open>_log\<close>, \<^verbatim>\<open>Loop(s)\<close>, \<^verbatim>\<open>Config::getListenPort\<close>);
  these are parameters here.
\<close>

section \<open>The TCP server\<close>

text \<open>
  The objects the server makes, by address; 0 is \<^verbatim>\<open>NULL\<close>. A pool is its task queue and whether it runs, an
  acceptor is of an unknown type \<open>'a\<close>.
\<close>

datatype 'a ts_object = Queue_object | Pool_object nat bool | Acceptor_object 'a | Log_object

record tcp_server =
  server_name :: string
  ts_log :: nat
  ts_wp :: nat
  ts_tq :: nat
  ts_ac :: nat

type_synonym 'a ts_heap = "nat \<rightharpoonup> 'a ts_object"

text \<open>Allocation: the address comes from the allocator \<open>new\<close>, which yields one that is not in use and not \<^verbatim>\<open>NULL\<close>.\<close>

definition ts_alloc :: "('a ts_heap \<Rightarrow> nat) \<Rightarrow> 'a ts_object \<Rightarrow> 'a ts_heap \<Rightarrow> 'a ts_heap \<times> nat" where
  "ts_alloc new ob h = (h(new h \<mapsto> ob), new h)"

text \<open>The constructor with a name; \<open>wp\<close>, \<open>tq\<close> and \<open>ac\<close> are the indeterminate values of the pointers.\<close>

definition tcp_server_new :: "('a ts_heap \<Rightarrow> nat) \<Rightarrow> string \<Rightarrow> nat \<Rightarrow> nat \<Rightarrow> nat \<Rightarrow> 'a ts_heap \<Rightarrow> 'a ts_heap \<times> tcp_server" where
  "tcp_server_new new name wp tq ac h =
     (let (h, log) = ts_alloc new Log_object h
      in (h, \<lparr>server_name = name, ts_log = log, ts_wp = wp, ts_tq = tq, ts_ac = ac\<rparr>))"

text \<open>\<^verbatim>\<open>new thread_worker_pool()\<close> makes a queue of its own; \<^verbatim>\<open>set_task_queue\<close> replaces the pointer.\<close>

definition new_pool :: "('a ts_heap \<Rightarrow> nat) \<Rightarrow> 'a ts_heap \<Rightarrow> 'a ts_heap \<times> nat" where
  "new_pool new h = (let (h, jq) = ts_alloc new Queue_object h in ts_alloc new (Pool_object jq False) h)"

definition pool_set_task_queue :: "nat \<Rightarrow> nat \<Rightarrow> 'a ts_heap \<Rightarrow> 'a ts_heap result" where
  "pool_set_task_queue wp q h =
     (case h wp of Some (Pool_object _ r) \<Rightarrow> Inr (h(wp \<mapsto> Pool_object q r)) | _ \<Rightarrow> Inl Use_after_free)"

definition pool_start :: "nat \<Rightarrow> 'a ts_heap \<Rightarrow> 'a ts_heap result" where
  "pool_start wp h =
     (case h wp of Some (Pool_object q _) \<Rightarrow> Inr (h(wp \<mapsto> Pool_object q True)) | _ \<Rightarrow> Inl Use_after_free)"

text \<open>
  \<^verbatim>\<open>init\<close>. \<open>ac_new\<close> is the constructor of an acceptor with a log, \<open>ac_queue\<close> its \<^verbatim>\<open>set_task_queue\<close>.
\<close>

definition tcp_server_init :: "('a ts_heap \<Rightarrow> nat) \<Rightarrow> (nat \<Rightarrow> 'a) \<Rightarrow> (nat \<Rightarrow> 'a \<Rightarrow> 'a) \<Rightarrow>
    'a ts_heap \<times> tcp_server \<Rightarrow> ('a ts_heap \<times> tcp_server) result" where
  "tcp_server_init new ac_new ac_queue s = (case s of (h, ts) \<Rightarrow>
     let (h, tq) = ts_alloc new Queue_object h;
         (h, wp) = new_pool new h
     in res_bind (pool_set_task_queue wp tq h) (\<lambda>h.
        let (h, ac) = ts_alloc new (Acceptor_object (ac_new (ts_log ts))) h;
            h = h(ac \<mapsto> Acceptor_object (ac_queue tq (ac_new (ts_log ts))))
        in Inr (h, ts\<lparr>ts_tq := tq, ts_wp := wp, ts_ac := ac\<rparr>)))"

text \<open>\<^verbatim>\<open>start\<close>, which \<^verbatim>\<open>loop\<close> calls; \<open>ac_start\<close> is what \<^verbatim>\<open>acceptor::start\<close> makes of the acceptor.\<close>

definition tcp_server_start :: "('a ts_heap \<Rightarrow> nat) \<Rightarrow> (nat \<Rightarrow> 'a) \<Rightarrow> (nat \<Rightarrow> 'a \<Rightarrow> 'a) \<Rightarrow> ('a \<Rightarrow> 'a) \<Rightarrow>
    'a ts_heap \<times> tcp_server \<Rightarrow> ('a ts_heap \<times> tcp_server) result" where
  "tcp_server_start new ac_new ac_queue ac_start s =
     res_bind (tcp_server_init new ac_new ac_queue s) (\<lambda>(h, ts).
     res_bind (pool_start (ts_wp ts) h) (\<lambda>h.
     case h (ts_ac ts) of
       Some (Acceptor_object a) \<Rightarrow> Inr (h(ts_ac ts \<mapsto> Acceptor_object (ac_start a)), ts)
     | _ \<Rightarrow> Inl Use_after_free))"

text \<open>
  The destructor: a pointer is deleted when it is \<^verbatim>\<open>NULL\<close>, which does nothing.
\<close>

definition c_delete :: "nat \<Rightarrow> 'a ts_heap \<Rightarrow> 'a ts_heap" where
  "c_delete p h = (if p = 0 then h else h(p := None))"

definition delete_if_null :: "nat \<Rightarrow> 'a ts_heap \<Rightarrow> 'a ts_heap" where
  "delete_if_null p h = (if p = 0 then c_delete p h else h)"

definition tcp_server_destroy :: "'a ts_heap \<times> tcp_server \<Rightarrow> 'a ts_heap" where
  "tcp_server_destroy s = (case s of (h, ts) \<Rightarrow>
     delete_if_null (ts_log ts) (delete_if_null (ts_ac ts) (delete_if_null (ts_tq ts) (delete_if_null (ts_wp ts) h))))"

section \<open>The event core and the acceptor stage\<close>

text \<open>\<^verbatim>\<open>event_core::init\<close>: the socket, the loop that \<open>mk_loop\<close> makes of it, and the value returned.\<close>

definition event_core_init :: "(listen_socket \<Rightarrow> loop_state) \<Rightarrow> int \<Rightarrow> int \<Rightarrow> c_int \<Rightarrow> listen_socket \<times> loop_state \<times> bool" where
  "event_core_init mk_loop socket_ret bind_ret listen_port =
     (let (s, _) = Socket_new socket_ret bind_ret listen_port in (s, mk_loop s, True))"

text \<open>The main program of the acceptor stage up to the loop of \<^verbatim>\<open>acceptor::start\<close>; the result of \<^verbatim>\<open>LogUtil::init\<close> is not used.\<close>

definition acceptor_stage_main :: "log_state \<Rightarrow> nat \<Rightarrow> int \<Rightarrow> bool \<Rightarrow> int \<Rightarrow> int \<Rightarrow> bool \<Rightarrow>
    (listen_socket \<times> 'j worker_pool) result" where
  "acceptor_stage_main ls pid fd created socket_ret bind_ret r =
     res_bind (log_init ls pid fd created) (\<lambda>_. Inr (acceptor_new socket_ret bind_ret r DEFAULT_TCP_PORT))"

section \<open>Properties\<close>

text \<open>What is asked of the allocator.\<close>

definition fresh_alloc :: "('a ts_heap \<Rightarrow> nat) \<Rightarrow> bool" where
  "fresh_alloc new \<longleftrightarrow> (\<forall>h. finite (dom h) \<longrightarrow> h (new h) = None \<and> new h \<noteq> 0)"

lemma fresh_allocD:
  "fresh_alloc new \<Longrightarrow> finite (dom h) \<Longrightarrow> h (new h) = None"
  "fresh_alloc new \<Longrightarrow> finite (dom h) \<Longrightarrow> new h \<noteq> 0"
  by (auto simp: fresh_alloc_def)

text \<open>An allocation adds one object, which differs from all others.\<close>

lemma alloc_step:
  assumes "fresh_alloc new" and "finite (dom h)" and "p = new h" and "h' = h(p \<mapsto> ob)"
  shows "h p = None" "p \<noteq> 0" "finite (dom h')" "card (dom h') = Suc (card (dom h))" "h q \<noteq> None \<Longrightarrow> q \<noteq> p"
  using fresh_allocD [OF assms(1,2)] assms(2-4) by (auto simp: card_insert_if domIff)

lemma delete_if_null_id: "p \<noteq> 0 \<Longrightarrow> delete_if_null p h = h"
  by (simp add: delete_if_null_def)

text \<open>
  Starting the server joins its parts: the pool runs on the queue that is handed to the acceptor, not
  on the one it was made with. The destructor then releases none of the five objects that were made: it
  deletes the members that are \<^verbatim>\<open>NULL\<close>.
\<close>

theorem tcp_server_joined:
  assumes "fresh_alloc new" and "finite (dom h)"
  shows "\<exists>h' ts. tcp_server_start new ac_new ac_queue ac_start (tcp_server_new new name wp tq ac h) = Inr (h', ts) \<and>
    h' (ts_tq ts) = Some Queue_object \<and> h' (ts_wp ts) = Some (Pool_object (ts_tq ts) True) \<and>
    h' (ts_ac ts) = Some (Acceptor_object (ac_start (ac_queue (ts_tq ts) (ac_new (ts_log ts))))) \<and>
    tcp_server_destroy (h', ts) = h' \<and> card (dom h') = card (dom h) + 5"
proof -
  note step = alloc_step [OF assms(1)]
  define p1 where "p1 = new h"
  define h1 where "h1 = h(p1 \<mapsto> Log_object)"
  define p2 where "p2 = new h1"
  define h2 where "h2 = h1(p2 \<mapsto> Queue_object)"
  define p3 where "p3 = new h2"
  define h3 where "h3 = h2(p3 \<mapsto> Queue_object)"
  define p4 where "p4 = new h3"
  define h4 where "h4 = h3(p4 \<mapsto> Pool_object p2 False)"
  define p5 where "p5 = new h4"
  let ?a = "Acceptor_object (ac_start (ac_queue p2 (ac_new p1)))"
  define h5 where "h5 = h4(p5 \<mapsto> ?a)"
  note s1 = step [OF assms(2) p1_def h1_def]
  note s2 = step [OF s1(3) p2_def h2_def]
  note s3 = step [OF s2(3) p3_def h3_def]
  note s4 = step [OF s3(3) p4_def h4_def]
  note s5 = step [OF s4(3) p5_def h5_def]
  have ne: "p2 \<noteq> p4" "p2 \<noteq> p5" "p4 \<noteq> p5" "p2 \<noteq> p3"
    using s3(5) [of p2] s4(5) [of p2] s5(5) [of p2] s5(5) [of p4]
    by (auto simp: h2_def h3_def h4_def)
  have p4: "h4 p4 = Some (Pool_object p2 False)" by (simp add: h4_def)
  have "tcp_server_start new ac_new ac_queue ac_start (tcp_server_new new name wp tq ac h) =
      Inr (h5(p4 \<mapsto> Pool_object p2 True), \<lparr>server_name = name, ts_log = p1, ts_wp = p4, ts_tq = p2, ts_ac = p5\<rparr>)"
    using ne p4
    by (auto simp: h5_def fun_upd_twist tcp_server_start_def tcp_server_init_def tcp_server_new_def ts_alloc_def new_pool_def
        pool_set_task_queue_def pool_start_def Let_def
        p1_def [symmetric] h1_def [symmetric] p2_def [symmetric] h2_def [symmetric] p3_def [symmetric] h3_def [symmetric]
        p4_def [symmetric] h4_def [symmetric] p5_def [symmetric])
  moreover have "dom (h5(p4 \<mapsto> Pool_object p2 True)) = dom h5" by (auto simp: h5_def h4_def)
  ultimately show ?thesis
    using s1(2,4) s2(2,4) s3(2,4) s4(2,4) s5(2,4) ne
    by (auto simp: tcp_server_destroy_def delete_if_null_id h5_def h4_def h3_def h2_def)
qed

definition ex_new :: "'a ts_heap \<Rightarrow> nat" where
  "ex_new h = Suc (Max (insert 0 (dom h)))"

lemma fresh_ex_new: "fresh_alloc ex_new"
proof -
  have "h (ex_new h) = None" if "finite (dom h)" for h :: "'a ts_heap"
  proof (rule ccontr)
    assume "h (ex_new h) \<noteq> None"
    then have "ex_new h \<le> Max (insert 0 (dom h))" using that by (intro Max_ge) auto
    then show False by (simp add: ex_new_def)
  qed
  then show ?thesis by (simp add: fresh_alloc_def) (simp add: ex_new_def)
qed

theorem tcp_server_joined_witness:
  "\<exists>h' ts. tcp_server_start ex_new (\<lambda>_. []) Cons rev (tcp_server_new ex_new ''tcp_server'' 0 0 0 Map.empty) = Inr (h', ts) \<and>
     h' (ts_wp ts) = Some (Pool_object (ts_tq ts) True) \<and> h' (ts_ac ts) = Some (Acceptor_object [ts_tq ts]) \<and>
     card (dom (tcp_server_destroy (h', ts))) = 5"
  using tcp_server_joined [OF fresh_ex_new, of Map.empty "\<lambda>_. []" Cons rev "''tcp_server''" 0 0 0] by auto

text \<open>
  Neither program looks at whether it has a socket: \<^verbatim>\<open>event_core::init\<close> always reports success, and the
  acceptor stage starts its twenty workers also when the port cannot be bound.
\<close>

theorem servers_ignore_socket_failure:
  "snd (snd (event_core_init mk_loop (- 1) b p)) \<and> \<not> ls_listening (fst (event_core_init mk_loop (- 1) b p)) \<and>
   (acceptor_stage_main ls pid fd c (- 1) b r = Inr (s, w) \<longrightarrow> \<not> ls_listening s \<and> (\<forall>t < 20. workers w t = W_test))"
  by (auto simp: event_core_init_def Socket_new_def initServer_def acceptor_stage_main_def acceptor_new_def init_acceptor_def
      init_worker_pool_def wp_start_def worker_pool_new_def default_worker_num_def wp_init_def Let_def res_bind_Inr_iff)

end
