(* ===== verification/Test_Drivers.thy ===== *)
theory Test_Drivers
  imports Main_Program Seda Tcp_Server
begin

text \<open>
  The test programs that use more of the library than the operating system: \<^verbatim>\<open>test_async_logger.cpp\<close>,
  \<^verbatim>\<open>test_redis_client.cpp\<close> with the life of a \<^verbatim>\<open>redisClient\<close>, \<^verbatim>\<open>test/src/test_work_pool.cpp\<close> and \<^verbatim>\<open>test_server.cpp\<close>.
  What they are meant to show is compared with what they do.
\<close>

section \<open>The logger\<close>

text \<open>The initial values of the static members.\<close>

definition log_initial :: log_state where
  "log_initial = \<lparr>is_async = True, log_tq = new_task_queue, log_file = []\<rparr>"

definition logger_message :: "byte list" where
  "logger_message = bytes_of ''This is a logger debug test''"

text \<open>
  The program on its arguments (\<open>argv\<close> with the program name, each with its terminator). The log thread
  is not run in between: \<open>None\<close> is a program that waits for it because the queue is full. The busy loop and the
  clock are left out.
\<close>

definition logger_test :: "log_state \<Rightarrow> byte list list \<Rightarrow> nat \<Rightarrow> int \<Rightarrow> bool \<Rightarrow> (log_state option \<times> int) result" where
  "logger_test s argv pid fd created =
     (let argc = length argv in
      if argc < 3 then Inr (Some s, 1)
      else
        let s = (if atoi (argv ! (argc - 2)) = 1 then set_async s True else s) in
        res_bind (log_init s pid fd created) (\<lambda>_.
        res_bind (debug_all s (replicate (nat (sint (atoi (argv ! (argc - 1))))) logger_message)) (\<lambda>s.
        Inr (s, 0))))"

section \<open>The redis client\<close>

text \<open>The pointer to the last reply: \<^verbatim>\<open>NULL\<close>, never assigned, or a reply.\<close>

datatype redis_ptr = Ptr_null | Ptr_wild | Ptr_reply string

record redis_client =
  rd_c :: redis_context
  rd_ptr :: redis_ptr
  rd_object :: seda_object

text \<open>\<^verbatim>\<open>freeReplyObject(ptr)\<close> and \<^verbatim>\<open>redisFree(c)\<close> accept \<^verbatim>\<open>NULL\<close>.\<close>

definition redisClient_destroy :: "redis_client \<Rightarrow> redis_client result" where
  "redisClient_destroy rc =
     (if rd_ptr rc = Ptr_wild then Inl Use_after_free
      else if rd_c rc = Ctx_freed then Inl Use_after_free
      else Inr (rc\<lparr>rd_c := if rd_c rc = Ctx_live then Ctx_freed else rd_c rc\<rparr>))"

text \<open>\<^verbatim>\<open>decrRefCount\<close> on a client: the last reference deletes it.\<close>

definition redisClient_decr :: "redis_client \<Rightarrow> redis_client result" where
  "redisClient_decr rc =
     (let ob = decrRefCount (rd_object rc) in
      res_bind (if deleted ob then redisClient_destroy rc else Inr rc) (\<lambda>rc. Inr (rc\<lparr>rd_object := ob\<rparr>)))"

definition redisClient_connect :: "redis_api \<Rightarrow> string \<Rightarrow> int \<Rightarrow> redis_client \<Rightarrow> redis_client \<times> bool" where
  "redisClient_connect a ip port rc = (case redis_connect a ip port of (c, suc) \<Rightarrow> (rc\<lparr>rd_c := c\<rparr>, suc))"

definition redisClient_command :: "redis_api \<Rightarrow> string \<Rightarrow> redis_client \<Rightarrow> (redis_client \<times> string option) result" where
  "redisClient_command a format rc =
     (if rd_c rc = Ctx_null then Inr (rc, None)
      else res_bind (redis_command a (rd_c rc) format) (\<lambda>r.
        Inr (rc\<lparr>rd_ptr := case r of None \<Rightarrow> Ptr_null | Some s \<Rightarrow> Ptr_reply s\<rparr>, r)))"

text \<open>The program: what it prints of the reply, and its exit status. \<open>c0\<close> and \<open>p0\<close> are the members of the new client.\<close>

definition redis_test :: "redis_api \<Rightarrow> redis_context \<Rightarrow> redis_ptr \<Rightarrow> (string \<times> int) result" where
  "redis_test a c0 p0 =
     (let rc = \<lparr>rd_c = c0, rd_ptr = p0, rd_object = incrRefCount new_seda_object\<rparr>;
          (rc, suc) = redisClient_connect a ''127.0.0.1'' 6379 rc
      in if \<not> suc then res_bind (redisClient_decr rc) (\<lambda>_. Inr ([], - 1))
         else
           res_bind (redisClient_command a ''set test:name shilei'' rc) (\<lambda>(rc, _).
           res_bind (redisClient_command a ''get test:name'' rc) (\<lambda>(rc, r).
           case r of
             None \<Rightarrow> Inl Null_deref
           | Some s \<Rightarrow> res_bind (redisClient_decr rc) (\<lambda>_. Inr (s, 0)))))"

section \<open>The worker pool and the server\<close>

text \<open>\<^verbatim>\<open>test/src/test_work_pool.cpp\<close>: a running pool, and four elements in a queue that is not the pool's.\<close>

definition work_pool_test :: "bool \<Rightarrow> nat worker_pool \<times> nat task_queue" where
  "work_pool_test r =
     (let wp = wp_start (worker_pool_new default_worker_num False r);
          tq = foldl (\<lambda>q i. fst (push_body i q)) new_task_queue [0 ..< 4]
      in (wp, tq))"

definition test_server_main :: "('a ts_heap \<Rightarrow> nat) \<Rightarrow> (nat \<Rightarrow> 'a) \<Rightarrow> (nat \<Rightarrow> 'a \<Rightarrow> 'a) \<Rightarrow> ('a \<Rightarrow> 'a) \<Rightarrow>
    nat \<Rightarrow> nat \<Rightarrow> nat \<Rightarrow> 'a ts_heap \<Rightarrow> ('a ts_heap \<times> tcp_server) result" where
  "test_server_main new ac_new ac_queue ac_start wp tq ac h =
     tcp_server_start new ac_new ac_queue ac_start (tcp_server_new new ''sl_server'' wp tq ac h)"

section \<open>Properties\<close>

lemma logger_message_ok: "0 \<notin> set logger_message" "length logger_message = 27"
  by (simp_all add: logger_message_def bytes_of_def)

text \<open>
  The mode that \<^verbatim>\<open>test_async_logger\<close> is given has no effect, although its usage line offers a synchronous one:
  logging is asynchronous from the start, and the program never switches it off. With either
  argument, up to 2000 messages end up as records in the queue, and none is written by the program itself.
\<close>

theorem logger_test_always_async:
  assumes "log_file_name pid = Inr out" and "k \<le> 2000"
  shows "\<exists>s. logger_test log_initial [prog, mode, to_string k @ [0]] pid fd created = Inr (Some s, 0) \<and>
    get_queue (log_tq s) = replicate k (log_record logger_message) \<and> log_file s = []"
proof -
  have same: "(if atoi mode = 1 then set_async log_initial True else log_initial) = log_initial"
    by (simp add: set_async_def log_initial_def)
  have k: "nat (sint (atoi (to_string k @ [0]))) = k"
    using atoi_to_string [of k "[]"] assms(2) by (simp add: signed_of_nat signed_take_bit_int_eq_self)
  have "\<exists>s. debug_all log_initial (replicate k logger_message) = Inr (Some s) \<and> wf_queue (log_tq s) \<and>
      log_file s = log_file log_initial \<and>
      get_queue (log_tq s) = get_queue (log_tq log_initial) @ map log_record (replicate k logger_message)"
    by (rule debug_all_queue) (use assms(2) logger_message_ok in
      \<open>auto simp: log_initial_def get_queue_def new_task_queue_def wf_queue_def\<close>)
  then show ?thesis
    using assms(1) same k
    by (auto simp: logger_test_def log_init_def Let_def log_initial_def get_queue_def new_task_queue_def)
qed

theorem logger_test_always_async_witness:
  "\<exists>s. logger_test log_initial [[0], [0x30, 0], to_string 2 @ [0]] 42 3 True = Inr (Some s, 0) \<and>
     get_queue (log_tq s) = [log_record logger_message, log_record logger_message] \<and> log_file s = []"
proof -
  have "\<exists>out. log_file_name 42 = Inr out"
    by (simp add: log_file_name_def mem_write_def log_output_def to_string.simps)
  then obtain out where "log_file_name 42 = Inr out" ..
  from logger_test_always_async [OF this, of 2 "[0]" "[0x30, 0]" 3 True] show ?thesis by (simp add: numeral_2_eq_2)
qed

text \<open>
  The redis program when the server refuses the connection: \<^verbatim>\<open>connect\<close> has freed the context, and dropping the
  last reference frees it again (or frees a reply that was never assigned), so the error branch does not reach
  its \<^verbatim>\<open>return\<close>. On a connection it prints the reply, unless the reply is \<^verbatim>\<open>NULL\<close>, which it dereferences.
\<close>

theorem redis_test_outcome:
  "(redisConnect a ''127.0.0.1'' 6379 = Some True \<longrightarrow> redis_test a c0 p0 = Inl Use_after_free) \<and>
   (redisConnect a ''127.0.0.1'' 6379 = Some False \<longrightarrow> redis_test a c0 p0 =
     (case redisCommand a ''get test:name'' of None \<Rightarrow> Inl Null_deref | Some s \<Rightarrow> Inr (s, 0)))"
  by (auto simp: redis_test_def redisClient_connect_def redis_connect_def redisClient_decr_def redisClient_destroy_def
      redisClient_command_def redis_command_def incrRefCount_def decrRefCount_def new_seda_object_def Let_def
      split: option.splits)

text \<open>
  The test of the worker pool tests nothing: its four elements wait in a queue of their own, and in every
  state the pool reaches it has run no job.
\<close>

definition pool_alone :: "nat worker_pool \<Rightarrow> nat worker_pool \<Rightarrow> bool" where
  "pool_alone w w' \<longleftrightarrow> (\<exists>t. worker_step t w = Some w')"

lemma worker_step_submitted: "worker_step t w = Some w' \<Longrightarrow> submitted w' = submitted w"
  by (cases "workers w t") (auto simp: worker_step_def Let_def split: if_splits option.splits prod.splits)

lemma pool_alone_reach:
  assumes "reach (\<lambda>w. w = fst (work_pool_test r)) pool_alone w"
  shows "reach (wp_started 20) wp_step w \<and> submitted w = []"
  using assms
proof (induction rule: reach.induct)
  case (reach_init w)
  have "wp_started 20 (fst (work_pool_test r))"
    unfolding wp_started_def by (rule exI [of _ False], rule exI [of _ r]) (simp add: work_pool_test_def default_worker_num_def)
  then show ?case
    using reach_init by (auto intro: reach.reach_init simp: work_pool_test_def wp_start_def worker_pool_new_def wp_init_def Let_def)
next
  case (reach_step w w')
  then show ?case by (auto simp: pool_alone_def worker_step_submitted intro: reach.reach_step wp_step.work)
qed

theorem work_pool_test_idle:
  assumes "reach (\<lambda>w. w = fst (work_pool_test r)) pool_alone w"
  shows "executed w = [] \<and> q_elems (snd (work_pool_test r)) = [0, 1, 2, 3]"
proof -
  have "wp_inv 20 w" and "submitted w = []" using pool_alone_reach [OF assms] wps.reach_inv by blast+
  then have "executed w = []" by (auto simp: wp_inv_def jobs_inv_def)
  moreover have "q_elems (snd (work_pool_test r)) = [0, 1, 2, 3]"
    by (simp add: work_pool_test_def new_task_queue_def push_body_def get_queue_def Let_def upt_rec)
  ultimately show ?thesis by simp
qed

theorem work_pool_test_idle_witness:
  "executed (fst (work_pool_test True)) = [] \<and> q_elems (snd (work_pool_test True)) = [0, 1, 2, 3]"
  by (rule work_pool_test_idle, rule reach.reach_init) simp

end
