(* ===== verification/Spec2Isabelle.thy ===== *)
theory Spec2Isabelle
  imports Util_Tools Splay_Cost Splay_Rank Mq_Test Pipeline Config_File Event_Loop Http_Server Main_Program Net_Loop Receiver_Queue Seda Tcp_Server Test_Drivers
begin

text \<open>
  A verification of the SEDA framework: a C/C++ server library that splits a program into stages,
  each with a queue, a pool of worker threads and a function, connected by messages. Around the
  stages the repository has an HTTP front end, a cache on a splay tree, a publish/subscribe message
  queue of its own and an asynchronous logger.

  \<^bold>\<open>The parts and how they meet.\<close>
  A stage (\<^verbatim>\<open>stage.cpp\<close>) owns a \<^verbatim>\<open>receiver\<close>, a \<^verbatim>\<open>stage_handler\<close>, a \<^verbatim>\<open>sender\<close> and a \<^verbatim>\<open>worker_pool\<close>. The receiver
  puts what arrives into a \<^verbatim>\<open>task_queue\<close> (\<^verbatim>\<open>job_queue.cpp\<close>); the handler's thread fetches one element at a
  time and submits a job to the pool; the job applies the stage's function and hands the result to the
  sender, whose bytes arrive at the receiver of the next stage. The graph of the stages is \<^verbatim>\<open>SEDA\<close>
  (\<^verbatim>\<open>seda.cpp\<close>). The HTTP front end (\<^verbatim>\<open>acceptor.cpp\<close>) submits a \<^verbatim>\<open>read_conn\<close> or \<^verbatim>\<open>write_conn\<close> job to the same
  pool for each event of a connection; \<^verbatim>\<open>read_conn\<close> runs the state machine of \<^verbatim>\<open>http_request.cpp\<close>. The
  stage functions of \<^verbatim>\<open>http_server.cpp\<close> use a copy of this machine and the splay tree (\<^verbatim>\<open>splaytree.c\<close>) as
  a cache. The message queue (\<^verbatim>\<open>message_queue/\<close>) is a client library and a server that exchange frames
  with a checksum; the server forwards messages in the envelope of \<^verbatim>\<open>mq_def.cpp\<close>, built with the
  \<^verbatim>\<open>Buffer\<close> of \<^verbatim>\<open>buffer.cpp\<close>. The logger (\<^verbatim>\<open>log.cpp\<close>) writes from a queue of its own.

  \<^bold>\<open>Theories.\<close>
  \<^item> \<open>Prelude\<close>: machine types, the faults of C code as values, checked byte arrays, C strings, and the
    locales \<open>invariant_system\<close> and \<open>refinement_system\<close> for transition systems.
  \<^item> \<open>Util_Tools\<close> (\<^verbatim>\<open>utiltools.cpp\<close>): \<open>hash\<close> on 32-bit words and \<open>split_string\<close>. The hash is the
    polynomial with base 65599, defined and non-negative on every buffer that is long enough;
    \<open>split_string\<close> does not return unless its range is empty.
  \<^item> \<open>Splay_Spec\<close>, \<open>Splay_Heap\<close>, \<open>Splay_Ops\<close> (\<^verbatim>\<open>splaytree.c\<close>): top-down splaying as a function on trees and
    the pointer program on an explicit heap, in which the stack node \<^verbatim>\<open>N\<close> has an address. The heap
    program is shown to return on every tree and to leave the tree of the functional version, with
    the size fields right and the rest of the heap unchanged; the functional version is a finite map
    (locale \<open>keyed_store\<close>, interpreted as \<open>spl\<close>). Together, any session of insertions and deletions
    of non-negative keys is a session on a map, whichever unused blocks \<^verbatim>\<open>malloc\<close> returns; the comparison of keys is a difference
    that can overflow for keys of both signs, and then a key can be inserted twice.
  \<^item> \<open>Splay_Cost\<close> (\<^verbatim>\<open>splaytree.c\<close>): the runs of the three loops of a splay counted on the heap, and their amortised
    logarithmic bound by the potential method (locale \<open>potential_method\<close>, interpreted as \<open>amt\<close>).
  \<^item> \<open>Splay_Rank\<close> (\<^verbatim>\<open>splaytree.c\<close>): \<^verbatim>\<open>find_rank\<close>, disabled by \<^verbatim>\<open>#if 0\<close>, finds the node of a rank by the size fields.
  \<^item> \<open>Job_Queue\<close> (\<^verbatim>\<open>job_queue.cpp\<close>): push and pop with the mutex and the two condition variables,
    interleaved over any number of threads with spurious wake-ups (\<open>jq_step\<close>). The locale
    \<open>bounded_fifo\<close> is the contract of the critical sections and is interpreted on them (\<open>tq\<close>). Every
    interleaving refines a bounded FIFO buffer and never pops an empty queue; wake-ups are not lost
    with one thread on each side, and are lost when a burst of jobs meets several sleeping consumers.
  \<^item> \<open>Worker_Pool\<close> (\<^verbatim>\<open>worker_pool.cpp\<close>): the loop of the workers at the granularity of reads and writes
    of \<^verbatim>\<open>running_num\<close>. Every job is in exactly one place and runs once; the counter is the number of
    jobs being run; \<^verbatim>\<open>stop\<close> cannot return.
  \<^item> \<open>Buffer\<close> (\<^verbatim>\<open>buffer.cpp\<close>, \<^verbatim>\<open>mq_def.cpp\<close>): the buffer as checked memory; encoding and decoding of the
    envelope are inverse although a buffer keeps its last chunk only.
  \<^item> \<open>Message_Queue\<close> (\<^verbatim>\<open>message_queue/\<close>): the frames of the client and the handlers of the server on its
    maps. What the client sends passes the server's checksum, a changed byte does not, subscriptions
    are recorded, and a published message comes out of the server on the descriptor it came from.
  \<^item> \<open>Mq_Runtime\<close> (the rest of \<^verbatim>\<open>message_queue/\<close>): parsing of the server's address and connecting, the client's
    reader thread, and the life of connections at the server. Addresses are read back as printed, dotted notation
    tells hosts apart, a subscription by address reaches the right list, and all clients of a host share an entry.
  \<^item> \<open>Mq_Loop\<close> (\<^verbatim>\<open>message_queue_server.cpp\<close>): the running server, poller and workers interleaved job by job
    (\<open>mq_step\<close>). A session of two clients from the start of the server; who is written to in any run; a job finds
    its connection as long as no peer closes, and can use a deleted one when a peer does.
  \<^item> \<open>Mq_Test\<close> (\<^verbatim>\<open>test_mq_client.cpp\<close>): the client program and what its registration does at the server.
  \<^item> \<open>Http_Request\<close>, \<open>Http_Server\<close> (\<^verbatim>\<open>http_request.cpp\<close>, \<^verbatim>\<open>http_server.cpp\<close>): the parser with checked
    access to the arrays it fills. Well-formed requests are recognised, the states are passed in order however a
    request is cut into pieces, though a cut in the target loses its first part, and the inputs on which
    the parser stops short or writes outside
    its arrays are characterised. The stage functions have a second text of the parser, a machine of its own here
    (\<open>hst_step\<close>); the two are equivalent but for a log line that reads a target of 64 bytes past its end. The cache
    lookup finds the same node whatever the target is.
  \<^item> \<open>Acceptor\<close> (\<^verbatim>\<open>acceptor.cpp\<close>, \<^verbatim>\<open>connect.cpp\<close>): the two jobs of a connection as functions, and successive calls of
    \<^verbatim>\<open>read_conn\<close> (\<open>read_calls\<close>), which all keep the first request.
  \<^item> \<open>Event_Loop\<close> (\<^verbatim>\<open>acceptor.cpp\<close>): accepting, the one-shot events of the poller, the queue of jobs and the steps of
    the workers that read, arm, close and answer, interleaved (\<open>ev_step\<close>). A request is carried to its
    answer; only existing connections are polled; a job refers to a deleted connection only after the end of input, and
    then it can.
  \<^item> \<open>Logging\<close> (\<^verbatim>\<open>log.cpp\<close>): initialisation, formatting, queueing and writing of log records, and stopping.
    Callers, the log thread and \<^verbatim>\<open>stop\<close> are interleaved (\<open>log_step\<close>): the file has the records of the accepted messages in order, as far as
    they have been written; what \<^verbatim>\<open>stop\<close> writes, drops or waits for is given for every position of the thread.
  \<^item> \<open>Stage\<close> (\<^verbatim>\<open>IElement.h\<close>, \<^verbatim>\<open>receiver.cpp\<close>, \<^verbatim>\<open>stage_handler.cpp\<close>, \<^verbatim>\<open>sender.cpp\<close>): the way of a message
    through a stage.
  \<^item> \<open>Receiver_Queue\<close> (\<^verbatim>\<open>receiver.cpp\<close>, \<^verbatim>\<open>receiver.h\<close>): the loop of \<^verbatim>\<open>receiver::run\<close> and the callers of \<^verbatim>\<open>fetchOne\<close>, interleaved at
    the granularity of the mutex (\<open>rq_step\<close>). Messages are neither lost nor reordered for any number of callers; with one
    caller no wake-up is lost although the signal is sent outside of the mutex, and a call can always be completed.
  \<^item> \<open>Pipeline\<close> (\<^verbatim>\<open>receiver.cpp\<close>, \<^verbatim>\<open>stage_handler.cpp\<close>): stages in a row over links that may lose messages, with
    all their threads interleaved (\<open>pipe_step\<close>). What a stage sends is the composition of the functions applied to inputs, in their order
    as long as jobs do not overlap.
  \<^item> \<open>Config_File\<close> (\<^verbatim>\<open>config.cpp\<close>): the reader of the configuration file that stands after the \<^verbatim>\<open>return\<close>.
  \<^item> \<open>Stage_Start\<close> (\<^verbatim>\<open>stage.cpp\<close>, \<^verbatim>\<open>stage_control.cpp\<close>, \<^verbatim>\<open>stage_queue.cpp\<close> and the set-up of receiver and sender): what \<^verbatim>\<open>stage::init\<close>
    leaves in the pool of \<open>Worker_Pool\<close>, and the start-up of a stage as steps of its workers and of
    \<^verbatim>\<open>runStage\<close> (\<open>boot_step\<close>), with the race for the handler's function and for any value that function has at first.
  \<^item> \<open>Main_Program\<close> (\<^verbatim>\<open>main.cpp\<close>, \<^verbatim>\<open>redis_client.cpp\<close>): \<^verbatim>\<open>daemonize\<close> on a table of descriptors, the functions of the demonstration
    pipeline with their log output, and the processes that \<^verbatim>\<open>main\<close> forks.
  \<^item> \<open>Net_Loop\<close> (\<^verbatim>\<open>socket.cpp\<close>, \<^verbatim>\<open>loop.cpp\<close>): listening sockets, and the unused event loop with its two
    epoll instances.
  \<^item> \<open>Tcp_Server\<close> (\<^verbatim>\<open>tcp_server.cpp\<close>, \<^verbatim>\<open>event_core.cpp\<close>, \<^verbatim>\<open>acceptor_stage.cpp\<close>): the objects the TCP server makes and joins over one
    queue and does not release, the set-up of the event core, and the main program of the acceptor stage.
  \<^item> \<open>Test_Drivers\<close> (\<^verbatim>\<open>test_async_logger.cpp\<close>, \<^verbatim>\<open>test_redis_client.cpp\<close>, \<^verbatim>\<open>test/src/test_work_pool.cpp\<close>, \<^verbatim>\<open>test_server.cpp\<close>): what the test
    programs do with the library, and the life of a redis client, whose context is freed twice after a refused connection.
  \<^item> \<open>Seda\<close> (\<^verbatim>\<open>seda.cpp\<close>, \<^verbatim>\<open>seda_object.cpp\<close>, \<^verbatim>\<open>config.cpp\<close>, \<^verbatim>\<open>stage::run\<close>, \<^verbatim>\<open>test_seda_framework.cpp\<close>): the graph and its start.

  \<^bold>\<open>Conventions.\<close>
  Undefined behaviour is a value: \<open>Inl\<close> of a fault, or \<open>None\<close> in the splay heap. A loop that may not end
  is a \<open>partial_function (option)\<close>, or a loop with a \<open>termination\<close> proof where it always ends; no definition has
  fuel. Where the number of steps depends on another process, the input is the list of chunks
  that \<^verbatim>\<open>read\<close> delivers, and the loop is recursion over it. System calls are arguments of the
  definitions that use them: the bytes in a fresh stack array (\<open>junk\<close>), the result of \<^verbatim>\<open>open\<close> and
  \<^verbatim>\<open>write\<close>, the initial contents \<open>g\<close> of the stack node of \<^verbatim>\<open>splaytree_splay\<close>. Allocation succeeds, and
  yields an address that is not in use. Signed overflow, undefined in C, is modelled as wrap-around; theorems that
  would depend on it exclude it by a hypothesis. Text printed for debugging is left out; log lines are
  modelled where a theory says so (\<open>Main_Program\<close>, \<open>Seda\<close>, \<open>Http_Server\<close>, the bound on messages in \<open>Pipeline\<close>). Elements are copied
  atomically, though the code has no lock for the one that the jobs of a stage share. A \<^verbatim>\<open>char\<close> is signed
  and an \<^verbatim>\<open>int\<close> has 32 bits.

  Concurrent parts are step relations over explicit program counters; the locale \<open>invariant_system\<close> is
  interpreted on each of them (\<open>jqs\<close>, \<open>wps\<close>, \<open>shs\<close>, \<open>bts\<close>, \<open>evs\<close>, \<open>mql\<close>, \<open>mqs\<close>, \<open>lps\<close>, \<open>rqs\<close>, \<open>rqw\<close>, \<open>sds\<close>, \<open>lrs\<close>, \<open>pps\<close>), and the properties of all
  reachable states rest on these interpretations.

  \<^bold>\<open>Not modelled.\<close>
  The libraries ZeroMQ and hiredis, which are arguments of the definitions that call them; of the connections of ZeroMQ
  \<open>lossy_fifo\<close> is assumed. In \<open>Stage\<close> and \<open>Receiver_Queue\<close>, the log lines of
  \<^verbatim>\<open>fetchOne\<close> and \<^verbatim>\<open>sendMsg\<close>, of which the first overruns for elements of more than 78 characters (\<open>fetch_log_room\<close>). The
  constructors that \<^verbatim>\<open>event_core.cpp\<close> and \<^verbatim>\<open>tcp_server.cpp\<close> call and the classes no longer have, which are arguments too. Members of classes that are declared and
  never defined (\<^verbatim>\<open>stage::getPersistData\<close>, \<^verbatim>\<open>Socket::connect\<close>, \<^verbatim>\<open>LogUtil::error\<close> and others). Test drivers that exercise the operating
  system. Overlapping accesses of jobs to the maps of the message queue server, which have no lock: a job is one step.
\<close>

end
